(* ===== verification/Prelude.thy ===== *)
theory Prelude
  imports Main "HOL-Library.Word"
begin

text \<open>
  What the components share: the values that stand for C++ exceptions and undefined
  behaviour, the result of an operation on a mutable object, shared pointers and the objects
  they point to, decimal printing, and the collections of rewrite rules the proofs use.
\<close>

section \<open>Collections of rules\<close>

named_theorems run_simps "rules that evaluate the results of the operations"
named_theorems frame_simps "fields an operation does not write"

section \<open>Exceptions and undefined behaviour\<close>

text \<open>
  Every way an operation can fail to return: a C++ exception, with the text of its
  \<^verbatim>\<open>what()\<close> where the source gives one, or an action the language leaves undefined.
\<close>

datatype ub =
    Null_deref
  | Bad_pointer
  | Invalid_iterator
  | Empty_container
  | Bad_index
  | Bad_cast

datatype error =
    Length_error string
  | Out_of_range string
  | Invalid_argument string
  | Json_parse_error nat nat string
  | Json_type_error nat string
  | Json_out_of_range nat string
  | Spdlog_ex string
  | System_error string
  | Undefined ub

text \<open>
  A method of an object returns a value or an error, together with the object afterwards: an
  exception thrown half way leaves the fields already written as they are.
\<close>

type_synonym ('a, 's) result = "(error + 'a) \<times> 's"

abbreviation returns :: "'a \<Rightarrow> 's \<Rightarrow> ('a, 's) result" where
  "returns x s \<equiv> (Inr x, s)"

abbreviation raises :: "error \<Rightarrow> 's \<Rightarrow> ('a, 's) result" where
  "raises e s \<equiv> (Inl e, s)"

definition ebind :: "(error + 'a) \<Rightarrow> ('a \<Rightarrow> error + 'b) \<Rightarrow> error + 'b" where
  "ebind m f = (case m of Inl e \<Rightarrow> Inl e | Inr x \<Rightarrow> f x)"

lemma ebind_simps [simp]:
  "ebind (Inl e) f = Inl e"
  "ebind (Inr x) f = f x"
  by (simp_all add: ebind_def)

lemma ebind_Inr_iff: "ebind m f = Inr y \<longleftrightarrow> (\<exists>x. m = Inr x \<and> f x = Inr y)"
  by (cases m) simp_all

section \<open>Lists as indexed containers\<close>

text \<open>
  Indexing past the end of a \<^verbatim>\<open>std::vector\<close> is undefined; \<open>vec_at\<close> makes it an error.
\<close>

definition vec_at :: "'a list \<Rightarrow> nat \<Rightarrow> error + 'a" where
  "vec_at xs i = (if i < length xs then Inr (xs ! i) else Inl (Undefined Bad_index))"

lemma vec_at_in [simp]: "i < length xs \<Longrightarrow> vec_at xs i = Inr (xs ! i)"
  by (simp add: vec_at_def)

lemma vec_at_Inr_iff: "vec_at xs i = Inr x \<longleftrightarrow> i < length xs \<and> x = xs ! i"
  by (auto simp: vec_at_def)

lemma filter_eq_single_iff:
  "distinct xs \<Longrightarrow> filter (\<lambda>y. y = x) xs = (if x \<in> set xs then [x] else [])"
  by (induction xs) auto

section \<open>Decimal printing\<close>

text \<open>\<^verbatim>\<open>std::to_string\<close> and the stream insertion of an integer.\<close>

definition digit :: "nat \<Rightarrow> char" where
  "digit n = char_of (48 + n mod 10)"

fun nat_to_string :: "nat \<Rightarrow> string" where
  "nat_to_string n = (if n < 10 then [digit n] else nat_to_string (n div 10) @ [digit n])"

declare nat_to_string.simps [simp del]

definition to_string :: "int \<Rightarrow> string" where
  "to_string i = (if i < 0 then CHR ''-'' # nat_to_string (nat (- i)) else nat_to_string (nat i))"

definition is_digit :: "char \<Rightarrow> bool" where
  "is_digit c \<longleftrightarrow> 48 \<le> (of_char c :: nat) \<and> (of_char c :: nat) \<le> 57"

definition digit_val :: "char \<Rightarrow> nat" where
  "digit_val c = of_char c - 48"

text \<open>The optional sign of a number the standard library reads.\<close>

definition sign_of :: "string \<Rightarrow> bool \<times> string" where
  "sign_of s = (case s of [] \<Rightarrow> (False, [])
     | c # cs \<Rightarrow> if c = CHR ''-'' then (True, cs) else if c = CHR ''+'' then (False, cs) else (False, s))"

fun string_to_nat :: "nat \<Rightarrow> string \<Rightarrow> nat" where
  "string_to_nat acc [] = acc"
| "string_to_nat acc (c # cs) = string_to_nat (acc * 10 + digit_val c) cs"

lemma of_char_digit [simp]: "(of_char (digit n) :: nat) = 48 + n mod 10"
proof -
  have "(48 + n mod 10) mod 256 = (48 + n mod 10 :: nat)" by simp
  then show ?thesis by (simp add: digit_def)
qed

lemma is_digit_digit [simp]: "is_digit (digit n)"
  by (simp add: is_digit_def)

lemma digit_val_digit [simp]: "digit_val (digit n) = n mod 10"
  by (simp add: digit_val_def)

lemma nat_to_string_nonempty [simp]: "nat_to_string n \<noteq> []"
  by (subst nat_to_string.simps) simp

lemma nat_to_string_digits: "c \<in> set (nat_to_string n) \<Longrightarrow> is_digit c"
proof (induction n rule: nat_to_string.induct)
  case (1 n)
  then show ?case
    by (cases "n < 10") (auto simp: nat_to_string.simps [of n])
qed

lemma string_to_nat_append:
  "string_to_nat acc (xs @ ys) = string_to_nat (string_to_nat acc xs) ys"
  by (induction xs arbitrary: acc) auto

lemma string_to_nat_nat_to_string: "string_to_nat 0 (nat_to_string n) = n"
proof (induction n rule: nat_to_string.induct)
  case (1 n)
  then show ?case
    by (cases "n < 10") (auto simp: nat_to_string.simps [of n] string_to_nat_append)
qed

lemma nat_to_string_inject [simp]: "nat_to_string m = nat_to_string n \<longleftrightarrow> m = n"
  by (metis string_to_nat_nat_to_string)

lemma length_nat_to_string_le:
  "n < 10 ^ k \<Longrightarrow> 0 < k \<Longrightarrow> length (nat_to_string n) \<le> k"
proof (induction n arbitrary: k rule: nat_to_string.induct)
  case (1 n)
  show ?case
  proof (cases "n < 10")
    case True
    with "1.prems" show ?thesis by (simp add: nat_to_string.simps [of n])
  next
    case False
    with "1.prems" obtain k' where k: "k = Suc k'" "0 < k'"
      by (cases k; cases "k - 1") auto
    with "1.prems" have "n div 10 < 10 ^ k'"
      by (simp add: less_mult_imp_div_less mult.commute)
    with "1.IH" False k have "length (nat_to_string (n div 10)) \<le> k'" by blast
    with False k show ?thesis by (simp add: nat_to_string.simps [of n])
  qed
qed

end
