(* ===== verification/RandGen.thy ===== *)
theory RandGen
  imports Complex_Main Prelude
begin

text \<open>
  \<^verbatim>\<open>src/RandGen.h\<close> and \<^verbatim>\<open>src/RandGen.cpp\<close>: the static random generator and its two
  distributions. A \<^verbatim>\<open>double\<close> is the rational it denotes. What the C++ library leaves to the
  implementation is an argument: \<open>gamma_draw\<close> and \<open>uniform_draw\<close>, one draw of a distribution
  from the engine, and \<open>fl\<close>, the rounding of an exact product to a \<^verbatim>\<open>double\<close>.
\<close>

section \<open>State\<close>

record gamma_distribution =
  gd_alpha :: rat
  gd_beta :: rat

record uniform_real_distribution =
  ud_a :: rat
  ud_b :: rat

record 'g rand_gen =
  gen :: 'g
  erlang_dist :: gamma_distribution
  uniform_dist :: uniform_real_distribution

type_synonym 'g gamma_draw = "gamma_distribution \<Rightarrow> 'g \<Rightarrow> rat \<times> 'g"
type_synonym 'g uniform_draw = "uniform_real_distribution \<Rightarrow> 'g \<Rightarrow> rat \<times> 'g"

text \<open>The static objects before \<^verbatim>\<open>Init\<close>: default-constructed distributions.\<close>

definition rand_gen0 :: "'g \<Rightarrow> 'g rand_gen" where
  "rand_gen0 seed = \<lparr>gen = seed, erlang_dist = \<lparr>gd_alpha = 1, gd_beta = 1\<rparr>,
     uniform_dist = \<lparr>ud_a = 0, ud_b = 1\<rparr>\<rparr>"

section \<open>Operations\<close>

text \<open>\<^verbatim>\<open>static_cast<int>\<close> of a \<^verbatim>\<open>double\<close> truncates towards zero; it is undefined out of range.\<close>

definition trunc :: "rat \<Rightarrow> int" where
  "trunc x = (if 0 \<le> x then \<lfloor>x\<rfloor> else \<lceil>x\<rceil>)"

definition cast_int :: "rat \<Rightarrow> error + int" where
  "cast_int x = (if - (2 ^ 31) \<le> trunc x \<and> trunc x < 2 ^ 31
     then Inr (trunc x) else Inl (Undefined Bad_cast))"

definition RandGen_Init :: "rat \<Rightarrow> rat \<Rightarrow> rat \<Rightarrow> rat \<Rightarrow> 'g rand_gen \<Rightarrow> 'g rand_gen" where
  "RandGen_Init shape scale exp_time_min exp_time_max r =
     r\<lparr>erlang_dist := \<lparr>gd_alpha = shape, gd_beta = scale\<rparr>,
       uniform_dist := \<lparr>ud_a = exp_time_min, ud_b = exp_time_max\<rparr>\<rparr>"

definition setRandErlang :: "rat \<Rightarrow> rat \<Rightarrow> 'g rand_gen \<Rightarrow> 'g rand_gen" where
  "setRandErlang shape scale r = r\<lparr>erlang_dist := \<lparr>gd_alpha = shape, gd_beta = scale\<rparr>\<rparr>"

definition setRandUniform :: "rat \<Rightarrow> rat \<Rightarrow> 'g rand_gen \<Rightarrow> 'g rand_gen" where
  "setRandUniform exp_time_min exp_time_max r =
     r\<lparr>uniform_dist := \<lparr>ud_a = exp_time_min, ud_b = exp_time_max\<rparr>\<rparr>"

definition erlang_dist_shape :: "'g rand_gen \<Rightarrow> rat" where
  "erlang_dist_shape r = gd_alpha (erlang_dist r)"

definition erlang_dist_scale :: "'g rand_gen \<Rightarrow> rat" where
  "erlang_dist_scale r = gd_beta (erlang_dist r)"

definition uniform_dist_min :: "'g rand_gen \<Rightarrow> rat" where
  "uniform_dist_min r = ud_a (uniform_dist r)"

definition uniform_dist_max :: "'g rand_gen \<Rightarrow> rat" where
  "uniform_dist_max r = ud_b (uniform_dist r)"

text \<open>The result is a number of milliseconds.\<close>

definition getRandErlang ::
  "(rat \<Rightarrow> rat) \<Rightarrow> 'g gamma_draw \<Rightarrow> 'g rand_gen \<Rightarrow> (int, 'g rand_gen) result" where
  "getRandErlang fl gamma_draw r =
     (let (x, g) = gamma_draw (erlang_dist r) (gen r)
      in (cast_int (fl (1000 * x)), r\<lparr>gen := g\<rparr>))"

definition getRandUniform ::
  "(rat \<Rightarrow> rat) \<Rightarrow> 'g uniform_draw \<Rightarrow> 'g rand_gen \<Rightarrow> (int, 'g rand_gen) result" where
  "getRandUniform fl uniform_draw r =
     (let (x, g) = uniform_draw (uniform_dist r) (gen r)
      in (cast_int (fl (1000 * x)), r\<lparr>gen := g\<rparr>))"

section \<open>Lemmas\<close>

lemma trunc_of_int [simp]: "trunc (of_int i) = i"
  by (simp add: trunc_def)

lemma trunc_between:
  assumes "of_int lo \<le> x" "x \<le> of_int hi"
  shows "lo \<le> trunc x \<and> trunc x \<le> hi"
proof (cases "0 \<le> x")
  case True
  with assms show ?thesis by (auto simp: trunc_def le_floor_iff floor_le_iff)
next
  case False
  with assms show ?thesis
    by (auto simp: trunc_def le_ceiling_iff ceiling_le_iff)
qed

lemma cast_int_in_range:
  assumes "of_int lo \<le> x" "x \<le> of_int hi" "- (2 ^ 31) \<le> lo" "hi < 2 ^ 31"
  shows "\<exists>i. cast_int x = Inr i \<and> lo \<le> i \<and> i \<le> hi"
  using trunc_between [OF assms(1,2)] assms(3,4) by (auto simp: cast_int_def)

lemma RandGen_Init_is_both_setters:
  "RandGen_Init s c lo hi r = setRandUniform lo hi (setRandErlang s c r)"
  by (simp add: RandGen_Init_def setRandUniform_def setRandErlang_def)

text \<open>
  What is assumed of the rounding: it is monotone and exact on the integers a \<^verbatim>\<open>double\<close>
  represents.
\<close>

definition rounding :: "(rat \<Rightarrow> rat) \<Rightarrow> bool" where
  "rounding fl \<longleftrightarrow> mono fl \<and> (\<forall>i. \<bar>i\<bar> \<le> 2 ^ 53 \<longrightarrow> fl (of_int i) = of_int i)"

lemma rounding_between:
  assumes "rounding fl" "of_int lo \<le> x" "x \<le> of_int hi" "\<bar>lo\<bar> \<le> 2 ^ 53" "\<bar>hi\<bar> \<le> 2 ^ 53"
  shows "of_int lo \<le> fl x \<and> fl x \<le> of_int hi"
proof -
  from assms(1) have m: "mono fl" by (simp add: rounding_def)
  from monoD [OF m assms(2)] monoD [OF m assms(3)] assms(1,4,5) show ?thesis
    by (simp add: rounding_def)
qed

lemma rounding_id: "rounding (\<lambda>x. x)"
  by (simp add: rounding_def mono_def)

end
