(* ===== verification/Call.thy ===== *)
theory Call
  imports RandGen
begin

text \<open>
  \<^verbatim>\<open>src/Call.h\<close> and \<^verbatim>\<open>src/Call.cpp\<close>: the record of one telephone call, the counter its
  identifiers come from, and the printing of its time stamps. A time point is the number of
  nanoseconds since the epoch; the clock is read by the caller and passed in.
\<close>

section \<open>State\<close>

datatype RespStatus = OK | OVERLOAD | TIMEOUT | ALREADY_IN_QUEUE

type_synonym time_point = int

record Call =
  call_id :: "32 word"
  cg_pn :: string
  status :: RespStatus
  dt_request :: time_point
  dt_completion :: time_point
  operator_id :: int
  dt_response :: time_point
  call_duration :: int
  expiration_time :: int

section \<open>Operations\<close>

text \<open>\<^verbatim>\<open>next_call_id\<close>, an atomic 32-bit counter that starts at 100.\<close>

definition next_call_id0 :: "32 word" where
  "next_call_id0 = 100"

definition getNextCallId :: "32 word \<Rightarrow> 32 word \<times> 32 word" where
  "getNextCallId n = (n, n + 1)"

text \<open>
  The constructor: members are initialised in the order of their declaration, those without an
  initialiser to the enumerator, time point or integer with value zero.
\<close>

definition Call_ctor ::
  "(rat \<Rightarrow> rat) \<Rightarrow> 'g gamma_draw \<Rightarrow> 'g uniform_draw \<Rightarrow> string \<Rightarrow> time_point \<Rightarrow>
   'g rand_gen \<times> 32 word \<Rightarrow> (Call, 'g rand_gen \<times> 32 word) result" where
  "Call_ctor fl gamma_draw uniform_draw phone_number now st =
     (let (r, n) = st;
          (i, n') = getNextCallId n;
          (d, r') = getRandErlang fl gamma_draw r
      in case d of
           Inl e \<Rightarrow> raises e (r', n')
         | Inr d \<Rightarrow>
             (let (x, r'') = getRandUniform fl uniform_draw r'
              in case x of
                   Inl e \<Rightarrow> raises e (r'', n')
                 | Inr x \<Rightarrow> returns
                     \<lparr>call_id = i, cg_pn = phone_number, status = OK, dt_request = now,
                      dt_completion = 0, operator_id = 0, dt_response = 0,
                      call_duration = d, expiration_time = x\<rparr> (r'', n')))"

definition SetOperatorResponseData :: "int \<Rightarrow> time_point \<Rightarrow> Call \<Rightarrow> Call" where
  "SetOperatorResponseData op_id now c = c\<lparr>operator_id := op_id, dt_response := now\<rparr>"

definition SetCompleteData :: "RespStatus \<Rightarrow> time_point \<Rightarrow> Call \<Rightarrow> Call" where
  "SetCompleteData st now c = c\<lparr>status := st, dt_completion := now\<rparr>"

lemma SetOperatorResponseData_frame [simp, frame_simps]:
  "cg_pn (SetOperatorResponseData i now c) = cg_pn c"
  "call_id (SetOperatorResponseData i now c) = call_id c"
  "status (SetOperatorResponseData i now c) = status c"
  "call_duration (SetOperatorResponseData i now c) = call_duration c"
  "dt_request (SetOperatorResponseData i now c) = dt_request c"
  "dt_completion (SetOperatorResponseData i now c) = dt_completion c"
  "operator_id (SetOperatorResponseData i now c) = i"
  "dt_response (SetOperatorResponseData i now c) = now"
  by (simp_all add: SetOperatorResponseData_def)

lemma SetCompleteData_frame [simp, frame_simps]:
  "cg_pn (SetCompleteData st now c) = cg_pn c"
  "call_id (SetCompleteData st now c) = call_id c"
  "status (SetCompleteData st now c) = st"
  "operator_id (SetCompleteData st now c) = operator_id c"
  "call_duration (SetCompleteData st now c) = call_duration c"
  "dt_request (SetCompleteData st now c) = dt_request c"
  "dt_response (SetCompleteData st now c) = dt_response c"
  "dt_completion (SetCompleteData st now c) = now"
  by (simp_all add: SetCompleteData_def)

section \<open>Printing time points\<close>

text \<open>
  The broken-down local time of a \<^verbatim>\<open>time_t\<close> depends on the time zone, so
  \<^verbatim>\<open>std::localtime\<close> is an argument \<open>localtime\<close>. Casts of time points truncate towards zero.
\<close>

record tm =
  tm_sec :: nat
  tm_min :: nat
  tm_hour :: nat
  tm_mday :: nat
  tm_mon :: nat
  tm_year :: nat

definition tdiv :: "int \<Rightarrow> int \<Rightarrow> int" where
  "tdiv x y = (if 0 \<le> x then x div y else - ((- x) div y))"

definition to_time_t :: "time_point \<Rightarrow> int" where
  "to_time_t tp = tdiv tp 1000000000"

definition two_digits :: "nat \<Rightarrow> string" where
  "two_digits n = (if n < 10 then CHR ''0'' # nat_to_string n else nat_to_string n)"

text \<open>\<^verbatim>\<open>strftime\<close> with the formats the source passes; the year is printed in full.\<close>

definition strftime_T :: "tm \<Rightarrow> string" where
  "strftime_T t = two_digits (tm_hour t) @ '':'' @ two_digits (tm_min t) @ '':'' @ two_digits (tm_sec t)"

definition strftime_F :: "tm \<Rightarrow> string" where
  "strftime_F t = nat_to_string (tm_year t + 1900) @ ''-'' @ two_digits (tm_mon t + 1) @ ''-'' @
     two_digits (tm_mday t)"

text \<open>
  \<^verbatim>\<open>ms_valid.replace(ms_valid.size() - ms_s.size(), ms_s.size(), ms_s)\<close>: a longer \<open>ms_s\<close> makes
  the position wrap around, past the end of the string.
\<close>

definition pad_ms :: "string \<Rightarrow> error + string" where
  "pad_ms ms_s = (if length ms_s \<le> 3 then Inr (take (3 - length ms_s) ''000'' @ ms_s)
     else Inl (Out_of_range ''basic_string::replace''))"

definition tpToStrHMS :: "(int \<Rightarrow> tm) \<Rightarrow> time_point \<Rightarrow> error + string" where
  "tpToStrHMS localtime tp =
     (let s = strftime_T (localtime (to_time_t tp));
          ms = tdiv tp 1000000 - 1000 * tdiv tp 1000000000
      in ebind (pad_ms (to_string ms)) (\<lambda>p. Inr (s @ ''.'' @ p)))"

definition tpToStrYMD :: "(int \<Rightarrow> tm) \<Rightarrow> time_point \<Rightarrow> string" where
  "tpToStrYMD localtime tp = strftime_F (localtime (to_time_t tp))"

subsection \<open>Time points from the epoch on\<close>

lemma string_to_nat_zeros: "string_to_nat 0 (replicate k CHR ''0'' @ s) = string_to_nat 0 s"
  by (induction k) (auto simp: digit_val_def)

lemma take_zeros: "k \<le> 3 \<Longrightarrow> take k ''000'' = replicate k CHR ''0''"
proof -
  assume "k \<le> 3"
  moreover have "''000'' = replicate 3 CHR ''0''" by (simp add: numeral_eq_Suc)
  ultimately show ?thesis by (simp add: min_def)
qed

lemma milliseconds_part:
  "0 \<le> tp \<Longrightarrow> tdiv tp 1000000 - 1000 * tdiv tp 1000000000 = (tp div 1000000) mod 1000"
proof -
  assume "0 \<le> tp"
  moreover have "tp div 1000000000 = tp div 1000000 div 1000"
    by (simp add: div_mult2_eq [symmetric] zdiv_zmult2_eq [symmetric])
  ultimately show ?thesis
    by (simp add: tdiv_def minus_mult_div_eq_mod)
qed

lemma pad_ms_small:
  assumes "0 \<le> ms" "ms < 1000"
  shows "\<exists>p. pad_ms (to_string ms) = Inr p \<and> length p = 3 \<and> (\<forall>c \<in> set p. is_digit c) \<and>
     string_to_nat 0 p = nat ms"
proof -
  let ?s = "nat_to_string (nat ms)"
  have l: "length ?s \<le> 3"
    using assms length_nat_to_string_le [of "nat ms" 3] by simp
  have z: "take (3 - length ?s) ''000'' = replicate (3 - length ?s) CHR ''0''"
    by (rule take_zeros) simp
  have d: "is_digit CHR ''0''" by (simp add: is_digit_def)
  show ?thesis
    using assms(1) l d nat_to_string_digits [of _ "nat ms"]
    by (auto simp: to_string_def pad_ms_def z string_to_nat_zeros string_to_nat_nat_to_string)
qed

lemma tpToStrHMS_nonneg:
  assumes "0 \<le> tp"
  shows "\<exists>p. tpToStrHMS localtime tp = Inr (strftime_T (localtime (to_time_t tp)) @ ''.'' @ p) \<and>
     length p = 3 \<and> (\<forall>c \<in> set p. is_digit c) \<and> string_to_nat 0 p = nat (tp div 1000000 mod 1000)"
proof -
  have "0 \<le> tp div 1000000 mod 1000" "tp div 1000000 mod 1000 < 1000" by simp_all
  from pad_ms_small [OF this] show ?thesis
    using milliseconds_part [OF assms] by (auto simp: tpToStrHMS_def Let_def)
qed

lemma two_digits_digits: "c \<in> set (two_digits n) \<Longrightarrow> is_digit c"
  by (auto simp: two_digits_def dest: nat_to_string_digits split: if_splits) (simp add: is_digit_def)

lemma length_two_digits: "n < 100 \<Longrightarrow> length (two_digits n) = 2"
  by (auto simp: two_digits_def nat_to_string.simps [of n] nat_to_string.simps [of "n div 10"])

end
