(* ===== verification/Log.thy ===== *)
theory Log
  imports Call
begin

text \<open>
  \<^verbatim>\<open>src/Log.h\<close> and \<^verbatim>\<open>src/Log.cpp\<close>: the loggers and the call detail records, and the state all
  components write to: the objects behind \<^verbatim>\<open>std::shared_ptr<Call>\<close> (never freed while they are
  referenced; a pointer is an index, \<open>None\<close> is null), the counter of identifiers, the lines of
  \<^verbatim>\<open>cdr.txt\<close> and the messages that passed the level of their logger.
\<close>

section \<open>Levels and loggers\<close>

datatype level = trace | debug | info | warn | err | critical | off

fun level_rank :: "level \<Rightarrow> nat" where
  "level_rank trace = 0"
| "level_rank debug = 1"
| "level_rank info = 2"
| "level_rank warn = 3"
| "level_rank err = 4"
| "level_rank critical = 5"
| "level_rank off = 6"

lemma level_rank_inject [simp]: "level_rank l = level_rank m \<longleftrightarrow> l = m"
  by (cases l; cases m) simp_all

instantiation level :: linorder
begin

definition less_eq_level :: "level \<Rightarrow> level \<Rightarrow> bool" where
  "less_eq_level l m \<longleftrightarrow> level_rank l \<le> level_rank m"

definition less_level :: "level \<Rightarrow> level \<Rightarrow> bool" where
  "less_level l m \<longleftrightarrow> level_rank l < level_rank m"

instance
  by standard (auto simp: less_eq_level_def less_level_def)

end

text \<open>
  \<^verbatim>\<open>loggingLevels[name]\<close>: the index operator of \<^verbatim>\<open>std::map\<close> inserts the enumerator with value
  zero for a name that is not in the table, so an unknown name means \<^verbatim>\<open>trace\<close>.
\<close>

definition loggingLevels :: "(string \<times> level) list" where
  "loggingLevels = [(''debug'', debug), (''info'', info), (''warn'', warn), (''error'', err),
     (''critical'', critical), (''off'', off)]"

definition level_of_name :: "string \<Rightarrow> level" where
  "level_of_name n = (case map_of loggingLevels n of Some l \<Rightarrow> l | None \<Rightarrow> trace)"

record logger =
  logger_name :: string
  logger_level :: level
  flush_level :: level

definition should_log :: "level \<Rightarrow> logger \<Rightarrow> bool" where
  "should_log l lg \<longleftrightarrow> logger_level lg \<le> l"

section \<open>The shared state\<close>

type_synonym shared_ptr = "nat option"

record world =
  objects :: "Call list"
  next_call_id :: "32 word"
  registry :: "string list"
  cdrLog :: logger
  serverLog :: logger
  operatorsLog :: logger
  cdr_lines :: "string list"
  cdr_written :: "nat list"
  console :: "(string \<times> level \<times> string) list"

text \<open>
  \<open>cdr_written\<close> has, for every call detail record, the object it was written for.
\<close>

definition deref :: "world \<Rightarrow> shared_ptr \<Rightarrow> error + Call" where
  "deref w p = (case p of None \<Rightarrow> Inl (Undefined Null_deref)
     | Some i \<Rightarrow> if i < length (objects w) then Inr (objects w ! i) else Inl (Undefined Bad_pointer))"

definition store :: "nat \<Rightarrow> Call \<Rightarrow> world \<Rightarrow> world" where
  "store i c w = w\<lparr>objects := (objects w)[i := c]\<rparr>"

definition make_shared :: "Call \<Rightarrow> world \<Rightarrow> shared_ptr \<times> world" where
  "make_shared c w = (Some (length (objects w)), w\<lparr>objects := objects w @ [c]\<rparr>)"

section \<open>Operations\<close>

text \<open>The logging macros: the message reaches the console if the logger's level lets it.\<close>

definition log_server :: "level \<Rightarrow> string \<Rightarrow> world \<Rightarrow> world" where
  "log_server l m w = (if should_log l (serverLog w)
     then w\<lparr>console := console w @ [(logger_name (serverLog w), l, m)]\<rparr> else w)"

definition log_operators :: "level \<Rightarrow> string \<Rightarrow> world \<Rightarrow> world" where
  "log_operators l m w = (if should_log l (operatorsLog w)
     then w\<lparr>console := console w @ [(logger_name (operatorsLog w), l, m)]\<rparr> else w)"

text \<open>A name is registered once; a second registration throws.\<close>

definition register_logger :: "string \<Rightarrow> world \<Rightarrow> (unit, world) result" where
  "register_logger n w = (if n \<in> set (registry w)
     then raises (Spdlog_ex (''logger with name '' @ [CHR 0x27] @ n @ [CHR 0x27] @ '' already exists'')) w
     else returns () (w\<lparr>registry := registry w @ [n]\<rparr>))"

text \<open>\<open>file_error\<close> is the message of the exception of the file sink when it cannot open its file.\<close>

definition Log_Init ::
  "string option \<Rightarrow> string \<Rightarrow> string \<Rightarrow> world \<Rightarrow> (unit, world) result" where
  "Log_Init file_error levelServer levelOperator w =
     (case file_error of Some m \<Rightarrow> raises (Spdlog_ex m) w | None \<Rightarrow>
      case register_logger ''CDR'' w of (Inl e, w) \<Rightarrow> raises e w | (Inr _, w) \<Rightarrow>
      let w = w\<lparr>cdrLog := \<lparr>logger_name = ''CDR'', logger_level = info, flush_level = info\<rparr>\<rparr>;
          w = (if should_log info (cdrLog w) then w\<lparr>cdr_lines := cdr_lines w @ ['' '']\<rparr> else w);
          w = w\<lparr>serverLog := \<lparr>logger_name = ''SERVER'', logger_level = level_of_name levelServer,
                 flush_level = trace\<rparr>\<rparr>
      in case register_logger ''SERVER'' w of (Inl e, w) \<Rightarrow> raises e w | (Inr _, w) \<Rightarrow>
      let w = w\<lparr>operatorsLog := \<lparr>logger_name = ''OPERATORS'',
                 logger_level = level_of_name levelOperator, flush_level = trace\<rparr>\<rparr>
      in register_logger ''OPERATORS'' w)"

text \<open>\<^verbatim>\<open>std::setw\<close> pads on the left with spaces and never truncates.\<close>

definition setw :: "nat \<Rightarrow> string \<Rightarrow> string" where
  "setw n s = replicate (n - length s) CHR '' '' @ s"

definition status_name :: "RespStatus \<Rightarrow> string" where
  "status_name st = (case st of OK \<Rightarrow> ''OK'' | OVERLOAD \<Rightarrow> ''OVERLOAD'' | TIMEOUT \<Rightarrow> ''TIMEOUT''
     | ALREADY_IN_QUEUE \<Rightarrow> ''ALREADY_IN_QUEUE'')"

text \<open>The three fields only a call an operator has answered fills in.\<close>

definition cdr_answer :: "(int \<Rightarrow> tm) \<Rightarrow> Call \<Rightarrow> error + string \<times> string \<times> string" where
  "cdr_answer localtime c = (if status c = OK
     then ebind (tpToStrHMS localtime (dt_response c)) (\<lambda>t.
       Inr (t, to_string (operator_id c), to_string (tdiv (call_duration c) 1000)))
     else Inr (''-'', ''-'', ''-''))"

definition cdr_fields :: "(int \<Rightarrow> tm) \<Rightarrow> Call \<Rightarrow> error + string list" where
  "cdr_fields localtime c =
     ebind (tpToStrHMS localtime (dt_request c)) (\<lambda>req.
     ebind (tpToStrHMS localtime (dt_completion c)) (\<lambda>compl.
     ebind (cdr_answer localtime c) (\<lambda>(dt_operator_resp, OpID, call_duration).
     Inr [setw 24 (tpToStrYMD localtime (dt_request c) @ '' '' @ req),
          setw 6 (to_string (uint (call_id c))),
          setw 15 (cg_pn c),
          setw 24 (tpToStrYMD localtime (dt_completion c) @ '' '' @ compl),
          setw 17 (status_name (status c)),
          setw 13 dt_operator_resp,
          setw 4 OpID,
          setw 5 call_duration])))"

fun join_semicolons :: "string list \<Rightarrow> string" where
  "join_semicolons [] = ''''"
| "join_semicolons [f] = f"
| "join_semicolons (f # fs) = f @ '';'' @ join_semicolons fs"

definition cdr_line :: "(int \<Rightarrow> tm) \<Rightarrow> Call \<Rightarrow> error + string" where
  "cdr_line localtime c = ebind (cdr_fields localtime c) (\<lambda>fs. Inr (join_semicolons fs))"

definition WriteCDR :: "(int \<Rightarrow> tm) \<Rightarrow> shared_ptr \<Rightarrow> world \<Rightarrow> (unit, world) result" where
  "WriteCDR localtime p w =
     (case ebind (deref w p) (cdr_line localtime) of
        Inl e \<Rightarrow> raises e w
      | Inr line \<Rightarrow> returns () (if should_log info (cdrLog w)
          then w\<lparr>cdr_lines := cdr_lines w @ [line], cdr_written := cdr_written w @ [the p]\<rparr>
          else w))"

section \<open>Frames\<close>

lemma log_frame [simp, frame_simps]:
  "objects (log_server l m w) = objects w"
  "cdr_lines (log_server l m w) = cdr_lines w"
  "cdr_written (log_server l m w) = cdr_written w"
  "cdrLog (log_server l m w) = cdrLog w"
  "next_call_id (log_server l m w) = next_call_id w"
  "objects (log_operators l m w) = objects w"
  "cdr_lines (log_operators l m w) = cdr_lines w"
  "cdr_written (log_operators l m w) = cdr_written w"
  "cdrLog (log_operators l m w) = cdrLog w"
  "next_call_id (log_operators l m w) = next_call_id w"
  by (simp_all add: log_server_def log_operators_def)

lemma store_frame [simp, frame_simps]:
  "objects (store i c w) = (objects w)[i := c]"
  "cdr_lines (store i c w) = cdr_lines w"
  "cdr_written (store i c w) = cdr_written w"
  "cdrLog (store i c w) = cdrLog w"
  "next_call_id (store i c w) = next_call_id w"
  by (simp_all add: store_def)

lemma WriteCDR_frame [simp, frame_simps]:
  "objects (snd (WriteCDR tz p w)) = objects w"
  "cdrLog (snd (WriteCDR tz p w)) = cdrLog w"
  "next_call_id (snd (WriteCDR tz p w)) = next_call_id w"
  by (auto simp: WriteCDR_def split: sum.splits)

lemma deref_Inr_iff: "deref w p = Inr c \<longleftrightarrow> (\<exists>i < length (objects w). p = Some i \<and> c = objects w ! i)"
  by (auto simp: deref_def split: option.splits)

lemma deref_Some [simp]: "i < length (objects w) \<Longrightarrow> deref w (Some i) = Inr (objects w ! i)"
  by (simp add: deref_def)

section \<open>Writing a call detail record\<close>

text \<open>A record can be written for every call whose time stamps are not before the epoch.\<close>

definition times_ok :: "Call \<Rightarrow> bool" where
  "times_ok c \<longleftrightarrow> 0 \<le> dt_request c \<and> 0 \<le> dt_response c \<and> 0 \<le> dt_completion c"

lemma cdr_line_ok:
  assumes "times_ok c"
  shows "\<exists>line. cdr_line tz c = Inr line"
proof -
  have "\<exists>s. tpToStrHMS tz tp = Inr s" if "0 \<le> tp" for tp
    using tpToStrHMS_nonneg [OF that, of tz] by blast
  with assms obtain req compl resp where "tpToStrHMS tz (dt_request c) = Inr req"
    "tpToStrHMS tz (dt_completion c) = Inr compl" "tpToStrHMS tz (dt_response c) = Inr resp"
    unfolding times_ok_def by blast
  then show ?thesis by (simp add: cdr_line_def cdr_fields_def cdr_answer_def)
qed

lemma WriteCDR_ok:
  assumes "i < length (objects w)" "times_ok (objects w ! i)" "logger_level (cdrLog w) = info"
  shows "\<exists>line. cdr_line tz (objects w ! i) = Inr line \<and> WriteCDR tz (Some i) w =
     returns () (w\<lparr>cdr_lines := cdr_lines w @ [line], cdr_written := cdr_written w @ [i]\<rparr>)"
  using cdr_line_ok [OF assms(2), of tz] assms
  by (auto simp: WriteCDR_def should_log_def)

section \<open>The fields of a record\<close>

fun split_semicolons :: "string \<Rightarrow> string list" where
  "split_semicolons [] = [[]]"
| "split_semicolons (c # cs) = (if c = CHR '';'' then [] # split_semicolons cs
     else (case split_semicolons cs of [] \<Rightarrow> [[c]] | f # fs \<Rightarrow> (c # f) # fs))"

lemma split_semicolons_ne [simp]: "split_semicolons s \<noteq> []"
  by (induction s) (auto split: list.splits)

lemma split_semicolons_field:
  "CHR '';'' \<notin> set f \<Longrightarrow> split_semicolons f = [f]"
  by (induction f) auto

lemma split_semicolons_append:
  "CHR '';'' \<notin> set f \<Longrightarrow> split_semicolons (f @ CHR '';'' # s) = f # split_semicolons s"
  by (induction f) auto

lemma split_join:
  "fs \<noteq> [] \<Longrightarrow> \<forall>f \<in> set fs. CHR '';'' \<notin> set f \<Longrightarrow> split_semicolons (join_semicolons fs) = fs"
  by (induction fs rule: join_semicolons.induct) (auto simp: split_semicolons_field split_semicolons_append)

definition no_semicolon :: "string \<Rightarrow> bool" where
  "no_semicolon s \<longleftrightarrow> CHR '';'' \<notin> set s"

lemma no_semicolon_simps [simp]:
  "no_semicolon []"
  "no_semicolon (c # s) \<longleftrightarrow> c \<noteq> CHR '';'' \<and> no_semicolon s"
  "no_semicolon (s @ t) \<longleftrightarrow> no_semicolon s \<and> no_semicolon t"
  "no_semicolon (replicate n CHR '' '')"
  by (auto simp: no_semicolon_def)

lemma digits_no_semicolon: "\<forall>c \<in> set s. is_digit c \<Longrightarrow> no_semicolon s"
  by (auto simp: no_semicolon_def is_digit_def)

lemma printed_no_semicolon [simp]:
  "no_semicolon (nat_to_string n)"
  "no_semicolon (to_string i)"
  "no_semicolon (two_digits n)"
  "no_semicolon (strftime_T t)"
  "no_semicolon (strftime_F t)"
  "no_semicolon (tpToStrYMD tz tp)"
  "no_semicolon (status_name st)"
proof -
  show n: "no_semicolon (nat_to_string n)" for n
    by (rule digits_no_semicolon) (auto dest: nat_to_string_digits)
  show "no_semicolon (to_string i)" by (simp add: to_string_def n)
  show d: "no_semicolon (two_digits n)" for n
    by (rule digits_no_semicolon) (auto dest: two_digits_digits)
  show "no_semicolon (strftime_T t)" by (simp add: strftime_T_def d)
  show f: "no_semicolon (strftime_F t)" for t by (simp add: strftime_F_def d n)
  show "no_semicolon (tpToStrYMD tz tp)" by (simp add: tpToStrYMD_def f)
  show "no_semicolon (status_name st)" by (cases st) (simp_all add: status_name_def)
qed

lemma setw_no_semicolon [simp]: "no_semicolon (setw n s) \<longleftrightarrow> no_semicolon s"
  by (simp add: setw_def)

lemma tpToStrHMS_no_semicolon:
  "tpToStrHMS tz tp = Inr s \<Longrightarrow> no_semicolon s"
proof -
  have t: "no_semicolon (take n ''000'')" for n
    by (auto simp: no_semicolon_def dest: in_set_takeD)
  show "tpToStrHMS tz tp = Inr s \<Longrightarrow> no_semicolon s"
    by (auto simp: tpToStrHMS_def Let_def ebind_Inr_iff pad_ms_def t split: if_splits)
qed

lemma cdr_fields_no_semicolon:
  assumes "cdr_fields tz c = Inr fs" "no_semicolon (cg_pn c)"
  shows "length fs = 8 \<and> (\<forall>f \<in> set fs. no_semicolon f)"
  using assms
  by (auto simp: cdr_fields_def cdr_answer_def ebind_Inr_iff tpToStrHMS_no_semicolon split: if_splits)

lemma cdr_line_split:
  assumes "cdr_fields tz c = Inr fs" "no_semicolon (cg_pn c)"
  shows "cdr_line tz c = Inr (join_semicolons fs) \<and> split_semicolons (join_semicolons fs) = fs"
  using cdr_fields_no_semicolon [OF assms] assms(1)
  by (auto simp: cdr_line_def no_semicolon_def intro!: split_join)

end
