(* ===== verification/Timers.thy ===== *)
theory Timers
  imports Prelude
begin

text \<open>
  What the program asks of its \<^verbatim>\<open>boost::asio::system_timer\<close> objects. Asio is not part of the
  repository, so a timer here is the record of the requests the code made on it: the last expiry
  it set and the wait operations it started whose handler has not run yet, each with a mark that
  says whether \<^verbatim>\<open>cancel()\<close> or \<^verbatim>\<open>expires_after()\<close> was called on the timer since. When a handler
  runs, and with which error code, is chosen by the environment (theory CallCentre).
\<close>

datatype error_code =
    Success
  | Operation_aborted (ec_message: string)
  | Other_error (ec_message: string)

definition is_aborted :: "error_code \<Rightarrow> bool" where
  "is_aborted ec = (case ec of Operation_aborted m \<Rightarrow> True | _ \<Rightarrow> False)"

lemma is_aborted_simps [simp]:
  "\<not> is_aborted Success" "is_aborted (Operation_aborted m)" "\<not> is_aborted (Other_error m)"
  by (simp_all add: is_aborted_def)

record 'h system_timer =
  expiry :: "int option"
  pending :: "('h \<times> bool) list"

definition system_timer_ctor :: "'h system_timer" where
  "system_timer_ctor = \<lparr>expiry = None, pending = []\<rparr>"

definition mark_cancelled :: "('h \<times> bool) list \<Rightarrow> ('h \<times> bool) list" where
  "mark_cancelled ws = map (\<lambda>(h, c). (h, True)) ws"

definition cancel :: "'h system_timer \<Rightarrow> 'h system_timer" where
  "cancel t = t\<lparr>pending := mark_cancelled (pending t)\<rparr>"

definition expires_after :: "int \<Rightarrow> 'h system_timer \<Rightarrow> 'h system_timer" where
  "expires_after d t = t\<lparr>expiry := Some d, pending := mark_cancelled (pending t)\<rparr>"

definition async_wait :: "'h \<Rightarrow> 'h system_timer \<Rightarrow> 'h system_timer" where
  "async_wait h t = t\<lparr>pending := pending t @ [(h, False)]\<rparr>"

text \<open>The environment takes the operation at position \<open>i\<close> off the list to run its handler.\<close>

definition take_pending :: "nat \<Rightarrow> 'h system_timer \<Rightarrow> (('h \<times> bool) \<times> 'h system_timer) option" where
  "take_pending i t = (if i < length (pending t)
     then Some (pending t ! i, t\<lparr>pending := take i (pending t) @ drop (Suc i) (pending t)\<rparr>)
     else None)"

text \<open>
  The documented meaning of the error codes: the handler of an operation that was not cancelled
  runs after the timer has expired, without error; the handler of a cancelled one gets
  \<^verbatim>\<open>operation_aborted\<close>, or no error when the timer had expired before the cancellation, because
  the handler was then already queued. \<open>expired\<close> says whether the timer had expired, when the
  operation was cancelled or else when the handler runs.
\<close>

definition delivers :: "bool \<Rightarrow> bool \<Rightarrow> error_code \<Rightarrow> bool" where
  "delivers cancelled expired ec \<longleftrightarrow> (expired \<and> ec = Success) \<or> (cancelled \<and> is_aborted ec)"

lemma delivers_simps [simp]:
  "delivers False expired ec \<longleftrightarrow> expired \<and> ec = Success"
  "delivers c expired Success \<longleftrightarrow> expired"
  by (auto simp: delivers_def)

section \<open>Operations in force\<close>

definition live :: "'h system_timer \<Rightarrow> 'h list" where
  "live t = map fst (filter (\<lambda>(h, c). \<not> c) (pending t))"

lemma filter_mark_cancelled [simp]: "filter (\<lambda>(h, c). \<not> c) (mark_cancelled ws) = []"
  by (induction ws) (auto simp: mark_cancelled_def)

lemma live_simps [simp, run_simps]:
  "live system_timer_ctor = []"
  "live (cancel t) = []"
  "live (expires_after d t) = []"
  "live (async_wait h t) = live t @ [h]"
  by (simp_all add: live_def system_timer_ctor_def cancel_def expires_after_def async_wait_def)

lemma take_pending_split:
  assumes "take_pending i t = Some (w, t')"
  shows "\<exists>xs ys. pending t = xs @ w # ys \<and> pending t' = xs @ ys"
proof -
  from assms have "pending t = take i (pending t) @ w # drop (Suc i) (pending t)"
    by (auto simp: take_pending_def id_take_nth_drop [symmetric] split: if_splits)
  moreover from assms have "pending t' = take i (pending t) @ drop (Suc i) (pending t)"
    by (auto simp: take_pending_def split: if_splits)
  ultimately show ?thesis by blast
qed

lemma take_pending_cancelled:
  "take_pending i t = Some ((h, True), t') \<Longrightarrow> live t' = live t"
  by (auto dest!: take_pending_split simp: live_def)

lemma take_pending_in_force:
  "take_pending i t = Some ((h, False), t') \<Longrightarrow> \<exists>xs ys. live t = xs @ h # ys \<and> live t' = xs @ ys"
  by (force dest!: take_pending_split simp: live_def)

lemma take_pending_single:
  "take_pending i t = Some ((h, False), t') \<Longrightarrow> live t = [x] \<Longrightarrow> h = x \<and> live t' = []"
  by (drule take_pending_in_force) (auto simp: Cons_eq_append_conv)

lemma take_pending_none:
  "take_pending i t = Some ((h, False), t') \<Longrightarrow> live t \<noteq> []"
  by (drule take_pending_in_force) auto

end
