(* ===== verification/Waiting.thy ===== *)
theory Waiting
  imports Prelude
begin

text \<open>
  The two contracts the operators' thread relies on. A \<open>fifo\<close> container gives elements back in
  the order they were put in. A \<open>waitable\<close> container lets one thread wait until it is not
  empty: both \<^verbatim>\<open>TSQueue::wait\<close> and \<^verbatim>\<open>IncomingCallsQueue::wait\<close> are the loop
  \<^verbatim>\<open>while (empty()) { unique_lock ul(mux); cv.wait(ul); }\<close>, whose atomic actions are the steps
  of \<open>wait_step\<close>.
\<close>

section \<open>Waiting for a container to become non-empty\<close>

text \<open>
  Where the waiting thread is: before its next call of \<^verbatim>\<open>empty()\<close>; after that call returned
  true and before \<^verbatim>\<open>cv.wait\<close> blocks it; blocked; or past the loop. The test holds the queue's
  mutex, blocking holds the other mutex, and nothing is held in between.
\<close>

datatype wait_pc = Testing | Blocking | Asleep | Returned

text \<open>A condition variable is the number of threads blocked on it.\<close>

definition notify_one :: "nat \<Rightarrow> nat" where
  "notify_one blocked = blocked - 1"

definition wait_step ::
  "('q \<Rightarrow> bool) \<Rightarrow> ('q \<Rightarrow> nat) \<Rightarrow> ('q \<Rightarrow> 'q) \<Rightarrow> wait_pc \<Rightarrow> 'q \<Rightarrow> wait_pc \<times> 'q" where
  "wait_step is_empty blocked block pc q = (case pc of
       Testing \<Rightarrow> (if is_empty q then Blocking else Returned, q)
     | Blocking \<Rightarrow> (Asleep, block q)
     | Asleep \<Rightarrow> (if blocked q = 0 then Testing else Asleep, q)
     | Returned \<Rightarrow> (Returned, q))"

lemma wait_step_simps [simp]:
  "wait_step e n b Testing q = (if e q then Blocking else Returned, q)"
  "wait_step e n b Blocking q = (Asleep, b q)"
  "wait_step e n b Asleep q = (if n q = 0 then Testing else Asleep, q)"
  "wait_step e n b Returned q = (Returned, q)"
  by (simp_all add: wait_step_def)

locale waitable =
  fixes is_empty :: "'q \<Rightarrow> bool"
    and blocked :: "'q \<Rightarrow> nat"
    and block :: "'q \<Rightarrow> 'q"
    and adds :: "'q \<Rightarrow> 'q \<Rightarrow> bool"
  assumes adds_nonempty: "adds q q' \<Longrightarrow> \<not> is_empty q'"
    and adds_notifies: "adds q q' \<Longrightarrow> blocked q' = blocked q - 1"
    and block_is_empty: "is_empty (block q) = is_empty q"
    and block_blocked: "blocked (block q) = Suc (blocked q)"
begin

lemma returns_only_nonempty:
  "wait_step is_empty blocked block pc q = (Returned, q') \<Longrightarrow> pc \<noteq> Returned \<Longrightarrow>
     \<not> is_empty q' \<and> q' = q"
  by (cases pc) (auto split: if_splits)

lemma asleep_is_woken:
  assumes "blocked q = 1" "adds q q'"
  shows "wait_step is_empty blocked block Asleep q' = (Testing, q')"
    and "wait_step is_empty blocked block Testing q' = (Returned, q')"
  using adds_nonempty [OF assms(2)] adds_notifies [OF assms(2)] assms(1) by simp_all

lemma lost_wakeup:
  assumes "is_empty q" "blocked q = 0" "adds q q'"
  shows "\<exists>q''. wait_step is_empty blocked block Testing q = (Blocking, q) \<and>
     wait_step is_empty blocked block Blocking q' = (Asleep, q'') \<and> \<not> is_empty q'' \<and>
     (\<forall>n. (case_prod (wait_step is_empty blocked block) ^^ n) (Asleep, q'') = (Asleep, q''))"
proof -
  let ?s = "wait_step is_empty blocked block"
  have b: "blocked (block q') = 1"
    using adds_notifies [OF assms(3)] assms(2) by (simp add: block_blocked)
  have "(case_prod ?s ^^ n) (Asleep, block q') = (Asleep, block q')" for n
    by (induction n) (simp_all add: b)
  then show ?thesis
    using assms(1) adds_nonempty [OF assms(3)] by (simp add: block_is_empty)
qed

end

section \<open>First in, first out\<close>

text \<open>
  \<open>put\<close> may turn an element away, as a bounded queue does; \<open>accepts\<close> says when it does not.
\<close>

locale fifo =
  fixes put :: "'a \<Rightarrow> 'q \<Rightarrow> 'q"
    and get :: "'q \<Rightarrow> ('a, 'q) result"
    and content :: "'q \<Rightarrow> 'a list"
    and ok :: "'q \<Rightarrow> bool"
    and accepts :: "'a \<Rightarrow> 'q \<Rightarrow> bool"
  assumes put_ok: "ok q \<Longrightarrow> ok (put x q)"
    and put_content: "ok q \<Longrightarrow> content (put x q) = (if accepts x q then content q @ [x] else content q)"
    and get_Nil: "ok q \<Longrightarrow> content q = [] \<Longrightarrow> \<exists>e. get q = (Inl e, q)"
    and get_Cons: "ok q \<Longrightarrow> content q = x # xs \<Longrightarrow>
      \<exists>q'. get q = (Inr x, q') \<and> content q' = xs \<and> ok q'"
begin

lemma fold_put_ok: "ok q \<Longrightarrow> ok (fold put xs q)"
  by (induction xs arbitrary: q) (auto simp: put_ok)

end

text \<open>Those of a list of elements that are accepted one after the other.\<close>

fun accepted :: "('a \<Rightarrow> 'q \<Rightarrow> 'q) \<Rightarrow> ('a \<Rightarrow> 'q \<Rightarrow> bool) \<Rightarrow> 'a list \<Rightarrow> 'q \<Rightarrow> 'a list" where
  "accepted put accepts [] q = []"
| "accepted put accepts (x # xs) q =
     (if accepts x q then x # accepted put accepts xs (put x q)
      else accepted put accepts xs (put x q))"

text \<open>Taking elements out until the first failure, at most \<open>n\<close> of them.\<close>

fun gets :: "('q \<Rightarrow> ('a, 'q) result) \<Rightarrow> nat \<Rightarrow> 'q \<Rightarrow> 'a list" where
  "gets get 0 q = []"
| "gets get (Suc n) q = (case get q of (Inl e, q') \<Rightarrow> [] | (Inr x, q') \<Rightarrow> x # gets get n q')"

context fifo
begin

lemma fold_put_content: "ok q \<Longrightarrow> content (fold put xs q) = content q @ accepted put accepts xs q"
  by (induction xs arbitrary: q) (auto simp: put_content put_ok)

lemma gets_content: "ok q \<Longrightarrow> gets get n q = take n (content q)"
proof (induction n arbitrary: q)
  case 0
  then show ?case by simp
next
  case (Suc n)
  show ?case
  proof (cases "content q")
    case Nil
    with Suc.prems get_Nil [of q] show ?thesis by auto
  next
    case (Cons x xs)
    with Suc.prems get_Cons [of q x xs] obtain q' where
      "get q = (Inr x, q')" "content q' = xs" "ok q'" by auto
    with Suc.IH [of q'] Cons show ?thesis by simp
  qed
qed

lemma first_in_first_out:
  assumes "ok q" "content q = []" "length (accepted put accepts xs q) \<le> n"
  shows "gets get n (fold put xs q) = accepted put accepts xs q"
  using fold_put_content [OF assms(1)] gets_content [OF fold_put_ok [OF assms(1)]] assms(2,3)
  by simp

end

end
