(* ===== verification/IncomingCallsQueue.thy ===== *)
theory IncomingCallsQueue
  imports Log Timers Waiting
begin

text \<open>
  \<^verbatim>\<open>src/IncomingCallsQueue.h\<close> and \<^verbatim>\<open>src/IncomingCallsQueue.cpp\<close>: the bounded queue of waiting
  calls, in which every call has a timer that takes it out again when nobody answers. Every
  method holds \<^verbatim>\<open>mux_queue\<close> from its first statement to its last and is one function here.

  A \<^verbatim>\<open>std::list\<close> is a list of nodes, each with its identity and the shared pointer in it; an
  iterator is the identity of a node, and using one whose node has been erased is an error.
  Identities are never used twice. The handler of a wait is the data its closure captured: the
  number of the caller and the iterator.
\<close>

section \<open>State\<close>

type_synonym iter = nat

record queue =
  incoming_calls :: "(iter \<times> shared_ptr) list"
  next_node :: iter
  timers :: "(string \<times> iter) system_timer list"
  free_timers :: "nat list"
  map_cg_pn_to_pos :: "string \<rightharpoonup> nat"
  capacity :: nat
  cv_blocking :: nat

section \<open>Operations\<close>

text \<open>The constructor's loop: \<^verbatim>\<open>for (int i = 0; i != capacity; ++i)\<close>.\<close>

function ctor_loop :: "nat \<Rightarrow> nat \<Rightarrow> queue \<Rightarrow> queue" where
  "ctor_loop cap i q = (if i < cap
     then ctor_loop cap (Suc i) (q\<lparr>timers := timers q @ [system_timer_ctor],
            free_timers := free_timers q @ [i]\<rparr>)
     else q)"
  by pat_completeness auto
termination
  by (relation "measure (\<lambda>(cap, i, q). cap - i)") auto

declare ctor_loop.simps [simp del]

definition queue_ctor :: "nat \<Rightarrow> error + queue" where
  "queue_ctor cap =
     (if cap \<le> 0 \<or> cap > 100000
      then Inl (Length_error ''cannot create IncomingCallsQueue larger than 100000 size'')
      else Inr (ctor_loop cap 0 \<lparr>incoming_calls = [], next_node = 0, timers = [], free_timers = [],
        map_cg_pn_to_pos = Map.empty, capacity = cap, cv_blocking = 0\<rparr>))"

definition q_front :: "queue \<Rightarrow> error + shared_ptr" where
  "q_front q = (case incoming_calls q of
       [] \<Rightarrow> Inl (Out_of_range ''IncomingCallsQueue is empty, front() is forbidden'')
     | (_, p) # _ \<Rightarrow> Inr p)"

definition q_back :: "queue \<Rightarrow> error + shared_ptr" where
  "q_back q = (if incoming_calls q = []
     then Inl (Out_of_range ''IncomingCallsQueue is empty, back() is forbidden'')
     else Inr (snd (last (incoming_calls q))))"

definition q_empty :: "queue \<Rightarrow> bool" where
  "q_empty q \<longleftrightarrow> incoming_calls q = []"

definition q_size :: "queue \<Rightarrow> nat" where
  "q_size q = length (incoming_calls q)"

definition q_clear :: "queue \<Rightarrow> queue" where
  "q_clear q = q\<lparr>incoming_calls := []\<rparr>"

text \<open>
  The part of \<^verbatim>\<open>push\<close> after its two tests: take a free timer, append the call, remember the
  timer under the number, arm it, and wake the waiting thread.
\<close>

definition push_accept :: "shared_ptr \<Rightarrow> Call \<Rightarrow> queue \<Rightarrow> (RespStatus, queue) result" where
  "push_accept call c q = (case free_timers q of
       [] \<Rightarrow> raises (Undefined Empty_container) q
     | timer_index # rest \<Rightarrow>
         (let iter = next_node q;
              q = q\<lparr>free_timers := rest,
                    incoming_calls := incoming_calls q @ [(iter, call)],
                    next_node := Suc iter,
                    map_cg_pn_to_pos := (map_cg_pn_to_pos q)(cg_pn c \<mapsto> timer_index)\<rparr>
          in case vec_at (timers q) timer_index of
               Inl e \<Rightarrow> raises e q
             | Inr t \<Rightarrow>
                 returns OK (q\<lparr>timers := (timers q)[timer_index :=
                     async_wait (cg_pn c, iter) (expires_after (expiration_time c) t)],
                   cv_blocking := notify_one (cv_blocking q)\<rparr>)))"

definition push :: "world \<Rightarrow> shared_ptr \<Rightarrow> queue \<Rightarrow> (RespStatus, queue) result" where
  "push w call q = (case deref w call of
       Inl e \<Rightarrow> raises e q
     | Inr c \<Rightarrow>
         if map_cg_pn_to_pos q (cg_pn c) \<noteq> None then returns ALREADY_IN_QUEUE q
         else if length (incoming_calls q) \<ge> capacity q then returns OVERLOAD q
         else push_accept call c q)"

definition pop :: "world \<Rightarrow> queue \<Rightarrow> (shared_ptr, queue) result" where
  "pop w q = (case incoming_calls q of
       [] \<Rightarrow> raises (Out_of_range ''IncomingCallsQueue is empty, pop_front() is forbidden'') q
     | (_, call) # rest \<Rightarrow>
         (let q = q\<lparr>incoming_calls := rest\<rparr>
          in case deref w call of
               Inl e \<Rightarrow> raises e q
             | Inr c \<Rightarrow>
                 (case map_cg_pn_to_pos q (cg_pn c) of
                    None \<Rightarrow> raises (Out_of_range ''unordered_map::at'') q
                  | Some timer_index \<Rightarrow>
                      (let q = q\<lparr>map_cg_pn_to_pos := (map_cg_pn_to_pos q)(cg_pn c := None)\<rparr>
                       in case vec_at (timers q) timer_index of
                            Inl e \<Rightarrow> raises e q
                          | Inr t \<Rightarrow> returns call
                              (q\<lparr>timers := (timers q)[timer_index := cancel t],
                                free_timers := free_timers q @ [timer_index]\<rparr>)))))"

text \<open>
  \<^verbatim>\<open>wait()\<close> is the waiting loop over this queue's \<^verbatim>\<open>empty()\<close>. \<^verbatim>\<open>awake()\<close> appends a null pointer
  so that the loop ends; it uses no timer and no number.
\<close>

definition q_block :: "queue \<Rightarrow> queue" where
  "q_block q = q\<lparr>cv_blocking := Suc (cv_blocking q)\<rparr>"

definition q_unblock :: "queue \<Rightarrow> queue" where
  "q_unblock q = q\<lparr>cv_blocking := cv_blocking q - 1\<rparr>"

definition q_wait :: "wait_pc \<Rightarrow> queue \<Rightarrow> wait_pc \<times> queue" where
  "q_wait = wait_step q_empty cv_blocking q_block"

definition awake :: "queue \<Rightarrow> queue" where
  "awake q = q\<lparr>incoming_calls := incoming_calls q @ [(next_node q, None)],
     next_node := Suc (next_node q), cv_blocking := notify_one (cv_blocking q)\<rparr>"

definition erase_node :: "iter \<Rightarrow> (iter \<times> shared_ptr) list \<Rightarrow> (iter \<times> shared_ptr) list" where
  "erase_node i ns = filter (\<lambda>(j, p). j \<noteq> i) ns"

definition call_tag :: "Call \<Rightarrow> string" where
  "call_tag c = ''CallID:'' @ to_string (uint (call_id c)) @ '' CgPn:'' @ cg_pn c"

definition OnCallReset ::
  "(int \<Rightarrow> tm) \<Rightarrow> time_point \<Rightarrow> error_code \<Rightarrow> string \<Rightarrow> iter \<Rightarrow> world \<times> queue \<Rightarrow>
   (unit, world \<times> queue) result" where
  "OnCallReset localtime now ec cg_pn_key iter st = (case st of (w, q) \<Rightarrow>
     (case ec of
        Operation_aborted m \<Rightarrow> returns ()
          (log_operators debug ''CgPn:{} Timer in incoming calls queue is cancelled'' w, q)
      | Other_error m \<Rightarrow> returns ()
          (log_operators err (''IncomingCallsQueue::OnCallReset: '' @ m) w, q)
      | Success \<Rightarrow>
          (case map_cg_pn_to_pos q cg_pn_key of
             None \<Rightarrow> returns () (w, q)
           | Some timer_index \<Rightarrow>
               (let q = q\<lparr>map_cg_pn_to_pos := (map_cg_pn_to_pos q)(cg_pn_key := None)\<rparr>
                in case map_of (incoming_calls q) iter of
                     None \<Rightarrow> raises (Undefined Invalid_iterator) (w, q)
                   | Some call \<Rightarrow>
                       (case deref w call of
                          Inl e \<Rightarrow> raises e (w, q)
                        | Inr c \<Rightarrow>
                            (let w = store (the call) (SetCompleteData TIMEOUT now c) w;
                                 q = q\<lparr>incoming_calls := erase_node iter (incoming_calls q),
                                       free_timers := free_timers q @ [timer_index]\<rparr>;
                                 w = log_operators info (''CallID:'' @ to_string (uint (call_id c)) @
                                       '' CgPn:'' @ cg_pn_key @ '' TIMEOUT'') w;
                                 (r, w) = WriteCDR localtime call w
                             in (r, (w, q))))))))"

text \<open>
  The environment takes the \<open>i\<close>-th pending operation off timer \<open>k\<close> in order to run its handler.
\<close>

definition take_handler :: "nat \<Rightarrow> nat \<Rightarrow> queue \<Rightarrow> (((string \<times> iter) \<times> bool) \<times> queue) option" where
  "take_handler k i q = (if k < length (timers q)
     then (case take_pending i (timers q ! k) of
             None \<Rightarrow> None
           | Some (w, t) \<Rightarrow> Some (w, q\<lparr>timers := (timers q)[k := t]\<rparr>))
     else None)"

section \<open>The queue can be waited for\<close>

definition q_adds :: "queue \<Rightarrow> queue \<Rightarrow> bool" where
  "q_adds q q' \<longleftrightarrow> (\<exists>w call. push w call q = returns OK q') \<or> q' = awake q"

lemma push_accept_OK:
  "push_accept call c q = returns r q' \<Longrightarrow>
     r = OK \<and> incoming_calls q' \<noteq> [] \<and> cv_blocking q' = cv_blocking q - 1"
  by (auto simp: push_accept_def Let_def notify_one_def split: list.splits sum.splits)

lemma push_OK_adds:
  "push w call q = returns OK q' \<Longrightarrow> incoming_calls q' \<noteq> [] \<and> cv_blocking q' = cv_blocking q - 1"
  by (auto simp: push_def dest: push_accept_OK split: sum.splits if_splits)

interpretation q_waits: waitable q_empty cv_blocking q_block q_adds
  by unfold_locales
    (auto simp: q_adds_def q_empty_def q_block_def awake_def notify_one_def dest: push_OK_adds)

end
