(* ===== verification/PhoneNumber.thy ===== *)
theory PhoneNumber
  imports Prelude "HOL-Library.Sublist"
begin

text \<open>
  The free functions at the end of \<^verbatim>\<open>src/Session.cpp\<close> that turn the target of a request into a
  telephone number: \<^verbatim>\<open>UrlDecode\<close>, the regular expression of \<^verbatim>\<open>isValidPhoneNumber\<close>, and
  \<^verbatim>\<open>PreparePhoneNumber\<close>. The matcher is that of the C++ library: ordered choice with
  backtracking, greedy repetition, and the substring a group matched.
\<close>

section \<open>Regular expressions with groups\<close>

datatype regex =
    Cls "char \<Rightarrow> bool"
  | Eps
  | Cat regex regex
  | Opt regex
  | Many regex
  | Group nat regex

type_synonym captures = "nat \<rightharpoonup> string"

text \<open>
  All the ways to match a prefix, in the order a backtracking matcher tries them, each with the
  captures and the rest of the subject.
\<close>

function matches :: "regex \<Rightarrow> string \<Rightarrow> captures \<Rightarrow> (captures \<times> string) list" where
  "matches (Cls P) s m = (case s of [] \<Rightarrow> [] | c # cs \<Rightarrow> if P c then [(m, cs)] else [])"
| "matches Eps s m = [(m, s)]"
| "matches (Cat r1 r2) s m = concat (map (\<lambda>(m', s'). matches r2 s' m') (matches r1 s m))"
| "matches (Opt r) s m = matches r s m @ [(m, s)]"
| "matches (Many r) s m =
     concat (map (\<lambda>(m', s'). if length s' < length s then matches (Many r) s' m' else [])
       (matches r s m)) @ [(m, s)]"
| "matches (Group n r) s m =
     map (\<lambda>(m', s'). (m'(n \<mapsto> take (length s - length s') s), s')) (matches r s m)"
  by pat_completeness auto
termination
  by (relation "measures [\<lambda>(r, s, m). size r, \<lambda>(r, s, m). length s]") auto

declare matches.simps(5) [simp del]

fun Rep :: "nat \<Rightarrow> regex \<Rightarrow> regex" where
  "Rep 0 r = Eps"
| "Rep (Suc n) r = Cat r (Rep n r)"

text \<open>\<^verbatim>\<open>std::regex_match\<close>: the first match that uses the whole subject.\<close>

definition regex_match :: "regex \<Rightarrow> string \<Rightarrow> captures option" where
  "regex_match r s = map_option fst (find (\<lambda>(m, s'). s' = []) (matches r s Map.empty))"

section \<open>The functions of the session\<close>

text \<open>\<^verbatim>\<open>str.find(from, pos)\<close>, and the loop that replaces \<^verbatim>\<open>%20\<close> from there on.\<close>

fun find_here :: "string \<Rightarrow> string \<Rightarrow> nat option" where
  "find_here pat [] = (if pat = [] then Some 0 else None)"
| "find_here pat (c # cs) = (if prefix pat (c # cs) then Some 0
     else map_option Suc (find_here pat cs))"

definition string_find :: "string \<Rightarrow> string \<Rightarrow> nat \<Rightarrow> nat option" where
  "string_find str pat pos = (if length str < pos then None
     else map_option (\<lambda>i. pos + i) (find_here pat (drop pos str)))"

definition string_replace :: "nat \<Rightarrow> nat \<Rightarrow> string \<Rightarrow> string \<Rightarrow> string" where
  "string_replace pos n new str = take pos str @ new @ drop (pos + n) str"

lemma find_here_Some:
  "find_here pat s = Some i \<Longrightarrow> i \<le> length s \<and> prefix pat (drop i s)"
  by (induction pat s arbitrary: i rule: find_here.induct) (auto split: if_splits)

lemma find_here_bound: "find_here pat s = Some i \<Longrightarrow> i + length pat \<le> length s"
  using find_here_Some [of pat s i] by (auto dest: prefix_length_le)

function UrlDecode_loop :: "nat \<Rightarrow> string \<Rightarrow> string" where
  "UrlDecode_loop start_pos str = (case string_find str ''%20'' start_pos of
       None \<Rightarrow> str
     | Some p \<Rightarrow> UrlDecode_loop (p + length '' '') (string_replace p (length ''%20'') '' '' str))"
  by pat_completeness auto
termination
  by (relation "measure (\<lambda>(p, s). length s)")
    (auto simp: string_find_def string_replace_def dest!: find_here_bound split: if_splits)

declare UrlDecode_loop.simps [simp del]

definition UrlDecode :: "string \<Rightarrow> string" where
  "UrlDecode str = UrlDecode_loop 0 str"

definition is_space :: "char \<Rightarrow> bool" where
  "is_space c \<longleftrightarrow> c = CHR '' '' \<or> (9 \<le> (of_char c :: nat) \<and> (of_char c :: nat) \<le> 13)"

definition phone_pattern :: regex where
  "phone_pattern =
     Cat (Cls (\<lambda>c. c = CHR ''/'')) (Cat (Many (Cls is_space))
     (Cat (Opt (Cat (Opt (Cls (\<lambda>c. c = CHR ''+''))) (Group 1 (Rep 1 (Cls is_digit)))))
     (Cat (Many (Cls (\<lambda>c. c \<in> set ''-. ('')))
     (Cat (Group 2 (Rep 3 (Cls is_digit)))
     (Cat (Many (Cls (\<lambda>c. c \<in> set ''-. )'')))
     (Cat (Group 3 (Rep 3 (Cls is_digit)))
     (Cat (Many (Cls (\<lambda>c. c \<in> set ''-. '')))
     (Cat (Group 4 (Rep 4 (Cls is_digit))) (Many (Cls is_space))))))))))"

text \<open>
  A match result is the list of its groups, from 0 on; a group that took no part has length 0.
\<close>

definition group :: "captures \<Rightarrow> nat \<Rightarrow> string" where
  "group m i = (case m i of None \<Rightarrow> '''' | Some s \<Rightarrow> s)"

definition smatch :: "string \<Rightarrow> captures \<Rightarrow> string list" where
  "smatch s m = [s, group m 1, group m 2, group m 3, group m 4]"

function append_groups :: "string list \<Rightarrow> nat \<Rightarrow> string \<Rightarrow> string" where
  "append_groups ms i acc = (if i < length ms then append_groups ms (Suc i) (acc @ ms ! i) else acc)"
  by pat_completeness auto
termination
  by (relation "measure (\<lambda>(ms, i, acc). length ms - i)") auto

declare append_groups.simps [simp del]

definition PreparePhoneNumber :: "string list \<Rightarrow> string \<Rightarrow> string" where
  "PreparePhoneNumber ms valid_phone_number =
     (if length (ms ! 1) = 0 \<or> ms ! 1 = ''8''
      then append_groups ms 2 (valid_phone_number @ ''7'')
      else append_groups ms 1 valid_phone_number)"

definition isValidPhoneNumber :: "string \<Rightarrow> string \<Rightarrow> bool \<times> string" where
  "isValidPhoneNumber query_string prepared_phone_number =
     (let query_string = UrlDecode query_string
      in case regex_match phone_pattern query_string of
           None \<Rightarrow> (False, prepared_phone_number)
         | Some m \<Rightarrow> (True, PreparePhoneNumber (smatch query_string m) prepared_phone_number))"

end
