(* ===== verification/Session.thy ===== *)
theory Session
  imports IncomingCallsQueue PhoneNumber
begin

text \<open>
  \<^verbatim>\<open>src/Session.h\<close> and the member functions and message builders of \<^verbatim>\<open>src/Session.cpp\<close>: one
  HTTP session, from the read of a request to the shutdown of the socket. Beast and Asio are not
  part of the repository: what a session asks of its stream is a list of actions, and what comes
  back (error codes, the parsed request, the peer's address, the version string) is an argument.
  A request that is accepted becomes a call in the queue. At the end, the runs of a session: which
  handler Asio calls when which operation has completed.
\<close>

section \<open>State\<close>

datatype verb = Get | Other_verb string

record request =
  req_method :: verb
  target :: string
  version :: nat

datatype http_status = Ok_200 | Bad_request_400

record response =
  result :: http_status
  resp_version :: nat
  header_fields :: "(string \<times> string) list"
  keep_alive :: bool
  body :: string
  payload_prepared :: bool

datatype action =
    Dispatch_DoRead
  | Stream_expires_after nat
  | Async_read
  | Async_write response
  | Shutdown_both

record session =
  req :: "request option"
  actions :: "action list"

definition Session_ctor :: session where
  "Session_ctor = \<lparr>req = None, actions = []\<rparr>"

definition act :: "action \<Rightarrow> session \<Rightarrow> session" where
  "act x s = s\<lparr>actions := actions s @ [x]\<rparr>"

section \<open>Messages\<close>

text \<open>
  \<open>ver\<close> stands for \<^verbatim>\<open>BOOST_BEAST_VERSION_STRING\<close>; \<open>payload_prepared\<close> says that
  \<^verbatim>\<open>prepare_payload()\<close> was called after the body was set.
\<close>

definition HandleValidReq :: "string \<Rightarrow> nat \<Rightarrow> string \<Rightarrow> response" where
  "HandleValidReq ver http_version message =
     \<lparr>result = Ok_200, resp_version = http_version,
      header_fields = [(''Server'', ver), (''Content-Type'', ''text/html'')],
      keep_alive = False, body = message, payload_prepared = True\<rparr>"

definition HandleBadReq :: "string \<Rightarrow> nat \<Rightarrow> string \<Rightarrow> response" where
  "HandleBadReq ver http_version why =
     \<lparr>result = Bad_request_400, resp_version = http_version,
      header_fields = [(''Server'', ver), (''Content-Type'', ''text/html'')],
      keep_alive = False, body = why, payload_prepared = True\<rparr>"

section \<open>Handling a request\<close>

text \<open>\<^verbatim>\<open>AddToQueue\<close>; \<^verbatim>\<open>req_.version()\<close> is \<open>http_version\<close>.\<close>

definition AddToQueue ::
  "(int \<Rightarrow> tm) \<Rightarrow> string \<Rightarrow> nat \<Rightarrow> time_point \<Rightarrow> shared_ptr \<Rightarrow> world \<times> queue \<Rightarrow>
   (response, world \<times> queue) result" where
  "AddToQueue localtime ver http_version now call st = (case st of (w, q) \<Rightarrow>
     (case deref w call of Inl e \<Rightarrow> raises e (w, q) | Inr c \<Rightarrow>
     (case push w call q of
        (Inl e, q) \<Rightarrow> raises e (w, q)
      | (Inr OK, q) \<Rightarrow>
          returns (HandleValidReq ver http_version (''CallId: '' @ to_string (uint (call_id c))))
            (log_operators info (call_tag c @ '' WAIT IN QUEUE'') w, q)
      | (Inr rs, q) \<Rightarrow>
          (let (message, w) = (case rs of
                 OVERLOAD \<Rightarrow> (''The queue is overloaded'',
                   store (the call) (SetCompleteData OVERLOAD now c)
                     (log_operators info (call_tag c @ '' QUEUE OVERLOAD'') w))
               | ALREADY_IN_QUEUE \<Rightarrow> (''This phone number is already waiting'',
                   store (the call) (SetCompleteData ALREADY_IN_QUEUE now c)
                     (log_operators info (call_tag c @ '' ALREADY IN QUEUE'') w))
               | _ \<Rightarrow> ('''', w))
           in case WriteCDR localtime call w of
                (Inl e, w) \<Rightarrow> raises e (w, q)
              | (Inr _, w) \<Rightarrow> returns (HandleValidReq ver http_version message) (w, q)))))"

text \<open>
  What surrounds the program: the library's random draws, the time zone, and the text of the
  HTTP library's version.
\<close>

record 'g env =
  env_fl :: "rat \<Rightarrow> rat"
  env_gamma :: "'g gamma_draw"
  env_uniform :: "'g uniform_draw"
  env_localtime :: "int \<Rightarrow> tm"
  env_version :: string

text \<open>
  \<^verbatim>\<open>HandleRequest\<close>: \<open>ip\<close> is the result of \<^verbatim>\<open>remote_endpoint()\<close>, which throws when the peer is
  gone; the arguments of a log macro are evaluated whatever the level of the logger.
\<close>

definition HandleRequest ::
  "'g env \<Rightarrow> error + string \<Rightarrow> time_point \<Rightarrow> time_point \<Rightarrow> request \<Rightarrow>
   'g rand_gen \<times> world \<times> queue \<Rightarrow> (response, 'g rand_gen \<times> world \<times> queue) result" where
  "HandleRequest env ip now_request now_complete rq st = (case st of (r, w, q) \<Rightarrow>
     if req_method rq \<noteq> Get
     then (case ip of Inl e \<Rightarrow> raises e (r, w, q) | Inr ip \<Rightarrow>
       returns (HandleBadReq (env_version env) (version rq) ''Usage GET method.'')
         (r, log_server info (''Invalid request: no GET request IP:'' @ ip) w, q))
     else (case isValidPhoneNumber (target rq) '''' of
         (False, _) \<Rightarrow> (case ip of Inl e \<Rightarrow> raises e (r, w, q) | Inr ip \<Rightarrow>
           returns (HandleBadReq (env_version env) (version rq) ''Invalid phone number.'')
             (r, log_server info (''Invalid phone number: the number was incorrectly dialed: '' @
                target rq @ '' IP:'' @ ip) w, q))
       | (True, phone) \<Rightarrow>
           (case Call_ctor (env_fl env) (env_gamma env) (env_uniform env) phone now_request
                   (r, next_call_id w) of
              (Inl e, (r, n)) \<Rightarrow> raises e (r, w\<lparr>next_call_id := n\<rparr>, q)
            | (Inr c, (r, n)) \<Rightarrow>
                (let (call, w) = make_shared c (w\<lparr>next_call_id := n\<rparr>);
                     (x, (w, q)) = AddToQueue (env_localtime env) (env_version env) (version rq)
                       now_complete call (w, q)
                 in (x, (r, w, q))))))"

section \<open>The steps of a session\<close>

datatype read_error = No_error | End_of_stream | Read_error string

definition Session_Run :: "session \<Rightarrow> session" where
  "Session_Run s = act Dispatch_DoRead s"

definition DoRead :: "session \<Rightarrow> session" where
  "DoRead s = act Async_read (act (Stream_expires_after 10) (s\<lparr>req := None\<rparr>))"

text \<open>\<open>shutdown_ec\<close> is the message of the error of \<^verbatim>\<open>shutdown\<close>, if there is one.\<close>

definition DoClose :: "string option \<Rightarrow> session \<times> world \<Rightarrow> session \<times> world" where
  "DoClose shutdown_ec st = (case st of (s, w) \<Rightarrow>
     (act Shutdown_both s, case shutdown_ec of None \<Rightarrow> w
        | Some m \<Rightarrow> log_server err (''SOCKET SHUTDOWN ERROR '' @ m) w))"

definition SendResponse :: "response \<Rightarrow> session \<Rightarrow> session" where
  "SendResponse msg s = act (Async_write msg) s"

text \<open>\<open>rq\<close> is the request the read has put into \<^verbatim>\<open>req_\<close>.\<close>

definition OnRead ::
  "'g env \<Rightarrow> read_error \<Rightarrow> request \<Rightarrow> string option \<Rightarrow> error + string \<Rightarrow> time_point \<Rightarrow> time_point \<Rightarrow>
   session \<times> 'g rand_gen \<times> world \<times> queue \<Rightarrow> (unit, session \<times> 'g rand_gen \<times> world \<times> queue) result"
where
  "OnRead env ec rq shutdown_ec ip now_request now_complete st = (case st of (s, r, w, q) \<Rightarrow>
     (case ec of
        End_of_stream \<Rightarrow> (let (s, w) = DoClose shutdown_ec (s, w) in returns () (s, r, w, q))
      | Read_error m \<Rightarrow> returns () (s, r, log_server err ''READ FROM SOCKET ERROR'' w, q)
      | No_error \<Rightarrow>
          (let s = s\<lparr>req := Some rq\<rparr>
           in case HandleRequest env ip now_request now_complete rq (r, w, q) of
                (Inl e, (r, w, q)) \<Rightarrow> raises e (s, r, w, q)
              | (Inr msg, (r, w, q)) \<Rightarrow> returns () (SendResponse msg s, r, w, q))))"

definition OnWrite ::
  "string option \<Rightarrow> string option \<Rightarrow> session \<times> world \<Rightarrow> session \<times> world" where
  "OnWrite ec shutdown_ec st = (case ec of
       Some m \<Rightarrow> (case st of (s, w) \<Rightarrow> (s, log_server err (''WRITE TO SOCKET ERROR '' @ m) w))
     | None \<Rightarrow> DoClose shutdown_ec st)"

section \<open>The life of a session\<close>

text \<open>
  Asio calls a handler when the operation it was given to has completed: the dispatched \<^verbatim>\<open>DoRead\<close>,
  \<^verbatim>\<open>OnRead\<close> after \<^verbatim>\<open>async_read\<close>, \<^verbatim>\<open>OnWrite\<close> after \<^verbatim>\<open>async_write\<close>. A completion says with what
  outcome. The random generator, the loggers and the queue are shared with the rest of the program and
  are as the rest of the program leaves them when a handler is called.
\<close>

datatype completion =
    Dispatched
  | Read_done read_error request "string option" "error + string" time_point time_point
  | Write_done "string option" "string option"

fun completes :: "completion \<Rightarrow> action \<Rightarrow> bool" where
  "completes Dispatched a \<longleftrightarrow> a = Dispatch_DoRead"
| "completes (Read_done ec rq sd ip now1 now2) a \<longleftrightarrow> a = Async_read"
| "completes (Write_done ec sd) a \<longleftrightarrow> (case a of Async_write m \<Rightarrow> True | _ \<Rightarrow> False)"

fun handler ::
  "'g env \<Rightarrow> completion \<Rightarrow> session \<times> 'g rand_gen \<times> world \<times> queue \<Rightarrow>
   (unit, session \<times> 'g rand_gen \<times> world \<times> queue) result"
where
  "handler env Dispatched (s, r, w, q) = returns () (DoRead s, r, w, q)"
| "handler env (Read_done ec rq sd ip now1 now2) st = OnRead env ec rq sd ip now1 now2 st"
| "handler env (Write_done ec sd) (s, r, w, q) =
     (let (s, w) = OnWrite ec sd (s, w) in returns () (s, r, w, q))"

definition asynchronous :: "action \<Rightarrow> bool" where
  "asynchronous a \<longleftrightarrow> (case a of Stream_expires_after n \<Rightarrow> False | Shutdown_both \<Rightarrow> False | _ \<Rightarrow> True)"

text \<open>The operations a handler has started, and those under way after it.\<close>

definition started :: "session \<Rightarrow> session \<Rightarrow> action list" where
  "started s s' = filter asynchronous (drop (length (actions s)) (actions s'))"

text \<open>
  A run of a session from the operations under way: every completion comes with the shared state its
  handler finds, and \<open>None\<close> means that nothing of the kind is under way.
\<close>

fun session_run ::
  "'g env \<Rightarrow> (completion \<times> 'g rand_gen \<times> world \<times> queue) list \<Rightarrow> action list \<Rightarrow> session \<Rightarrow>
   (unit, action list \<times> session) result option"
where
  "session_run env [] out s = Some (returns () (out, s))"
| "session_run env ((c, st) # cs) out s = (case find (completes c) out of
       None \<Rightarrow> None
     | Some a \<Rightarrow>
         (case handler env c (s, st) of
            (Inl e, (s', st')) \<Rightarrow> Some (raises e (remove1 a out @ started s s', s'))
          | (Inr _, (s', st')) \<Rightarrow> session_run env cs (remove1 a out @ started s s') s'))"

definition session_start :: session where
  "session_start = Session_Run Session_ctor"

end
