(* ===== verification/ThreadSafeQueue.thy ===== *)
theory ThreadSafeQueue
  imports Waiting
begin

text \<open>
  \<^verbatim>\<open>src/ThreadSafeQueue.h\<close>: the queue of free operators. Every method holds \<^verbatim>\<open>muxQueue\<close> from
  its first statement to its last, so a method is one atomic function of the deque; the two
  insertions also notify the condition variable, of which the model keeps the number of threads
  blocked on it.
\<close>

section \<open>State and operations\<close>

record 'a TSQueue =
  deqQueue :: "'a list"
  cvBlocking :: nat

definition TSQueue_ctor :: "'a TSQueue" where
  "TSQueue_ctor = \<lparr>deqQueue = [], cvBlocking = 0\<rparr>"

definition ts_front :: "'a TSQueue \<Rightarrow> error + 'a" where
  "ts_front q = (case deqQueue q of
       [] \<Rightarrow> Inl (Out_of_range ''tsqueue is empty, front() is forbidden'')
     | x # _ \<Rightarrow> Inr x)"

definition ts_back :: "'a TSQueue \<Rightarrow> error + 'a" where
  "ts_back q = (if deqQueue q = []
     then Inl (Out_of_range ''tsqueue is empty, back() is forbidden'')
     else Inr (last (deqQueue q)))"

definition ts_push_back :: "'a \<Rightarrow> 'a TSQueue \<Rightarrow> 'a TSQueue" where
  "ts_push_back item q =
     q\<lparr>deqQueue := deqQueue q @ [item], cvBlocking := notify_one (cvBlocking q)\<rparr>"

definition ts_push_front :: "'a \<Rightarrow> 'a TSQueue \<Rightarrow> 'a TSQueue" where
  "ts_push_front item q =
     q\<lparr>deqQueue := item # deqQueue q, cvBlocking := notify_one (cvBlocking q)\<rparr>"

definition ts_empty :: "'a TSQueue \<Rightarrow> bool" where
  "ts_empty q \<longleftrightarrow> deqQueue q = []"

definition ts_count :: "'a TSQueue \<Rightarrow> nat" where
  "ts_count q = length (deqQueue q)"

definition ts_clear :: "'a TSQueue \<Rightarrow> 'a TSQueue" where
  "ts_clear q = q\<lparr>deqQueue := []\<rparr>"

definition ts_pop_front :: "'a TSQueue \<Rightarrow> ('a, 'a TSQueue) result" where
  "ts_pop_front q = (case deqQueue q of
       [] \<Rightarrow> raises (Out_of_range ''tsqueue is empty, pop_front() is forbidden'') q
     | t # ts \<Rightarrow> returns t (q\<lparr>deqQueue := ts\<rparr>))"

definition ts_pop_back :: "'a TSQueue \<Rightarrow> ('a, 'a TSQueue) result" where
  "ts_pop_back q = (if deqQueue q = []
     then raises (Out_of_range ''tsqueue is empty, pop_back() is forbidden'') q
     else returns (last (deqQueue q)) (q\<lparr>deqQueue := butlast (deqQueue q)\<rparr>))"

text \<open>\<^verbatim>\<open>cvBlocking.wait(ul)\<close>: the thread joins those blocked on the condition variable.\<close>

definition ts_block :: "'a TSQueue \<Rightarrow> 'a TSQueue" where
  "ts_block q = q\<lparr>cvBlocking := Suc (cvBlocking q)\<rparr>"

text \<open>A spurious wake-up, which the loop of \<open>wait\<close> allows for.\<close>

definition ts_unblock :: "'a TSQueue \<Rightarrow> 'a TSQueue" where
  "ts_unblock q = q\<lparr>cvBlocking := cvBlocking q - 1\<rparr>"

text \<open>\<^verbatim>\<open>wait()\<close>: one step of the waiting thread.\<close>

definition ts_wait :: "wait_pc \<Rightarrow> 'a TSQueue \<Rightarrow> wait_pc \<times> 'a TSQueue" where
  "ts_wait = wait_step ts_empty cvBlocking ts_block"

lemmas ts_defs = TSQueue_ctor_def ts_front_def ts_back_def ts_push_back_def ts_push_front_def
  ts_empty_def ts_count_def ts_clear_def ts_pop_front_def ts_pop_back_def ts_block_def
  ts_unblock_def

section \<open>The queue as a list\<close>

lemma deqQueue_simps [simp, run_simps]:
  "deqQueue TSQueue_ctor = []"
  "deqQueue (ts_push_back x q) = deqQueue q @ [x]"
  "deqQueue (ts_push_front x q) = x # deqQueue q"
  "deqQueue (ts_clear q) = []"
  "deqQueue (ts_block q) = deqQueue q"
  "deqQueue (ts_unblock q) = deqQueue q"
  by (simp_all add: ts_defs)

lemma cvBlocking_simps [simp, run_simps]:
  "cvBlocking TSQueue_ctor = 0"
  "cvBlocking (ts_push_back x q) = cvBlocking q - 1"
  "cvBlocking (ts_push_front x q) = cvBlocking q - 1"
  "cvBlocking (ts_clear q) = cvBlocking q"
  "cvBlocking (ts_block q) = Suc (cvBlocking q)"
  "cvBlocking (ts_unblock q) = cvBlocking q - 1"
  by (simp_all add: ts_defs notify_one_def)

lemma ts_pop_front_cases:
  "ts_pop_front q = (r, q') \<Longrightarrow>
     (deqQueue q = [] \<and> q' = q \<and>
        r = Inl (Out_of_range ''tsqueue is empty, pop_front() is forbidden'')) \<or>
     (\<exists>x xs. deqQueue q = x # xs \<and> r = Inr x \<and> q' = q\<lparr>deqQueue := xs\<rparr>)"
  by (auto simp: ts_pop_front_def split: list.splits)

lemma ts_pop_front_Cons [simp, run_simps]:
  "deqQueue q = x # xs \<Longrightarrow> ts_pop_front q = returns x (q\<lparr>deqQueue := xs\<rparr>)"
  by (simp add: ts_pop_front_def)

lemma ts_pop_back_snoc [simp, run_simps]:
  "deqQueue q = xs @ [x] \<Longrightarrow> ts_pop_back q = returns x (q\<lparr>deqQueue := xs\<rparr>)"
  by (simp add: ts_pop_back_def)

section \<open>The queue provides the interfaces of its clients\<close>

definition ts_adds :: "'a TSQueue \<Rightarrow> 'a TSQueue \<Rightarrow> bool" where
  "ts_adds q q' \<longleftrightarrow> (\<exists>x. q' = ts_push_back x q \<or> q' = ts_push_front x q)"

interpretation ts_waits: waitable ts_empty cvBlocking ts_block ts_adds
  by unfold_locales (auto simp: ts_adds_def ts_empty_def)

interpretation ts_fifo: fifo ts_push_back ts_pop_front deqQueue "\<lambda>q. True" "\<lambda>x q. True"
  by unfold_locales (auto simp: ts_pop_front_def split: list.splits)

end
