(* ===== verification/Operators.thy ===== *)
theory Operators
  imports ThreadSafeQueue IncomingCallsQueue
begin

text \<open>
  \<^verbatim>\<open>src/Operators.h\<close> and \<^verbatim>\<open>src/Operators.cpp\<close>: the operators, each a timer that runs for as
  long as the conversation, and the thread that hands the waiting calls to the free ones.
  \<^verbatim>\<open>AddCall\<close> takes two locks one after the other and is split into its two atomic parts.
\<close>

section \<open>State\<close>

record operators =
  incoming :: queue
  talks :: "shared_ptr system_timer list"
  free_operators :: "int TSQueue"
  continue_loop :: bool

text \<open>\<^verbatim>\<open>operators_[OpId]\<close> with an \<^verbatim>\<open>int\<close>: a negative index is past the end.\<close>

definition at_int :: "'a list \<Rightarrow> int \<Rightarrow> error + 'a" where
  "at_int xs i = (if 0 \<le> i then vec_at xs (nat i) else Inl (Undefined Bad_index))"

section \<open>Construction\<close>

text \<open>The loop \<^verbatim>\<open>for (int i = 0; i != count_op; ++i)\<close>; \<^verbatim>\<open>reserve\<close> throws for a negative count.\<close>

function operators_loop :: "nat \<Rightarrow> nat \<Rightarrow> operators \<Rightarrow> operators" where
  "operators_loop count_op i s = (if i < count_op
     then operators_loop count_op (Suc i)
       (s\<lparr>free_operators := ts_push_back (int i) (free_operators s),
          talks := talks s @ [system_timer_ctor]\<rparr>)
     else s)"
  by pat_completeness auto
termination
  by (relation "measure (\<lambda>(n, i, s). n - i)") auto

declare operators_loop.simps [simp del]

definition Operators_ctor :: "int \<Rightarrow> nat \<Rightarrow> world \<Rightarrow> (operators, world) result" where
  "Operators_ctor count_op incCallsSize w = (case queue_ctor incCallsSize of
       Inl e \<Rightarrow> raises e w
     | Inr q \<Rightarrow>
         if count_op < 0 then raises (Length_error ''vector::reserve'') w
         else returns (operators_loop (nat count_op) 0
             \<lparr>incoming = q, talks = [], free_operators = TSQueue_ctor, continue_loop = True\<rparr>)
           (log_operators info (''Number of operators = '' @ to_string count_op @
              '', the queue size = '' @ nat_to_string incCallsSize) w))"

section \<open>Handing a call to an operator\<close>

text \<open>The first part of \<^verbatim>\<open>AddCall\<close>: \<open>None\<close> when it returns because the queue was empty.\<close>

definition AddCall_pop :: "world \<times> operators \<Rightarrow> (shared_ptr option, world \<times> operators) result" where
  "AddCall_pop st = (case st of (w, s) \<Rightarrow>
     (case pop w (incoming s) of
        (Inr p, q) \<Rightarrow> returns (Some p) (w, s\<lparr>incoming := q\<rparr>)
      | (Inl (Out_of_range m), q) \<Rightarrow> returns None
          (log_operators err (''Operators::AddCall(): '' @ m) w, s\<lparr>incoming := q\<rparr>)
      | (Inl e, q) \<Rightarrow> raises e (w, s\<lparr>incoming := q\<rparr>)))"

definition AddCall_take ::
  "time_point \<Rightarrow> shared_ptr \<Rightarrow> world \<times> operators \<Rightarrow> (unit, world \<times> operators) result" where
  "AddCall_take now call st = (case st of (w, s) \<Rightarrow>
     (case ts_pop_front (free_operators s) of
        (Inl e, f) \<Rightarrow> raises e (w, s\<lparr>free_operators := f\<rparr>)
      | (Inr OpId, f) \<Rightarrow>
          (let s = s\<lparr>free_operators := f\<rparr>
           in case deref w call of
                Inl e \<Rightarrow> raises e (w, s)
              | Inr c \<Rightarrow>
                  (let w = store (the call) (SetOperatorResponseData OpId now c) w
                   in case at_int (talks s) OpId of
                        Inl e \<Rightarrow> raises e (w, s)
                      | Inr t \<Rightarrow> returns ()
                          (log_operators info (call_tag c @ '' OpId:'' @ to_string OpId @
                             '' START OF CALL'') w,
                           s\<lparr>talks := (talks s)[nat OpId :=
                               async_wait call (expires_after (call_duration c) t)]\<rparr>)))))"

definition AddCall :: "time_point \<Rightarrow> world \<times> operators \<Rightarrow> (unit, world \<times> operators) result" where
  "AddCall now st = (case AddCall_pop st of
       (Inl e, st) \<Rightarrow> raises e st
     | (Inr None, st) \<Rightarrow> returns () st
     | (Inr (Some p), st) \<Rightarrow> AddCall_take now p st)"

definition OnEndCall ::
  "(int \<Rightarrow> tm) \<Rightarrow> time_point \<Rightarrow> error_code \<Rightarrow> shared_ptr \<Rightarrow> world \<times> operators \<Rightarrow>
   (unit, world \<times> operators) result" where
  "OnEndCall localtime now ec call st = (case st of (w, s) \<Rightarrow>
     if ec \<noteq> Success
     then returns () (log_operators err (''OnEndCall: '' @ ec_message ec) w, s)
     else (case deref w call of
             Inl e \<Rightarrow> raises e (w, s)
           | Inr c \<Rightarrow>
               (let w = log_operators info (call_tag c @ '' OpId:'' @ to_string (operator_id c) @
                          '' CALL_IS_COMPLETED'') w;
                    s = s\<lparr>free_operators := ts_push_back (operator_id c) (free_operators s)\<rparr>;
                    w = store (the call) (SetCompleteData OK now c) w;
                    (r, w) = WriteCDR localtime call w
                in (r, (w, s)))))"

section \<open>The operators' thread\<close>

text \<open>
  Where the thread is in \<^verbatim>\<open>Run\<close>: before the loop, in one of the two waits, at the test of
  \<^verbatim>\<open>continue_loop_\<close>, in one of the two parts of \<^verbatim>\<open>AddCall\<close>, or past \<^verbatim>\<open>return\<close>.
\<close>

datatype op_pc =
    Enter
  | Wait_free wait_pc
  | Wait_calls wait_pc
  | Check_loop
  | In_AddCall
  | Take_operator shared_ptr
  | Stopped

definition Run_step ::
  "time_point \<Rightarrow> op_pc \<Rightarrow> world \<times> operators \<Rightarrow> (op_pc, world \<times> operators) result" where
  "Run_step now pc st = (case st of (w, s) \<Rightarrow> (case pc of
       Enter \<Rightarrow> returns (Wait_free Testing) (log_operators info ''OPERATORS ARE RUNNING'' w, s)
     | Wait_free Returned \<Rightarrow> returns (Wait_calls Testing) (w, s)
     | Wait_free p \<Rightarrow> (case ts_wait p (free_operators s) of (p', f) \<Rightarrow>
         returns (Wait_free p') (w, s\<lparr>free_operators := f\<rparr>))
     | Wait_calls Returned \<Rightarrow> returns Check_loop (w, s)
     | Wait_calls p \<Rightarrow> (case q_wait p (incoming s) of (p', q) \<Rightarrow>
         returns (Wait_calls p') (w, s\<lparr>incoming := q\<rparr>))
     | Check_loop \<Rightarrow> returns (if continue_loop s then In_AddCall else Stopped) (w, s)
     | In_AddCall \<Rightarrow> (case AddCall_pop (w, s) of
           (Inl e, st) \<Rightarrow> raises e st
         | (Inr None, st) \<Rightarrow> returns (Wait_free Testing) st
         | (Inr (Some p), st) \<Rightarrow> returns (Take_operator p) st)
     | Take_operator p \<Rightarrow> (case AddCall_take now p (w, s) of
           (Inl e, st) \<Rightarrow> raises e st
         | (Inr _, st) \<Rightarrow> returns (Wait_free Testing) st)
     | Stopped \<Rightarrow> returns Stopped (w, s)))"

section \<open>Stopping\<close>

text \<open>\<^verbatim>\<open>Stop()\<close> is three atomic actions, in this order.\<close>

definition Stop_flag :: "operators \<Rightarrow> operators" where
  "Stop_flag s = s\<lparr>continue_loop := False\<rparr>"

definition Stop_push :: "operators \<Rightarrow> operators" where
  "Stop_push s = s\<lparr>free_operators := ts_push_back 0 (free_operators s)\<rparr>"

definition Stop_awake :: "operators \<Rightarrow> operators" where
  "Stop_awake s = s\<lparr>incoming := awake (incoming s)\<rparr>"

definition Stop :: "operators \<Rightarrow> operators" where
  "Stop s = Stop_awake (Stop_push (Stop_flag s))"

text \<open>The environment takes a finished conversation's operation to run its handler.\<close>

definition take_talk ::
  "nat \<Rightarrow> nat \<Rightarrow> operators \<Rightarrow> ((shared_ptr \<times> bool) \<times> operators) option" where
  "take_talk k i s = (if k < length (talks s)
     then (case take_pending i (talks s ! k) of
             None \<Rightarrow> None
           | Some (x, t) \<Rightarrow> Some (x, s\<lparr>talks := (talks s)[k := t]\<rparr>))
     else None)"

lemma operators_loop_result:
  "i \<le> n \<Longrightarrow> operators_loop n i s = s\<lparr>
     free_operators := (free_operators s)\<lparr>deqQueue := deqQueue (free_operators s) @ map int [i..<n],
       cvBlocking := cvBlocking (free_operators s) - (n - i)\<rparr>,
     talks := talks s @ replicate (n - i) system_timer_ctor\<rparr>"
proof (induction n i s rule: operators_loop.induct)
  case (1 n i s)
  show ?case
  proof (cases "i < n")
    case True
    have r: "replicate (n - i) system_timer_ctor =
        (system_timer_ctor :: shared_ptr system_timer) # replicate (n - Suc i) system_timer_ctor"
      using True by (metis Suc_diff_Suc replicate_Suc)
    show ?thesis
      using True "1.IH" [OF True]
      by (subst operators_loop.simps) (simp add: r upt_conv_Cons ts_push_back_def notify_one_def)
  next
    case False
    with "1.prems" show ?thesis by (subst operators_loop.simps) simp
  qed
qed

end
