(* ===== verification/CallCentre.thy ===== *)
theory CallCentre
  imports Session Operators
begin

text \<open>
  The running program: the sessions, the timers of the queue and of the operators, the operators'
  thread and the shutdown, as one machine whose steps are the atomic actions of the threads.

  A request is handled in one step: its call is known to nobody else before \<^verbatim>\<open>push\<close> publishes
  it under \<^verbatim>\<open>mux_queue\<close>, and afterwards the session only reads it, or completes a call the
  queue has turned away. The two handlers of timers are one step each: \<^verbatim>\<open>OnCallReset\<close> holds the
  queue's mutex throughout, and a call whose conversation has ended is referenced by
  \<^verbatim>\<open>OnEndCall\<close> only. The operators' thread and \<^verbatim>\<open>Stop\<close> take one step per lock.
\<close>

section \<open>State and events\<close>

text \<open>
  The phase of \<^verbatim>\<open>Start\<close> in \<^verbatim>\<open>src/main.cpp\<close>: handlers run until \<^verbatim>\<open>ioc.stop()\<close>; when the threads
  of the pool are joined, the main thread executes the three actions of \<^verbatim>\<open>Stop\<close> and joins the
  operators' thread.
\<close>

datatype phase = Running | Ioc_stopped | Flag_cleared | Operator_pushed | Awoken | Joined

record 'g sys =
  rand :: "'g rand_gen"
  world :: world
  ops :: operators
  pc :: op_pc
  phase :: phase
  wait_ends :: "iter \<Rightarrow> time_point"
  wait_cancelled :: "iter \<Rightarrow> time_point"
  talk_ends :: "nat \<Rightarrow> time_point"

text \<open>
  The last three are what Asio keeps of the timers, set when the code calls \<^verbatim>\<open>expires_after\<close> and
  \<^verbatim>\<open>cancel\<close>: for every node of the queue, when the wait for its call ends and when it was cancelled;
  for every call, when its conversation ends.
\<close>

text \<open>
  What happens next: a request arrives; the handler of the \<open>i\<close>-th pending wait on the \<open>k\<close>-th timer
  of the queue, or of the operators, runs with an error code; the operators' thread takes a step
  or wakes up spuriously; a signal arrives; the main thread goes on after the handlers have
  stopped. The times are the values of the clock.
\<close>

datatype event =
    Request "error + string" request time_point time_point
  | Timer_handler nat nat error_code time_point
  | Talk_handler nat nat error_code time_point
  | Operators_thread time_point
  | Spurious_wakeup
  | Signal
  | Main_thread

section \<open>Steps\<close>

definition request_step ::
  "'g env \<Rightarrow> error + string \<Rightarrow> request \<Rightarrow> time_point \<Rightarrow> time_point \<Rightarrow> 'g sys \<Rightarrow> (unit, 'g sys) result"
where
  "request_step env ip rq now1 now2 s =
     (case HandleRequest env ip now1 now2 rq (rand s, world s, incoming (ops s)) of (x, (r, w, q)) \<Rightarrow>
        (case x of Inl e \<Rightarrow> Inl e | Inr _ \<Rightarrow> Inr (),
         s\<lparr>rand := r, world := w, ops := (ops s)\<lparr>incoming := q\<rparr>\<rparr>))"

definition timer_step ::
  "'g env \<Rightarrow> nat \<Rightarrow> nat \<Rightarrow> error_code \<Rightarrow> time_point \<Rightarrow> 'g sys \<Rightarrow> (unit, 'g sys) result option"
where
  "timer_step env k i ec now s = (case take_handler k i (incoming (ops s)) of
       None \<Rightarrow> None
     | Some (((x, n), c), q) \<Rightarrow>
         (case OnCallReset (env_localtime env) now ec x n (world s, q) of (r, (w, q)) \<Rightarrow>
            Some (r, s\<lparr>world := w, ops := (ops s)\<lparr>incoming := q\<rparr>\<rparr>)))"

definition talk_step ::
  "'g env \<Rightarrow> nat \<Rightarrow> nat \<Rightarrow> error_code \<Rightarrow> time_point \<Rightarrow> 'g sys \<Rightarrow> (unit, 'g sys) result option"
where
  "talk_step env k i ec now s = (case take_talk k i (ops s) of
       None \<Rightarrow> None
     | Some ((p, c), o') \<Rightarrow>
         (case OnEndCall (env_localtime env) now ec p (world s, o') of (r, (w, o')) \<Rightarrow>
            Some (r, s\<lparr>world := w, ops := o'\<rparr>)))"

definition operators_step :: "time_point \<Rightarrow> 'g sys \<Rightarrow> (unit, 'g sys) result" where
  "operators_step now s = (case Run_step now (pc s) (world s, ops s) of
       (Inl e, (w, o')) \<Rightarrow> raises e (s\<lparr>world := w, ops := o'\<rparr>)
     | (Inr p, (w, o')) \<Rightarrow> returns () (s\<lparr>world := w, ops := o', pc := p\<rparr>))"

definition spurious_step :: "'g sys \<Rightarrow> 'g sys option" where
  "spurious_step s = (case pc s of
       Wait_free Asleep \<Rightarrow> Some (s\<lparr>pc := Wait_free Testing,
         ops := (ops s)\<lparr>free_operators := ts_unblock (free_operators (ops s))\<rparr>\<rparr>)
     | Wait_calls Asleep \<Rightarrow> Some (s\<lparr>pc := Wait_calls Testing,
         ops := (ops s)\<lparr>incoming := q_unblock (incoming (ops s))\<rparr>\<rparr>)
     | _ \<Rightarrow> None)"

definition main_step :: "'g sys \<Rightarrow> 'g sys option" where
  "main_step s = (case phase s of
       Running \<Rightarrow> None
     | Ioc_stopped \<Rightarrow> Some (s\<lparr>phase := Flag_cleared, ops := Stop_flag (ops s)\<rparr>)
     | Flag_cleared \<Rightarrow> Some (s\<lparr>phase := Operator_pushed, ops := Stop_push (ops s)\<rparr>)
     | Operator_pushed \<Rightarrow> Some (s\<lparr>phase := Awoken, ops := Stop_awake (ops s)\<rparr>)
     | Awoken \<Rightarrow> if pc s = Stopped then Some (s\<lparr>phase := Joined\<rparr>) else None
     | Joined \<Rightarrow> None)"

text \<open>
  The clock readings of the timers: \<^verbatim>\<open>push\<close> arms the timer of a new node, \<^verbatim>\<open>pop\<close> cancels the timer
  of the first one, and \<^verbatim>\<open>AddCall\<close> arms the operator's. A duration counts milliseconds.
\<close>

definition after_ms :: "time_point \<Rightarrow> int \<Rightarrow> time_point" where
  "after_ms now d = now + 1000000 * d"

definition arm_wait :: "time_point \<Rightarrow> 'g sys \<Rightarrow> 'g sys \<Rightarrow> 'g sys" where
  "arm_wait now s s' = (let n = next_node (incoming (ops s)) in
     if next_node (incoming (ops s')) = n then s'
     else s'\<lparr>wait_ends := (wait_ends s')(n := after_ms now (expiration_time (last (objects (world s')))))\<rparr>)"

definition thread_waits :: "time_point \<Rightarrow> 'g sys \<Rightarrow> 'g sys \<Rightarrow> 'g sys" where
  "thread_waits now s s' = (case pc s of
       In_AddCall \<Rightarrow> (case incoming_calls (incoming (ops s)) of
           [] \<Rightarrow> s'
         | (n, p) # ns \<Rightarrow> s'\<lparr>wait_cancelled := (wait_cancelled s')(n := now)\<rparr>)
     | Take_operator (Some i) \<Rightarrow>
         s'\<lparr>talk_ends := (talk_ends s')(i := after_ms now (call_duration (objects (world s) ! i)))\<rparr>
     | _ \<Rightarrow> s')"

text \<open>\<open>None\<close> means that the event cannot happen in this state.\<close>

fun sys_step :: "'g env \<Rightarrow> event \<Rightarrow> 'g sys \<Rightarrow> (unit, 'g sys) result option" where
  "sys_step env (Request ip rq now1 now2) s =
     (if phase s = Running then Some (apsnd (arm_wait now2 s) (request_step env ip rq now1 now2 s)) else None)"
| "sys_step env (Timer_handler k i ec now) s =
     (if phase s = Running then timer_step env k i ec now s else None)"
| "sys_step env (Talk_handler k i ec now) s =
     (if phase s = Running then talk_step env k i ec now s else None)"
| "sys_step env (Operators_thread now) s =
     (if pc s = Stopped then None else Some (apsnd (thread_waits now s) (operators_step now s)))"
| "sys_step env Spurious_wakeup s = map_option (returns ()) (spurious_step s)"
| "sys_step env Signal s =
     (if phase s = Running then Some (returns () (s\<lparr>phase := Ioc_stopped\<rparr>)) else None)"
| "sys_step env Main_thread s = map_option (returns ()) (main_step s)"

text \<open>
  A run stops at the first error: an exception no handler catches ends the program, and nothing
  is known after undefined behaviour.
\<close>

fun sys_run :: "'g env \<Rightarrow> event list \<Rightarrow> 'g sys \<Rightarrow> (unit, 'g sys) result option" where
  "sys_run env [] s = Some (returns () s)"
| "sys_run env (e # es) s = (case sys_step env e s of
       None \<Rightarrow> None
     | Some (Inl x, s') \<Rightarrow> Some (raises x s')
     | Some (Inr _, s') \<Rightarrow> sys_run env es s')"

definition sys_init :: "'g rand_gen \<Rightarrow> world \<Rightarrow> operators \<Rightarrow> 'g sys" where
  "sys_init r w o' = \<lparr>rand = r, world = w, ops = o', pc = Enter, phase = Running,
     wait_ends = (\<lambda>n. 0), wait_cancelled = (\<lambda>n. 0), talk_ends = (\<lambda>i. 0)\<rparr>"

section \<open>Permitted events and reachable states\<close>

text \<open>
  The clock is past the epoch, and handlers of timers run as Asio documents it (\<open>delivers\<close> of theory
  Timers): not before the timer has expired, and with the error \<^verbatim>\<open>operation_aborted\<close> when the wait
  was cancelled, unless the timer had expired before that.
\<close>

definition cancelled_at :: "'h system_timer list \<Rightarrow> nat \<Rightarrow> nat \<Rightarrow> bool" where
  "cancelled_at ts k i = snd (pending (ts ! k) ! i)"

definition wait_expired :: "nat \<Rightarrow> nat \<Rightarrow> time_point \<Rightarrow> 'g sys \<Rightarrow> bool" where
  "wait_expired k i now s = (case pending (timers (incoming (ops s)) ! k) ! i of ((x, n), c) \<Rightarrow>
     wait_ends s n \<le> (if c then wait_cancelled s n else now))"

definition talk_expired :: "nat \<Rightarrow> nat \<Rightarrow> time_point \<Rightarrow> 'g sys \<Rightarrow> bool" where
  "talk_expired k i now s = (case pending (talks (ops s) ! k) ! i of (p, c) \<Rightarrow> talk_ends s (the p) \<le> now)"

fun permitted :: "event \<Rightarrow> 'g sys \<Rightarrow> bool" where
  "permitted (Request ip rq now1 now2) s \<longleftrightarrow> 0 \<le> now1 \<and> 0 \<le> now2"
| "permitted (Timer_handler k i ec now) s \<longleftrightarrow>
     0 \<le> now \<and> delivers (cancelled_at (timers (incoming (ops s))) k i) (wait_expired k i now s) ec"
| "permitted (Talk_handler k i ec now) s \<longleftrightarrow>
     0 \<le> now \<and> delivers (cancelled_at (talks (ops s)) k i) (talk_expired k i now s) ec"
| "permitted (Operators_thread now) s \<longleftrightarrow> 0 \<le> now"
| "permitted Spurious_wakeup s \<longleftrightarrow> True"
| "permitted Signal s \<longleftrightarrow> True"
| "permitted Main_thread s \<longleftrightarrow> True"

inductive step :: "'g env \<Rightarrow> 'g sys \<Rightarrow> event \<Rightarrow> 'g sys \<Rightarrow> bool"
  for env where
  stepI: "permitted e s \<Longrightarrow> sys_step env e s = Some (returns () s') \<Longrightarrow> step env s e s'"

inductive_cases stepE: "step env s e s'"
inductive_simps step_simps: "step env s e s'"

text \<open>The states a run passes through as long as no step fails.\<close>

inductive reachable :: "'g env \<Rightarrow> 'g sys \<Rightarrow> 'g sys \<Rightarrow> bool" for env s0 where
  reach_start: "reachable env s0 s0"
| reach_step: "reachable env s0 s \<Longrightarrow> step env s e s' \<Longrightarrow> reachable env s0 s'"

fun run_permitted :: "'g env \<Rightarrow> event list \<Rightarrow> 'g sys \<Rightarrow> bool" where
  "run_permitted env [] s \<longleftrightarrow> True"
| "run_permitted env (e # es) s \<longleftrightarrow> permitted e s \<and> (case sys_step env e s of
       Some (Inr _, s') \<Rightarrow> run_permitted env es s' | _ \<Rightarrow> True)"

lemma run_reachable:
  "reachable env s0 s \<Longrightarrow> run_permitted env es s \<Longrightarrow> sys_run env es s = Some (returns () s') \<Longrightarrow>
     reachable env s0 s'"
proof (induction es arbitrary: s)
  case Nil
  then show ?case by simp
next
  case (Cons e es)
  from Cons.prems(2,3) obtain t where t: "permitted e s" "sys_step env e s = Some (returns () t)"
    and rest: "run_permitted env es t" "sys_run env es t = Some (returns () s')"
    by (auto split: option.splits prod.splits sum.splits)
  from t have "reachable env s0 t" by (blast intro: reach_step Cons.prems(1) stepI)
  then show ?case using rest by (rule Cons.IH)
qed

end
