(* ===== verification/Listener.thy ===== *)
theory Listener
  imports Session
begin

text \<open>
  \<^verbatim>\<open>src/Listener.h\<close> and \<^verbatim>\<open>src/Listener.cpp\<close>: the acceptor. The outcome of each request to it is
  given by the environment: \<open>fails op\<close> is the message of the error of that step, if it fails.
\<close>

section \<open>State\<close>

datatype acceptor_op = Open | Reuse_address | Bind | Listen

record listener =
  done_ops :: "acceptor_op list"
  accepts_pending :: nat
  sessions :: "session list"

section \<open>Operations\<close>

definition acceptor_steps :: "(acceptor_op \<times> string) list" where
  "acceptor_steps = [(Open, ''acceptor open: ''), (Reuse_address, ''acceptor set_option: ''),
     (Bind, ''acceptor bind: ''), (Listen, ''acceptor listen: '')]"

text \<open>Every step that fails logs its error and returns from the constructor.\<close>

fun run_acceptor_steps ::
  "(acceptor_op \<Rightarrow> string option) \<Rightarrow> (acceptor_op \<times> string) list \<Rightarrow> listener \<times> world \<Rightarrow>
   listener \<times> world" where
  "run_acceptor_steps fails [] st = st"
| "run_acceptor_steps fails ((op, text) # ops) (l, w) = (case fails op of
       Some m \<Rightarrow> (l, log_server err (text @ m) w)
     | None \<Rightarrow> run_acceptor_steps fails ops (l\<lparr>done_ops := done_ops l @ [op]\<rparr>, w))"

definition Listener_ctor :: "(acceptor_op \<Rightarrow> string option) \<Rightarrow> world \<Rightarrow> listener \<times> world" where
  "Listener_ctor fails w = run_acceptor_steps fails acceptor_steps
     (\<lparr>done_ops = [], accepts_pending = 0, sessions = []\<rparr>, w)"

definition do_accept :: "listener \<Rightarrow> listener" where
  "do_accept l = l\<lparr>accepts_pending := Suc (accepts_pending l)\<rparr>"

definition Listener_run :: "listener \<times> world \<Rightarrow> listener \<times> world" where
  "Listener_run st = (case st of (l, w) \<Rightarrow> (do_accept l, log_server info ''SERVER IS RUNNING'' w))"

text \<open>
  The handler of an accept. \<open>endpoint\<close> is the result of \<^verbatim>\<open>socket.remote_endpoint()\<close>, evaluated
  for the first log message before the error code is looked at; it throws on a socket that is
  not connected.
\<close>

definition on_accept ::
  "string option \<Rightarrow> error + string \<times> nat \<Rightarrow> listener \<times> world \<Rightarrow> (unit, listener \<times> world) result" where
  "on_accept ec endpoint st = (case st of (l, w) \<Rightarrow>
     (let l = l\<lparr>accepts_pending := accepts_pending l - 1\<rparr>
      in case endpoint of
           Inl e \<Rightarrow> raises e (l, w)
         | Inr (address, port) \<Rightarrow>
             (let w = log_server debug (address @ '':'' @ nat_to_string port @ '' new connection'') w
              in case ec of
                   Some m \<Rightarrow> returns () (l, log_server err (''on_accept: '' @ m) w)
                 | None \<Rightarrow>
                     (let s = Session_Run Session_ctor
                      in returns () (do_accept (l\<lparr>sessions := sessions l @ [s]\<rparr>), w)))))"

end
