(* ===== verification/JsonValue.thy ===== *)
theory JsonValue
  imports RandGen "HOL-Library.Sublist"
begin

text \<open>
  The values of \<^verbatim>\<open>nlohmann/json.hpp\<close>, its exceptions with their texts, the index operator of a
  value that is not constant, and the conversions to the types of the members of the
  configuration.
\<close>

section \<open>JSON values\<close>

text \<open>
  An integer literal is stored in 64 bits, without a sign unless it is negative. A floating point
  number is the rational its \<^verbatim>\<open>double\<close> denotes. The members of an object have distinct names.
\<close>

datatype json =
    Null
  | Boolean bool
  | Number_integer "64 word"
  | Number_unsigned "64 word"
  | Number_float rat
  | String string
  | Array "json list"
  | Object "(string \<times> json) list"
  | Discarded

definition type_name :: "json \<Rightarrow> string" where
  "type_name j = (case j of
       Null \<Rightarrow> ''null''
     | Object ms \<Rightarrow> ''object''
     | Array vs \<Rightarrow> ''array''
     | String s \<Rightarrow> ''string''
     | Boolean b \<Rightarrow> ''boolean''
     | Discarded \<Rightarrow> ''discarded''
     | _ \<Rightarrow> ''number'')"

section \<open>Exceptions\<close>

record position_t =
  chars_read_total :: nat
  chars_read_current_line :: nat
  lines_read :: nat

definition exception_name :: "string \<Rightarrow> nat \<Rightarrow> string" where
  "exception_name ename i = ''[json.exception.'' @ ename @ ''.'' @ nat_to_string i @ ''] ''"

definition position_string :: "position_t \<Rightarrow> string" where
  "position_string pos = '' at line '' @ nat_to_string (lines_read pos + 1) @
     '', column '' @ nat_to_string (chars_read_current_line pos)"

text \<open>A parse error carries its identifier, the number of the byte, and the text.\<close>

definition parse_error_create :: "nat \<Rightarrow> position_t \<Rightarrow> string \<Rightarrow> error" where
  "parse_error_create i pos what_arg = Json_parse_error i (chars_read_total pos)
     (exception_name ''parse_error'' i @ ''parse error'' @ position_string pos @ '': '' @ what_arg)"

definition type_error_create :: "nat \<Rightarrow> string \<Rightarrow> error" where
  "type_error_create i what_arg = Json_type_error i (exception_name ''type_error'' i @ what_arg)"

definition out_of_range_create :: "nat \<Rightarrow> string \<Rightarrow> error" where
  "out_of_range_create i what_arg = Json_out_of_range i (exception_name ''out_of_range'' i @ what_arg)"

section \<open>Members\<close>

fun obj_update :: "string \<Rightarrow> json \<Rightarrow> (string \<times> json) list \<Rightarrow> (string \<times> json) list" where
  "obj_update k v [] = [(k, v)]"
| "obj_update k v ((k', v') # ms) = (if k' = k then (k, v) # ms else (k', v') # obj_update k v ms)"

text \<open>\<^verbatim>\<open>operator[]\<close>: a null becomes an empty object; other values have no members.\<close>

definition as_object :: "json \<Rightarrow> error + (string \<times> json) list" where
  "as_object j = (case j of
       Null \<Rightarrow> Inr []
     | Object ms \<Rightarrow> Inr ms
     | _ \<Rightarrow> Inl (type_error_create 305
          (''cannot use operator[] with a string argument with '' @ type_name j)))"

definition member :: "string \<Rightarrow> (string \<times> json) list \<Rightarrow> json" where
  "member k ms = (case map_of ms k of Some v \<Rightarrow> v | None \<Rightarrow> Null)"

lemma map_of_obj_update [simp]:
  "map_of (obj_update k v ms) k' = (if k' = k then Some v else map_of ms k')"
  by (induction ms) auto

lemma member_obj_update [simp]:
  "member k' (obj_update k v ms) = (if k' = k then v else member k' ms)"
  by (simp add: member_def)

lemma as_object_simps [simp]: "as_object (Object ms) = Inr ms" "as_object Null = Inr []"
  by (simp_all add: as_object_def)

text \<open>A chain \<^verbatim>\<open>j[k1][k2]...\<close> of index operators: the value it refers to, and \<open>j\<close> afterwards.\<close>

fun json_index :: "string list \<Rightarrow> json \<Rightarrow> (json, json) result" where
  "json_index [] j = returns j j"
| "json_index (k # ks) j = (case as_object j of
       Inl e \<Rightarrow> raises e j
     | Inr ms \<Rightarrow> (case json_index ks (member k ms) of (r, v) \<Rightarrow> (r, Object (obj_update k v ms))))"

section \<open>Conversions\<close>

text \<open>To \<^verbatim>\<open>int\<close>: integers are cut to 32 bits, and a boolean is a number.\<close>

definition not_a_number :: "json \<Rightarrow> error" where
  "not_a_number j = type_error_create 302 (''type must be number, but is '' @ type_name j)"

definition get_int :: "json \<Rightarrow> error + int" where
  "get_int j = (case j of
       Number_unsigned u \<Rightarrow> Inr (sint (ucast u :: 32 word))
     | Number_integer i \<Rightarrow> Inr (sint (ucast i :: 32 word))
     | Number_float x \<Rightarrow> cast_int x
     | Boolean b \<Rightarrow> Inr (if b then 1 else 0)
     | _ \<Rightarrow> Inl (not_a_number j))"

text \<open>To \<^verbatim>\<open>size_t\<close>: a negative integer becomes a large number.\<close>

definition get_size :: "json \<Rightarrow> error + nat" where
  "get_size j = (case j of
       Number_unsigned u \<Rightarrow> Inr (unat u)
     | Number_integer i \<Rightarrow> Inr (unat i)
     | Number_float x \<Rightarrow> (if 0 \<le> trunc x \<and> trunc x < 2 ^ 64 then Inr (nat (trunc x))
         else Inl (Undefined Bad_cast))
     | _ \<Rightarrow> Inl (not_a_number j))"

text \<open>To \<^verbatim>\<open>double\<close>: \<open>fl\<close> rounds an integer to the nearest value.\<close>

definition get_double :: "(rat \<Rightarrow> rat) \<Rightarrow> json \<Rightarrow> error + rat" where
  "get_double fl j = (case j of
       Number_unsigned u \<Rightarrow> Inr (fl (of_int (uint u)))
     | Number_integer i \<Rightarrow> Inr (fl (of_int (sint i)))
     | Number_float x \<Rightarrow> Inr x
     | _ \<Rightarrow> Inl (not_a_number j))"

definition get_string :: "json \<Rightarrow> error + string" where
  "get_string j = (case j of
       String s \<Rightarrow> Inr s
     | _ \<Rightarrow> Inl (type_error_create 302 (''type must be string, but is '' @ type_name j)))"

end
