(* ===== verification/JsonLexer.thy ===== *)
theory JsonLexer
  imports JsonValue
begin

text \<open>
  The lexical analysis of \<^verbatim>\<open>nlohmann/json.hpp\<close>: class \<^verbatim>\<open>lexer\<close> over the adapter of an input
  stream. A value of \<^verbatim>\<open>char_traits<char>::int_type\<close> is a character or the end of the file; the
  counters of the position count characters that have been read, and are natural numbers.
\<close>

unbundle bit_operations_syntax

section \<open>Tokens\<close>

datatype token_type =
    Uninitialized
  | Literal_true
  | Literal_false
  | Literal_null
  | Value_string
  | Value_unsigned
  | Value_integer
  | Value_float
  | Begin_array
  | Begin_object
  | End_array
  | End_object
  | Name_separator
  | Value_separator
  | Parse_error
  | End_of_input
  | Literal_or_value

definition token_type_name :: "token_type \<Rightarrow> string" where
  "token_type_name t = (case t of
       Uninitialized \<Rightarrow> ''<uninitialized>''
     | Literal_true \<Rightarrow> ''true literal''
     | Literal_false \<Rightarrow> ''false literal''
     | Literal_null \<Rightarrow> ''null literal''
     | Value_string \<Rightarrow> ''string literal''
     | Value_unsigned \<Rightarrow> ''number literal''
     | Value_integer \<Rightarrow> ''number literal''
     | Value_float \<Rightarrow> ''number literal''
     | Begin_array \<Rightarrow> [CHR 0x27] @ ''['' @ [CHR 0x27]
     | Begin_object \<Rightarrow> [CHR 0x27] @ ''{'' @ [CHR 0x27]
     | End_array \<Rightarrow> [CHR 0x27] @ '']'' @ [CHR 0x27]
     | End_object \<Rightarrow> [CHR 0x27] @ ''}'' @ [CHR 0x27]
     | Name_separator \<Rightarrow> [CHR 0x27] @ '':'' @ [CHR 0x27]
     | Value_separator \<Rightarrow> [CHR 0x27] @ '','' @ [CHR 0x27]
     | Parse_error \<Rightarrow> ''<parse error>''
     | End_of_input \<Rightarrow> ''end of input''
     | Literal_or_value \<Rightarrow>
         [CHR 0x27] @ ''['' @ [CHR 0x27] @ '', '' @ [CHR 0x27] @ ''{'' @ [CHR 0x27] @ '', or a literal'')"

section \<open>State\<close>

type_synonym char_int = "char option"

abbreviation eof :: char_int where
  "eof \<equiv> None"

text \<open>\<open>value_float\<close> is \<open>None\<close> when it is infinite.\<close>

record lexer =
  ia :: string
  ignore_comments :: bool
  current :: char_int
  next_unget :: bool
  position :: position_t
  token_string :: string
  token_buffer :: string
  error_message :: string
  value_integer :: "64 word"
  value_unsigned :: "64 word"
  value_float :: "rat option"
  decimal_point_char :: char

text \<open>The program never sets a locale, so the decimal point is that of the C locale.\<close>

definition lexer_ctor :: "string \<Rightarrow> bool \<Rightarrow> lexer" where
  "lexer_ctor adapter skip = \<lparr>ia = adapter, ignore_comments = skip,
     current = eof, next_unget = False,
     position = \<lparr>chars_read_total = 0, chars_read_current_line = 0, lines_read = 0\<rparr>,
     token_string = '''', token_buffer = '''', error_message = '''', value_integer = 0,
     value_unsigned = 0, value_float = Some 0, decimal_point_char = CHR ''.''\<rparr>"

section \<open>Input management\<close>

text \<open>The adapter of an input stream: at the end of the stream it returns the end of the file again.\<close>

definition get_character :: "string \<Rightarrow> char_int \<times> string" where
  "get_character sb = (case sb of [] \<Rightarrow> (eof, []) | c # cs \<Rightarrow> (Some c, cs))"

definition reset :: "lexer \<Rightarrow> lexer" where
  "reset l = l\<lparr>token_buffer := '''', token_string :=
     (case current l of None \<Rightarrow> [CHR 0xFF] | Some c \<Rightarrow> [c])\<rparr>"

definition get :: "lexer \<Rightarrow> lexer" where
  "get l =
     (let p = position l;
          l = l\<lparr>position := p\<lparr>chars_read_total := chars_read_total p + 1,
                chars_read_current_line := chars_read_current_line p + 1\<rparr>\<rparr>;
          l = (if next_unget l then l\<lparr>next_unget := False\<rparr>
               else (case get_character (ia l) of (c, sb) \<Rightarrow> l\<lparr>current := c, ia := sb\<rparr>));
          l = (case current l of None \<Rightarrow> l | Some c \<Rightarrow> l\<lparr>token_string := token_string l @ [c]\<rparr>)
      in if current l = Some (CHR 0x0A)
         then l\<lparr>position := (position l)\<lparr>lines_read := lines_read (position l) + 1,
                chars_read_current_line := 0\<rparr>\<rparr>
         else l)"

definition unget :: "lexer \<Rightarrow> lexer" where
  "unget l =
     (let p = position l;
          p = p\<lparr>chars_read_total := chars_read_total p - 1\<rparr>;
          p = (if chars_read_current_line p = 0
               then (if 0 < lines_read p then p\<lparr>lines_read := lines_read p - 1\<rparr> else p)
               else p\<lparr>chars_read_current_line := chars_read_current_line p - 1\<rparr>);
          l = l\<lparr>next_unget := True, position := p\<rparr>
      in if current l \<noteq> eof then l\<lparr>token_string := butlast (token_string l)\<rparr> else l)"

definition add :: "char \<Rightarrow> lexer \<Rightarrow> lexer" where
  "add c l = l\<lparr>token_buffer := token_buffer l @ [c]\<rparr>"

text \<open>\<^verbatim>\<open>add(current)\<close>, which is only called when \<^verbatim>\<open>current\<close> is a character.\<close>

definition add_current :: "lexer \<Rightarrow> lexer" where
  "add_current l = add (the (current l)) l"

definition fail :: "string \<Rightarrow> lexer \<Rightarrow> token_type \<times> lexer" where
  "fail m l = (Parse_error, l\<lparr>error_message := m\<rparr>)"

text \<open>\<^verbatim>\<open>lo <= current && current <= hi\<close>; the end of the file is below every character.\<close>

definition between :: "int \<Rightarrow> int \<Rightarrow> char_int \<Rightarrow> bool" where
  "between lo hi c = (case c of None \<Rightarrow> False | Some c \<Rightarrow> lo \<le> of_char c \<and> of_char c \<le> hi)"

section \<open>Strings\<close>

definition hex_digit :: "char_int \<Rightarrow> int option" where
  "hex_digit c = (let n = (case c of None \<Rightarrow> 0 | Some c \<Rightarrow> of_char c) in
     if between 0x30 0x39 c then Some (n - 0x30)
     else if between 0x41 0x46 c then Some (n - 0x37)
     else if between 0x61 0x66 c then Some (n - 0x57)
     else None)"

fun get_codepoint_loop :: "nat list \<Rightarrow> int \<Rightarrow> lexer \<Rightarrow> int option \<times> lexer" where
  "get_codepoint_loop [] codepoint l = (Some codepoint, l)"
| "get_codepoint_loop (factor # factors) codepoint l =
     (let l = get l in case hex_digit (current l) of
        None \<Rightarrow> (None, l)
      | Some d \<Rightarrow> get_codepoint_loop factors (codepoint + push_bit factor d) l)"

text \<open>The result \<open>None\<close> is the -1 of the code.\<close>

definition get_codepoint :: "lexer \<Rightarrow> int option \<times> lexer" where
  "get_codepoint l = get_codepoint_loop [12, 8, 4, 0] 0 l"

fun bytes_in_range :: "(int \<times> int) list \<Rightarrow> lexer \<Rightarrow> bool \<times> lexer" where
  "bytes_in_range [] l = (True, l)"
| "bytes_in_range ((lo, hi) # ranges) l =
     (let l = get l in
      if between lo hi (current l) then bytes_in_range ranges (add_current l)
      else (False, l\<lparr>error_message := ''invalid string: ill-formed UTF-8 byte''\<rparr>))"

definition next_byte_in_range :: "(int \<times> int) list \<Rightarrow> lexer \<Rightarrow> bool \<times> lexer" where
  "next_byte_in_range ranges l = bytes_in_range ranges (add_current l)"

definition backslash_u :: string where
  "backslash_u = CHR 0x27 # CHR 0x5C # ''u'' @ [CHR 0x27]"

text \<open>The bytes of a code point.\<close>

definition codepoint_bytes :: "int \<Rightarrow> string" where
  "codepoint_bytes codepoint =
     (if codepoint < 0x80 then [char_of codepoint]
      else if codepoint \<le> 0x7FF then
        [char_of (0xC0 OR drop_bit 6 codepoint), char_of (0x80 OR (codepoint AND 0x3F))]
      else if codepoint \<le> 0xFFFF then
        [char_of (0xE0 OR drop_bit 12 codepoint), char_of (0x80 OR (drop_bit 6 codepoint AND 0x3F)),
         char_of (0x80 OR (codepoint AND 0x3F))]
      else
        [char_of (0xF0 OR drop_bit 18 codepoint), char_of (0x80 OR (drop_bit 12 codepoint AND 0x3F)),
         char_of (0x80 OR (drop_bit 6 codepoint AND 0x3F)), char_of (0x80 OR (codepoint AND 0x3F))])"

definition add_all :: "string \<Rightarrow> lexer \<Rightarrow> lexer" where
  "add_all cs l = fold add cs l"

text \<open>
  The branches of the switch of \<^verbatim>\<open>scan_string\<close> return a token, or \<open>None\<close> to go on with the loop.
\<close>

definition fail_string :: "string \<Rightarrow> lexer \<Rightarrow> token_type option \<times> lexer" where
  "fail_string m l = (Some Parse_error, l\<lparr>error_message := ''invalid string: '' @ m\<rparr>)"

definition low_surrogate :: "int \<Rightarrow> lexer \<Rightarrow> token_type option \<times> lexer" where
  "low_surrogate codepoint1 l =
     (let must_follow = ''surrogate U+D800..U+DBFF must be followed by U+DC00..U+DFFF'';
          l = get l
      in if current l \<noteq> Some (CHR 0x5C) then fail_string must_follow l else
      let l = get l in
      if current l \<noteq> Some (CHR ''u'') then fail_string must_follow l else
      (case get_codepoint l of
         (None, l) \<Rightarrow> fail_string (backslash_u @ '' must be followed by 4 hex digits'') l
       | (Some codepoint2, l) \<Rightarrow>
           if 0xDC00 \<le> codepoint2 \<and> codepoint2 \<le> 0xDFFF
           then (None, add_all (codepoint_bytes
                   (push_bit 10 codepoint1 + codepoint2 - 0x35FDC00)) l)
           else fail_string must_follow l))"

definition unicode_escape :: "lexer \<Rightarrow> token_type option \<times> lexer" where
  "unicode_escape l = (case get_codepoint l of
       (None, l) \<Rightarrow> fail_string (backslash_u @ '' must be followed by 4 hex digits'') l
     | (Some codepoint1, l) \<Rightarrow>
         if 0xD800 \<le> codepoint1 \<and> codepoint1 \<le> 0xDBFF then low_surrogate codepoint1 l
         else if 0xDC00 \<le> codepoint1 \<and> codepoint1 \<le> 0xDFFF
         then fail_string ''surrogate U+DC00..U+DFFF must follow U+D800..U+DBFF'' l
         else (None, add_all (codepoint_bytes codepoint1) l))"

definition scan_escape :: "lexer \<Rightarrow> token_type option \<times> lexer" where
  "scan_escape l =
     (let l = get l in
      if current l = Some (CHR 0x22) then (None, add (CHR 0x22) l)
      else if current l = Some (CHR 0x5C) then (None, add (CHR 0x5C) l)
      else if current l = Some (CHR ''/'') then (None, add (CHR ''/'') l)
      else if current l = Some (CHR ''b'') then (None, add (CHR 0x08) l)
      else if current l = Some (CHR ''f'') then (None, add (CHR 0x0C) l)
      else if current l = Some (CHR ''n'') then (None, add (CHR 0x0A) l)
      else if current l = Some (CHR ''r'') then (None, add (CHR 0x0D) l)
      else if current l = Some (CHR ''t'') then (None, add (CHR 0x09) l)
      else if current l = Some (CHR ''u'') then unicode_escape l
      else fail_string ''forbidden character after backslash'' l)"

text \<open>The control characters, which must be escaped: number, name, and short escape, if any.\<close>

definition controls_low :: "(string \<times> string \<times> string) list" where
  "controls_low =
     [(''0000'', ''NUL'', ''''), (''0001'', ''SOH'', ''''), (''0002'', ''STX'', ''''),
      (''0003'', ''ETX'', ''''), (''0004'', ''EOT'', ''''), (''0005'', ''ENQ'', ''''),
      (''0006'', ''ACK'', ''''), (''0007'', ''BEL'', ''''), (''0008'', ''BS'', ''b''),
      (''0009'', ''HT'', ''t''), (''000A'', ''LF'', ''n''), (''000B'', ''VT'', ''''),
      (''000C'', ''FF'', ''f''), (''000D'', ''CR'', ''r''), (''000E'', ''SO'', ''''),
      (''000F'', ''SI'', '''')]"

definition controls_high :: "(string \<times> string \<times> string) list" where
  "controls_high =
     [(''0010'', ''DLE'', ''''), (''0011'', ''DC1'', ''''), (''0012'', ''DC2'', ''''),
      (''0013'', ''DC3'', ''''), (''0014'', ''DC4'', ''''), (''0015'', ''NAK'', ''''),
      (''0016'', ''SYN'', ''''), (''0017'', ''ETB'', ''''), (''0018'', ''CAN'', ''''),
      (''0019'', ''EM'', ''''), (''001A'', ''SUB'', ''''), (''001B'', ''ESC'', ''''),
      (''001C'', ''FS'', ''''), (''001D'', ''GS'', ''''), (''001E'', ''RS'', ''''),
      (''001F'', ''US'', '''')]"

definition control_message :: "string \<times> string \<times> string \<Rightarrow> string" where
  "control_message x = (case x of (code, abbr, short) \<Rightarrow>
     ''control character U+'' @ code @ '' ('' @ abbr @ '') must be escaped to '' @ CHR 0x5C # ''u'' @ code @
     (if short = '''' then '''' else '' or '' @ CHR 0x5C # short))"

text \<open>
  The tails of a sequence of several bytes by its first byte; \<open>None\<close> when the byte starts none.
\<close>

definition utf8_tail :: "char_int \<Rightarrow> (int \<times> int) list option" where
  "utf8_tail c =
     (if between 0xC2 0xDF c then Some [(0x80, 0xBF)]
      else if between 0xE0 0xE0 c then Some [(0xA0, 0xBF), (0x80, 0xBF)]
      else if between 0xE1 0xEC c \<or> between 0xEE 0xEF c then Some [(0x80, 0xBF), (0x80, 0xBF)]
      else if between 0xED 0xED c then Some [(0x80, 0x9F), (0x80, 0xBF)]
      else if between 0xF0 0xF0 c then Some [(0x90, 0xBF), (0x80, 0xBF), (0x80, 0xBF)]
      else if between 0xF1 0xF3 c then Some [(0x80, 0xBF), (0x80, 0xBF), (0x80, 0xBF)]
      else if between 0xF4 0xF4 c then Some [(0x80, 0x8F), (0x80, 0xBF), (0x80, 0xBF)]
      else None)"

definition scan_utf8 :: "lexer \<Rightarrow> token_type option \<times> lexer" where
  "scan_utf8 l = (case utf8_tail (current l) of
       None \<Rightarrow> fail_string ''ill-formed UTF-8 byte'' l
     | Some ranges \<Rightarrow> (case next_byte_in_range ranges l of
          (True, l) \<Rightarrow> (None, l)
        | (False, l) \<Rightarrow> (Some Parse_error, l)))"

text \<open>One pass of the loop.\<close>

definition scan_string_step :: "lexer \<Rightarrow> token_type option \<times> lexer" where
  "scan_string_step l =
     (let l = get l in case current l of
        None \<Rightarrow> fail_string ''missing closing quote'' l
      | Some c \<Rightarrow>
          if c = CHR 0x22 then (Some Value_string, l)
          else if c = CHR 0x5C then scan_escape l
          else if (of_char c :: int) < 0x10
          then fail_string (control_message (controls_low ! of_char c)) l
          else if (of_char c :: int) < 0x20
          then fail_string (control_message (controls_high ! (of_char c - 0x10))) l
          else if (of_char c :: int) < 0x80 then (None, add_current l)
          else scan_utf8 l)"

section \<open>Progress\<close>

text \<open>
  The input that is still to be read: every character \<^verbatim>\<open>get\<close> returns is taken off it.
\<close>

definition pending_input :: "lexer \<Rightarrow> string" where
  "pending_input l = (if next_unget l then (case current l of None \<Rightarrow> [] | Some c \<Rightarrow> [c]) else []) @ ia l"

abbreviation remaining :: "lexer \<Rightarrow> nat" where
  "remaining l \<equiv> length (pending_input l)"

named_theorems lexer_frame

lemma get_fields [lexer_frame]:
  "next_unget (get l) = False"
  "current (get l) = (if next_unget l then current l else fst (get_character (ia l)))"
  "ia (get l) = (if next_unget l then ia l else snd (get_character (ia l)))"
  "token_buffer (get l) = token_buffer l"
  "ignore_comments (get l) = ignore_comments l"
  "decimal_point_char (get l) = decimal_point_char l"
  by (simp_all add: get_def Let_def split: prod.splits option.splits)

lemma unget_fields [lexer_frame]:
  "next_unget (unget l) = True" "current (unget l) = current l" "ia (unget l) = ia l"
  "token_buffer (unget l) = token_buffer l" "ignore_comments (unget l) = ignore_comments l"
  "decimal_point_char (unget l) = decimal_point_char l"
  by (simp_all add: unget_def Let_def)

lemma add_fields [lexer_frame]:
  "next_unget (add c l) = next_unget l" "current (add c l) = current l" "ia (add c l) = ia l"
  "token_buffer (add c l) = token_buffer l @ [c]" "ignore_comments (add c l) = ignore_comments l"
  "decimal_point_char (add c l) = decimal_point_char l" "position (add c l) = position l"
  by (simp_all add: add_def)

lemma add_current_fields [lexer_frame]:
  "next_unget (add_current l) = next_unget l" "current (add_current l) = current l"
  "ia (add_current l) = ia l" "token_buffer (add_current l) = token_buffer l @ [the (current l)]"
  "ignore_comments (add_current l) = ignore_comments l"
  "decimal_point_char (add_current l) = decimal_point_char l" "position (add_current l) = position l"
  by (simp_all add: add_current_def lexer_frame)

lemma reset_fields [lexer_frame]:
  "next_unget (reset l) = next_unget l" "current (reset l) = current l" "ia (reset l) = ia l"
  "token_buffer (reset l) = ''''" "ignore_comments (reset l) = ignore_comments l"
  "decimal_point_char (reset l) = decimal_point_char l" "position (reset l) = position l"
  by (simp_all add: reset_def)

lemma remaining_add [simp]:
  "pending_input (add c l) = pending_input l" "pending_input (add_current l) = pending_input l"
  "pending_input (reset l) = pending_input l"
  "pending_input (l\<lparr>error_message := m\<rparr>) = pending_input l"
  by (simp_all add: pending_input_def lexer_frame)

lemma remaining_get: "remaining (get l) \<le> remaining l"
  by (simp add: pending_input_def lexer_frame get_character_def split: list.splits)

lemma remaining_get_char: "current (get l) = Some c \<Longrightarrow> Suc (remaining (get l)) = remaining l"
  by (auto simp: pending_input_def lexer_frame get_character_def split: list.splits if_splits)

lemma remaining_unget: "remaining (unget (get l)) \<le> remaining l"
  by (cases "current (get l)")
    (auto simp: pending_input_def lexer_frame get_character_def split: list.splits if_splits)

lemma remaining_add_all [simp]: "pending_input (add_all cs l) = pending_input l"
  unfolding add_all_def by (induction cs arbitrary: l) simp_all

lemma remaining_get_codepoint_loop: "remaining (snd (get_codepoint_loop fs n l)) \<le> remaining l"
proof (induction fs arbitrary: n l)
  case (Cons f fs)
  from Cons [of _ "get l"] remaining_get [of l] show ?case
    by (auto simp: Let_def split: option.split intro: le_trans)
qed simp

lemma remaining_get_codepoint: "get_codepoint l = (r, l') \<Longrightarrow> remaining l' \<le> remaining l"
  using remaining_get_codepoint_loop [of "[12, 8, 4, 0]" 0 l] by (simp add: get_codepoint_def)

lemma remaining_bytes_in_range: "remaining (snd (bytes_in_range rs l)) \<le> remaining l"
proof (induction rs l rule: bytes_in_range.induct)
  case (2 lo hi rs l)
  with remaining_get [of l] show ?case by (auto simp: Let_def intro: le_trans)
qed simp

lemma fail_string_remaining [simp]: "pending_input (snd (fail_string m l)) = pending_input l"
  by (simp add: fail_string_def)

lemma remaining_low_surrogate: "remaining (snd (low_surrogate n l)) \<le> remaining l"
proof -
  obtain r l' where c: "get_codepoint (get (get l)) = (r, l')" by fastforce
  from remaining_get_codepoint [OF c] remaining_get [of "get l"] remaining_get [of l]
  show ?thesis by (simp add: low_surrogate_def Let_def c split: option.split)
qed

lemma remaining_unicode_escape: "remaining (snd (unicode_escape l)) \<le> remaining l"
proof -
  obtain r l' where c: "get_codepoint l = (r, l')" by fastforce
  have "remaining (snd (low_surrogate n l')) \<le> remaining l" for n
    using remaining_low_surrogate [of n l'] remaining_get_codepoint [OF c] by simp
  with remaining_get_codepoint [OF c] show ?thesis
    by (simp add: unicode_escape_def c split: option.split)
qed

lemma remaining_scan_escape: "remaining (snd (scan_escape l)) \<le> remaining l"
  using remaining_get [of l] remaining_unicode_escape [of "get l"]
  by (simp add: scan_escape_def Let_def)

lemma remaining_scan_utf8: "remaining (snd (scan_utf8 l)) \<le> remaining l"
proof (cases "utf8_tail (current l)")
  case (Some rs)
  obtain b l' where c: "bytes_in_range rs (add_current l) = (b, l')" by fastforce
  with remaining_bytes_in_range [of rs "add_current l"] Some show ?thesis
    by (simp add: scan_utf8_def next_byte_in_range_def split: bool.split)
qed (simp add: scan_utf8_def)

lemma remaining_string_step: "remaining (snd (scan_string_step l)) \<le> remaining l"
  using remaining_get [of l] remaining_scan_escape [of "get l"] remaining_scan_utf8 [of "get l"]
  by (auto simp: scan_string_step_def Let_def split: option.split)

lemma progress_string_step:
  assumes "scan_string_step l = (None, l')"
  shows "remaining l' < remaining l"
proof (cases "current (get l)")
  case None
  with assms show ?thesis by (simp add: scan_string_step_def fail_string_def)
next
  case (Some c)
  have "remaining l' \<le> remaining (get l)"
    using assms Some remaining_scan_escape [of "get l"] remaining_scan_utf8 [of "get l"]
    by (auto simp: scan_string_step_def Let_def fail_string_def split: if_splits)
  with remaining_get_char [OF Some] show ?thesis by simp
qed

end
