(* ===== verification/JsonScanner.thy ===== *)
theory JsonScanner
  imports JsonLexer
begin

text \<open>
  The scanning functions of class \<^verbatim>\<open>lexer\<close> in \<^verbatim>\<open>nlohmann/json.hpp\<close>: strings, comments, numbers,
  literals, and \<^verbatim>\<open>scan\<close> itself. Every loop ends because it reads a character in each pass.
\<close>

section \<open>Strings and comments\<close>

function scan_string_loop :: "lexer \<Rightarrow> token_type \<times> lexer" where
  "scan_string_loop l = (case scan_string_step l of
       (Some t, l) \<Rightarrow> (t, l)
     | (None, l) \<Rightarrow> scan_string_loop l)"
  by pat_completeness auto
termination
  by (relation "measure remaining") (simp_all add: progress_string_step)

declare scan_string_loop.simps [simp del]

definition scan_string :: "lexer \<Rightarrow> token_type \<times> lexer" where
  "scan_string l = scan_string_loop (reset l)"

function line_comment :: "lexer \<Rightarrow> lexer" where
  "line_comment l = (let l = get l in
     if current l \<in> {Some (CHR 0x0A), Some (CHR 0x0D), eof, Some (CHR 0x00)} then l
     else line_comment l)"
  by pat_completeness auto
termination
proof (relation "measure remaining")
  fix l x assume "x = get l" "current x \<notin> {Some (CHR 0x0A), Some (CHR 0x0D), eof, Some (CHR 0x00)}"
  then obtain c where "current (get l) = Some c" by auto
  from remaining_get_char [OF this] \<open>x = get l\<close> show "(x, l) \<in> measure remaining" by simp
qed simp

declare line_comment.simps [simp del]

definition unterminated_comment :: string where
  "unterminated_comment = ''invalid comment; missing closing '' @ CHR 0x27 # ''*/'' @ [CHR 0x27]"

function block_comment :: "lexer \<Rightarrow> bool \<times> lexer" where
  "block_comment l = (let l = get l in
     if current l = eof \<or> current l = Some (CHR 0x00)
     then (False, l\<lparr>error_message := unterminated_comment\<rparr>)
     else if current l = Some (CHR ''*'')
     then (let l = get l in
           if current l = Some (CHR ''/'') then (True, l) else block_comment (unget l))
     else block_comment l)"
  by pat_completeness auto
termination
proof (relation "measure remaining")
  fix l x
  assume x: "x = get l" "\<not> (current x = eof \<or> current x = Some (CHR 0x00))"
  then obtain c where "current (get l) = Some c" by auto
  from remaining_get_char [OF this] x have lt: "remaining x < remaining l" by simp
  then show "(x, l) \<in> measure remaining" by simp
  fix y assume "y = get x"
  with lt remaining_unget [of x] show "(unget y, l) \<in> measure remaining" by simp
qed simp

declare block_comment.simps [simp del]

definition scan_comment :: "lexer \<Rightarrow> bool \<times> lexer" where
  "scan_comment l = (let l = get l in
     if current l = Some (CHR ''/'') then (True, line_comment l)
     else if current l = Some (CHR ''*'') then block_comment l
     else (False, l\<lparr>error_message := ''invalid comment; expecting '' @ CHR 0x27 # ''/'' @ CHR 0x27 #
       '' or '' @ CHR 0x27 # ''*'' @ CHR 0x27 # '' after '' @ CHR 0x27 # ''/'' @ [CHR 0x27]\<rparr>))"

section \<open>Numbers\<close>

text \<open>
  The conversions of the standard library, on a buffer that holds a number; \<open>None\<close> is the error
  \<^verbatim>\<open>ERANGE\<close> of the integers and infinity of the floating point numbers, which are rounded by \<open>fl\<close>.
\<close>

definition digits_value :: "string \<Rightarrow> int" where
  "digits_value s = foldl (\<lambda>n c. 10 * n + (of_char c - 0x30)) 0 (takeWhile is_digit s)"

definition strtoull :: "string \<Rightarrow> int option" where
  "strtoull s = (let n = digits_value s in if n < 2 ^ 64 then Some n else None)"

definition strtoll :: "string \<Rightarrow> int option" where
  "strtoll s = (case sign_of s of (neg, ds) \<Rightarrow>
     let n = digits_value ds; i = (if neg then - n else n)
     in if - (2 ^ 63) \<le> i \<and> i < 2 ^ 63 then Some i else None)"

definition decimal_exponent :: "string \<Rightarrow> int" where
  "decimal_exponent s = (case s of
       [] \<Rightarrow> 0
     | c # cs \<Rightarrow> if c = CHR ''e'' \<or> c = CHR ''E'' then
         (case sign_of cs of (neg, ds) \<Rightarrow>
            let n = digits_value ds in if neg then - n else n)
         else 0)"

definition decimal_value :: "string \<Rightarrow> rat" where
  "decimal_value s = (case sign_of s of (neg, s) \<Rightarrow>
     let whole = takeWhile is_digit s;
         s = dropWhile is_digit s;
         fraction = (case s of c # cs \<Rightarrow> if c = CHR ''.'' then takeWhile is_digit cs else '''' | [] \<Rightarrow> '''');
         s = (if fraction = '''' then s else drop (Suc (length fraction)) s);
         x = of_int (digits_value (whole @ fraction)) *
             10 powi (decimal_exponent s - int (length fraction))
     in if neg then - x else x)"

definition strtod :: "(rat \<Rightarrow> rat) \<Rightarrow> string \<Rightarrow> rat option" where
  "strtod fl s = (let x = decimal_value s in
     if 2 ^ 1024 - 2 ^ 970 \<le> \<bar>x\<bar> then None else Some (fl x))"

definition scan_float :: "(rat \<Rightarrow> rat) \<Rightarrow> lexer \<Rightarrow> token_type \<times> lexer" where
  "scan_float fl l = (Value_float, l\<lparr>value_float := strtod fl (token_buffer l)\<rparr>)"

definition scan_number_done :: "(rat \<Rightarrow> rat) \<Rightarrow> token_type \<Rightarrow> lexer \<Rightarrow> token_type \<times> lexer" where
  "scan_number_done fl number_type l =
     (let l = unget l
      in if number_type = Value_unsigned then
           (case strtoull (token_buffer l) of
              Some x \<Rightarrow> (Value_unsigned, l\<lparr>value_unsigned := word_of_int x\<rparr>)
            | None \<Rightarrow> scan_float fl l)
         else if number_type = Value_integer then
           (case strtoll (token_buffer l) of
              Some x \<Rightarrow> (Value_integer, l\<lparr>value_integer := word_of_int x\<rparr>)
            | None \<Rightarrow> scan_float fl l)
         else scan_float fl l)"

text \<open>One function for every label, in the reverse order of the labels.\<close>

abbreviation digit_char :: "char_int \<Rightarrow> bool" where
  "digit_char c \<equiv> between 0x30 0x39 c"

abbreviation exponent_char :: "char_int \<Rightarrow> bool" where
  "exponent_char c \<equiv> c = Some (CHR ''e'') \<or> c = Some (CHR ''E'')"

lemma between_remaining: "between lo hi (current (get l)) \<Longrightarrow> remaining (get l) < remaining l"
  using remaining_get_char [of l] by (auto simp: between_def split: option.splits)

definition expected_digit :: "string \<Rightarrow> string" where
  "expected_digit place = ''invalid number; expected '' @ place"

function scan_number_any2 :: "(rat \<Rightarrow> rat) \<Rightarrow> token_type \<Rightarrow> lexer \<Rightarrow> token_type \<times> lexer" where
  "scan_number_any2 fl number_type l = (let l = get l in
     if digit_char (current l) then scan_number_any2 fl number_type (add_current l)
     else scan_number_done fl number_type l)"
  by pat_completeness auto
termination
  by (relation "measure (\<lambda>(fl, t, l). remaining l)") (simp_all add: between_remaining)

declare scan_number_any2.simps [simp del]

definition scan_number_sign :: "(rat \<Rightarrow> rat) \<Rightarrow> token_type \<Rightarrow> lexer \<Rightarrow> token_type \<times> lexer" where
  "scan_number_sign fl number_type l = (let l = get l in
     if digit_char (current l) then scan_number_any2 fl number_type (add_current l)
     else fail (expected_digit ''digit after exponent sign'') l)"

definition scan_number_exponent :: "(rat \<Rightarrow> rat) \<Rightarrow> lexer \<Rightarrow> token_type \<times> lexer" where
  "scan_number_exponent fl l = (let number_type = Value_float; l = get l in
     if current l = Some (CHR ''+'') \<or> current l = Some (CHR ''-'')
     then scan_number_sign fl number_type (add_current l)
     else if digit_char (current l) then scan_number_any2 fl number_type (add_current l)
     else fail (expected_digit (CHR 0x27 # ''+'' @ CHR 0x27 # '', '' @ CHR 0x27 # ''-'' @ CHR 0x27 #
       '', or digit after exponent'')) l)"

function scan_number_decimal2 :: "(rat \<Rightarrow> rat) \<Rightarrow> token_type \<Rightarrow> lexer \<Rightarrow> token_type \<times> lexer" where
  "scan_number_decimal2 fl number_type l = (let l = get l in
     if digit_char (current l) then scan_number_decimal2 fl number_type (add_current l)
     else if exponent_char (current l) then scan_number_exponent fl (add_current l)
     else scan_number_done fl number_type l)"
  by pat_completeness auto
termination
  by (relation "measure (\<lambda>(fl, t, l). remaining l)") (simp_all add: between_remaining)

declare scan_number_decimal2.simps [simp del]

definition scan_number_decimal1 :: "(rat \<Rightarrow> rat) \<Rightarrow> lexer \<Rightarrow> token_type \<times> lexer" where
  "scan_number_decimal1 fl l = (let number_type = Value_float; l = get l in
     if digit_char (current l) then scan_number_decimal2 fl number_type (add_current l)
     else fail (expected_digit (''digit after '' @ CHR 0x27 # ''.'' @ [CHR 0x27])) l)"

function scan_number_any1 :: "(rat \<Rightarrow> rat) \<Rightarrow> token_type \<Rightarrow> lexer \<Rightarrow> token_type \<times> lexer" where
  "scan_number_any1 fl number_type l = (let l = get l in
     if digit_char (current l) then scan_number_any1 fl number_type (add_current l)
     else if current l = Some (CHR ''.'') then scan_number_decimal1 fl (add (decimal_point_char l) l)
     else if exponent_char (current l) then scan_number_exponent fl (add_current l)
     else scan_number_done fl number_type l)"
  by pat_completeness auto
termination
  by (relation "measure (\<lambda>(fl, t, l). remaining l)") (simp_all add: between_remaining)

declare scan_number_any1.simps [simp del]

definition scan_number_zero :: "(rat \<Rightarrow> rat) \<Rightarrow> token_type \<Rightarrow> lexer \<Rightarrow> token_type \<times> lexer" where
  "scan_number_zero fl number_type l = (let l = get l in
     if current l = Some (CHR ''.'') then scan_number_decimal1 fl (add (decimal_point_char l) l)
     else if exponent_char (current l) then scan_number_exponent fl (add_current l)
     else scan_number_done fl number_type l)"

definition scan_number_minus :: "(rat \<Rightarrow> rat) \<Rightarrow> lexer \<Rightarrow> token_type \<times> lexer" where
  "scan_number_minus fl l = (let number_type = Value_integer; l = get l in
     if current l = Some (CHR ''0'') then scan_number_zero fl number_type (add_current l)
     else if between 0x31 0x39 (current l) then scan_number_any1 fl number_type (add_current l)
     else fail (expected_digit (''digit after '' @ CHR 0x27 # ''-'' @ [CHR 0x27])) l)"

definition scan_number :: "(rat \<Rightarrow> rat) \<Rightarrow> lexer \<Rightarrow> token_type \<times> lexer" where
  "scan_number fl l = (let l = reset l; number_type = Value_unsigned in
     if current l = Some (CHR ''-'') then scan_number_minus fl (add_current l)
     else if current l = Some (CHR ''0'') then scan_number_zero fl number_type (add_current l)
     else scan_number_any1 fl number_type (add_current l))"

section \<open>Literals\<close>

fun literal_rest :: "string \<Rightarrow> token_type \<Rightarrow> lexer \<Rightarrow> token_type \<times> lexer" where
  "literal_rest [] return_type l = (return_type, l)"
| "literal_rest (c # cs) return_type l = (let l = get l in
     if current l \<noteq> Some c then fail ''invalid literal'' l else literal_rest cs return_type l)"

definition scan_literal :: "string \<Rightarrow> token_type \<Rightarrow> lexer \<Rightarrow> token_type \<times> lexer" where
  "scan_literal literal_text return_type l = literal_rest (tl literal_text) return_type l"

section \<open>The scanner\<close>

definition skip_bom :: "lexer \<Rightarrow> bool \<times> lexer" where
  "skip_bom l = (let l = get l in
     if current l = Some (CHR 0xEF) then
       (let l = get l in
        if current l = Some (CHR 0xBB) then
          (let l = get l in (current l = Some (CHR 0xBF), l))
        else (False, l))
     else (True, unget l))"

definition is_whitespace :: "char_int \<Rightarrow> bool" where
  "is_whitespace c \<longleftrightarrow>
     c = Some (CHR '' '') \<or> c = Some (CHR 0x09) \<or> c = Some (CHR 0x0A) \<or> c = Some (CHR 0x0D)"

lemma whitespace_remaining: "is_whitespace (current (get l)) \<Longrightarrow> remaining (get l) < remaining l"
  using remaining_get_char [of l] by (auto simp: is_whitespace_def)

function skip_whitespace :: "lexer \<Rightarrow> lexer" where
  "skip_whitespace l = (let l = get l in if is_whitespace (current l) then skip_whitespace l else l)"
  by pat_completeness auto
termination
  by (relation "measure remaining") (simp_all add: whitespace_remaining)

declare skip_whitespace.simps [simp del]

lemma remaining_line_comment: "remaining (line_comment l) \<le> remaining l"
proof (induction l rule: line_comment.induct)
  case (1 l)
  with remaining_get [of l] show ?case
    by (simp add: line_comment.simps [of l] Let_def) (meson le_trans)
qed

lemma remaining_block_comment: "remaining (snd (block_comment l)) \<le> remaining l"
proof (induction l rule: block_comment.induct)
  case (1 l)
  note IH = "1.IH" [OF refl]
  consider "current (get l) = eof \<or> current (get l) = Some (CHR 0x00)"
    | "current (get l) = Some (CHR ''*'')" "current (get (get l)) = Some (CHR ''/'')"
    | "current (get l) = Some (CHR ''*'')" "current (get (get l)) \<noteq> Some (CHR ''/'')"
    | "current (get l) \<noteq> eof" "current (get l) \<noteq> Some (CHR 0x00)" "current (get l) \<noteq> Some (CHR ''*'')"
    by blast
  then show ?case
  proof cases
    case 1
    with remaining_get [of l] show ?thesis by (simp add: block_comment.simps [of l] Let_def)
  next
    case 2
    with remaining_get [of l] remaining_get [of "get l"] show ?thesis
      by (simp add: block_comment.simps [of l] Let_def)
  next
    case 3
    with IH(1) [OF _ _ refl] remaining_get [of l] remaining_unget [of "get l"] show ?thesis
      by (simp add: block_comment.simps [of l] Let_def)
  next
    case 4
    with IH(2) remaining_get [of l] show ?thesis
      by (simp add: block_comment.simps [of l] Let_def)
  qed
qed

lemma remaining_scan_comment: "remaining (snd (scan_comment l)) \<le> remaining l"
  using remaining_get [of l] remaining_line_comment [of "get l"] remaining_block_comment [of "get l"]
  by (simp add: scan_comment_def Let_def)

lemma skip_whitespace_progress:
  "remaining (skip_whitespace l) \<le> remaining l \<and>
   (current (skip_whitespace l) \<noteq> eof \<longrightarrow> remaining (skip_whitespace l) < remaining l)"
proof (induction l rule: skip_whitespace.induct)
  case (1 l)
  show ?case
  proof (cases "is_whitespace (current (get l))")
    case True
    with 1 [OF refl] whitespace_remaining [OF True] show ?thesis
      by (simp add: skip_whitespace.simps [of l] Let_def)
  next
    case False
    with remaining_get [of l] remaining_get_char [of l] show ?thesis
      by (auto simp: skip_whitespace.simps [of l] Let_def)
  qed
qed

definition comment_measure :: "lexer \<Rightarrow> nat" where
  "comment_measure l = 2 * remaining l + (if current l = Some (CHR ''/'') then 1 else 0)"

lemma comment_measure_decreases:
  assumes "scan_comment l = (b, l')" "current l = Some (CHR ''/'')"
  shows "comment_measure (skip_whitespace l') < comment_measure l"
  using assms skip_whitespace_progress [of l'] remaining_scan_comment [of l]
  by (auto simp: comment_measure_def)

function skip_comments :: "lexer \<Rightarrow> bool \<times> lexer" where
  "skip_comments l =
     (if ignore_comments l \<and> current l = Some (CHR ''/'') then
        (case scan_comment l of
           (False, l) \<Rightarrow> (False, l)
         | (True, l) \<Rightarrow> skip_comments (skip_whitespace l))
      else (True, l))"
  by pat_completeness auto
termination
  by (relation "measure comment_measure")
    (simp_all, metis comment_measure_decreases)

declare skip_comments.simps [simp del]

definition scan_token :: "(rat \<Rightarrow> rat) \<Rightarrow> lexer \<Rightarrow> token_type \<times> lexer" where
  "scan_token fl l =
     (if current l = Some (CHR ''['') then (Begin_array, l)
      else if current l = Some (CHR '']'') then (End_array, l)
      else if current l = Some (CHR ''{'') then (Begin_object, l)
      else if current l = Some (CHR ''}'') then (End_object, l)
      else if current l = Some (CHR '':'') then (Name_separator, l)
      else if current l = Some (CHR '','') then (Value_separator, l)
      else if current l = Some (CHR ''t'') then scan_literal ''true'' Literal_true l
      else if current l = Some (CHR ''f'') then scan_literal ''false'' Literal_false l
      else if current l = Some (CHR ''n'') then scan_literal ''null'' Literal_null l
      else if current l = Some (CHR 0x22) then scan_string l
      else if current l = Some (CHR ''-'') \<or> between 0x30 0x39 (current l) then scan_number fl l
      else if current l = Some (CHR 0x00) \<or> current l = eof then (End_of_input, l)
      else fail ''invalid literal'' l)"

definition scan :: "(rat \<Rightarrow> rat) \<Rightarrow> lexer \<Rightarrow> token_type \<times> lexer" where
  "scan fl l =
     (case (if chars_read_total (position l) = 0 then skip_bom l else (True, l)) of
        (False, l) \<Rightarrow> fail ''invalid BOM; must be 0xEF 0xBB 0xBF if given'' l
      | (True, l) \<Rightarrow>
          (case skip_comments (skip_whitespace l) of
             (False, l) \<Rightarrow> (Parse_error, l)
           | (True, l) \<Rightarrow> scan_token fl l))"

definition hex4 :: "int \<Rightarrow> string" where
  "hex4 n = (let d = (\<lambda>k. ''0123456789ABCDEF'' ! nat k)
     in [d (n div 0x1000 mod 16), d (n div 0x100 mod 16), d (n div 16 mod 16), d (n mod 16)])"

definition get_token_string :: "lexer \<Rightarrow> string" where
  "get_token_string l = concat (map (\<lambda>c. if (of_char c :: int) \<le> 0x1F
     then ''<U+'' @ hex4 (of_char c) @ ''>'' else [c]) (token_string l))"

section \<open>Every token consumes input\<close>

lemma remaining_scan_string: "remaining (snd (scan_string_loop l)) \<le> remaining l"
proof (induction l rule: scan_string_loop.induct)
  case (1 l)
  obtain t l' where s: "scan_string_step l = (t, l')" by fastforce
  with remaining_string_step [of l] have le: "remaining l' \<le> remaining l" by simp
  show ?case
  proof (cases t)
    case None
    with "1.IH" [OF s [symmetric]] have "remaining (snd (scan_string_loop l')) \<le> remaining l'" by simp
    with s le None show ?thesis by (simp add: scan_string_loop.simps [of l])
  next
    case (Some x)
    with s le show ?thesis by (simp add: scan_string_loop.simps [of l])
  qed
qed


lemma remaining_fields [simp]:
  "pending_input (l\<lparr>value_float := x\<rparr>) = pending_input l"
  "pending_input (l\<lparr>value_unsigned := u\<rparr>) = pending_input l"
  "pending_input (l\<lparr>value_integer := u\<rparr>) = pending_input l"
  by (simp_all add: pending_input_def)

lemma remaining_fail [simp]: "pending_input (snd (fail m l)) = pending_input l"
  by (simp add: fail_def)

lemma remaining_done: "remaining (snd (scan_number_done fl t (get l))) \<le> remaining l"
  using remaining_unget [of l] by (simp add: scan_number_done_def scan_float_def Let_def split: option.split)

lemma remaining_any2: "remaining (snd (scan_number_any2 fl t l)) \<le> remaining l"
proof (induction fl t l rule: scan_number_any2.induct)
  case (1 fl t l)
  show ?case
  proof (cases "digit_char (current (get l))")
    case True
    with 1 [OF refl] remaining_get [of l] show ?thesis
      by (simp add: scan_number_any2.simps [of fl t l] Let_def)
  next
    case False
    with remaining_get [of l] remaining_done [of fl t l] 
    show ?thesis by (simp add: scan_number_any2.simps [of fl t l] Let_def)
  qed
qed

lemma remaining_sign: "remaining (snd (scan_number_sign fl t l)) \<le> remaining l"
  using remaining_get [of l] remaining_any2 [of fl t "add_current (get l)"]
  by (simp add: scan_number_sign_def Let_def)

lemma remaining_exponent: "remaining (snd (scan_number_exponent fl l)) \<le> remaining l"
  using remaining_get [of l] remaining_any2 [of fl Value_float "add_current (get l)"]
    remaining_sign [of fl Value_float "add_current (get l)"]
  by (simp add: scan_number_exponent_def Let_def)

lemma remaining_decimal2: "remaining (snd (scan_number_decimal2 fl t l)) \<le> remaining l"
proof (induction fl t l rule: scan_number_decimal2.induct)
  case (1 fl t l)
  show ?case
  proof (cases "digit_char (current (get l))")
    case True
    with 1 [OF refl] remaining_get [of l] show ?thesis
      by (simp add: scan_number_decimal2.simps [of fl t l] Let_def)
  next
    case False
    with remaining_get [of l] remaining_done [of fl t l] remaining_exponent [of fl "add_current (get l)"]
    show ?thesis by (simp add: scan_number_decimal2.simps [of fl t l] Let_def)
  qed
qed

lemma remaining_decimal1: "remaining (snd (scan_number_decimal1 fl l)) \<le> remaining l"
  using remaining_get [of l] remaining_decimal2 [of fl Value_float "add_current (get l)"]
  by (simp add: scan_number_decimal1_def Let_def)

lemma remaining_any1: "remaining (snd (scan_number_any1 fl t l)) \<le> remaining l"
proof (induction fl t l rule: scan_number_any1.induct)
  case (1 fl t l)
  show ?case
  proof (cases "digit_char (current (get l))")
    case True
    with 1 [OF refl] remaining_get [of l] show ?thesis
      by (simp add: scan_number_any1.simps [of fl t l] Let_def)
  next
    case False
    with remaining_get [of l] remaining_done [of fl t l] remaining_exponent [of fl "add_current (get l)"]
      remaining_decimal1 [of fl "add (decimal_point_char (get l)) (get l)"]
    show ?thesis by (simp add: scan_number_any1.simps [of fl t l] Let_def)
  qed
qed

lemma remaining_zero: "remaining (snd (scan_number_zero fl t l)) \<le> remaining l"
  using remaining_get [of l] remaining_done [of fl t l] remaining_exponent [of fl "add_current (get l)"]
    remaining_decimal1 [of fl "add (decimal_point_char (get l)) (get l)"]
  by (simp add: scan_number_zero_def Let_def)

lemma remaining_minus: "remaining (snd (scan_number_minus fl l)) \<le> remaining l"
  using remaining_get [of l] remaining_zero [of fl Value_integer "add_current (get l)"]
    remaining_any1 [of fl Value_integer "add_current (get l)"]
  by (simp add: scan_number_minus_def Let_def)

lemma remaining_number: "remaining (snd (scan_number fl l)) \<le> remaining l"
  using remaining_minus [of fl "add_current (reset l)"]
    remaining_zero [of fl Value_unsigned "add_current (reset l)"]
    remaining_any1 [of fl Value_unsigned "add_current (reset l)"]
  by (simp add: scan_number_def Let_def)

lemma remaining_literal: "remaining (snd (literal_rest cs t l)) \<le> remaining l"
proof (induction cs arbitrary: l)
  case (Cons c cs)
  from Cons [of "get l"] remaining_get [of l] show ?case by (simp add: Let_def)
qed simp

lemma remaining_scan_token: "remaining (snd (scan_token fl l)) \<le> remaining l"
  using remaining_number [of fl l] remaining_scan_string [of "reset l"] remaining_literal
  by (simp add: scan_token_def scan_string_def scan_literal_def del: literal_rest.simps)

lemma remaining_skip_comments: "remaining (snd (skip_comments l)) \<le> remaining l"
proof (induction l rule: skip_comments.induct)
  case (1 l)
  obtain b l' where s: "scan_comment l = (b, l')" by fastforce
  with remaining_scan_comment [of l] have le: "remaining l' \<le> remaining l" by simp
  show ?case
  proof (cases "ignore_comments l \<and> current l = Some (CHR ''/'') \<and> b")
    case True
    with "1.IH" [OF _ s [symmetric]] have
      "remaining (snd (skip_comments (skip_whitespace l'))) \<le> remaining (skip_whitespace l')" by simp
    moreover have "skip_comments l = skip_comments (skip_whitespace l')"
      using True s by (simp add: skip_comments.simps [of l])
    ultimately show ?thesis using le skip_whitespace_progress [of l'] by simp
  next
    case False
    with s le show ?thesis by (auto simp: skip_comments.simps [of l])
  qed
qed

lemma skip_comments_eof: "current l = eof \<Longrightarrow> skip_comments l = (True, l)"
  by (simp add: skip_comments.simps)

lemma remaining_skip_bom: "remaining (snd (skip_bom l)) \<le> remaining l"
  using remaining_get [of l] remaining_get [of "get l"] remaining_get [of "get (get l)"] remaining_unget [of l]
  by (simp add: skip_bom_def Let_def)

text \<open>A token other than the end of the input and an error has taken at least one character.\<close>

lemma scan_progress:
  "remaining (snd (scan fl l)) \<le> remaining l \<and>
   (fst (scan fl l) \<noteq> End_of_input \<longrightarrow> fst (scan fl l) \<noteq> Parse_error \<longrightarrow>
      remaining (snd (scan fl l)) < remaining l)"
proof -
  obtain b l0 where bom: "(if chars_read_total (position l) = 0 then skip_bom l else (True, l)) = (b, l0)"
    by fastforce
  with remaining_skip_bom [of l] have l0: "remaining l0 \<le> remaining l" by (auto split: if_splits)
  let ?l1 = "skip_whitespace l0"
  obtain b2 l2 where com: "skip_comments ?l1 = (b2, l2)" by fastforce
  with remaining_skip_comments [of ?l1] have l2: "remaining l2 \<le> remaining ?l1" by simp
  note ws = skip_whitespace_progress [of l0] and tok = remaining_scan_token [of fl l2]
  show ?thesis
  proof (cases "b \<and> b2")
    case False
    then have "fst (scan fl l) = Parse_error \<and>
        (pending_input (snd (scan fl l)) = pending_input l0 \<or>
         pending_input (snd (scan fl l)) = pending_input l2)"
      using com by (cases b) (simp_all add: scan_def bom, simp add: fail_def)
    with l0 l2 ws show ?thesis by auto
  next
    case True
    then have sc: "scan fl l = scan_token fl l2" by (simp add: scan_def bom com)
    show ?thesis
    proof (cases "current ?l1 = eof")
      case True
      with com skip_comments_eof have "current l2 = eof" by force
      then have "fst (scan_token fl l2) = End_of_input" by (simp add: scan_token_def between_def)
      with sc tok l2 l0 ws show ?thesis by simp
    next
      case False
      with ws have "remaining ?l1 < remaining l0" by blast
      with sc tok l2 l0 show ?thesis by auto
    qed
  qed
qed

end
