(* ===== verification/JsonSax.thy ===== *)
theory JsonSax
  imports JsonValue
begin

text \<open>
  The handlers of the events of the parser of \<^verbatim>\<open>nlohmann/json.hpp\<close>: the interface \<^verbatim>\<open>SAX\<close> of the
  templates of class \<^verbatim>\<open>parser\<close> as a record of functions on the handler's state,
  \<^verbatim>\<open>json_sax_dom_parser\<close>, which builds a value, and \<^verbatim>\<open>json_sax_acceptor\<close>, which only listens.
\<close>

section \<open>The interface\<close>

text \<open>
  A handler returns whether to go on, or throws. The parser calls \<^verbatim>\<open>start_object\<close> and
  \<^verbatim>\<open>start_array\<close> with the length \<^verbatim>\<open>size_t(-1)\<close>, which means an unknown length and switches the
  checks of the length off; the handlers have no such parameter here.
\<close>

record 's sax =
  null :: "'s \<Rightarrow> (bool, 's) result"
  boolean :: "bool \<Rightarrow> 's \<Rightarrow> (bool, 's) result"
  number_integer :: "64 word \<Rightarrow> 's \<Rightarrow> (bool, 's) result"
  number_unsigned :: "64 word \<Rightarrow> 's \<Rightarrow> (bool, 's) result"
  number_float :: "rat \<Rightarrow> string \<Rightarrow> 's \<Rightarrow> (bool, 's) result"
  string_value :: "string \<Rightarrow> 's \<Rightarrow> (bool, 's) result"
  start_object :: "'s \<Rightarrow> (bool, 's) result"
  key :: "string \<Rightarrow> 's \<Rightarrow> (bool, 's) result"
  end_object :: "'s \<Rightarrow> (bool, 's) result"
  start_array :: "'s \<Rightarrow> (bool, 's) result"
  end_array :: "'s \<Rightarrow> (bool, 's) result"
  parse_error :: "nat \<Rightarrow> string \<Rightarrow> error \<Rightarrow> 's \<Rightarrow> (bool, 's) result"

section \<open>References into a value\<close>

text \<open>
  A pointer to a value inside the value under construction is the path to it from the root.
\<close>

datatype access = Index nat | Key string

type_synonym ref = "access list"

fun json_at :: "ref \<Rightarrow> json \<Rightarrow> json option" where
  "json_at [] j = Some j"
| "json_at (Index n # r) (Array vs) = (if n < length vs then json_at r (vs ! n) else None)"
| "json_at (Key k # r) (Object ms) = (case map_of ms k of None \<Rightarrow> None | Some v \<Rightarrow> json_at r v)"
| "json_at _ _ = None"

text \<open>Writing through a pointer; a path that leads nowhere does not occur.\<close>

fun json_update :: "ref \<Rightarrow> (json \<Rightarrow> json) \<Rightarrow> json \<Rightarrow> json" where
  "json_update [] f j = f j"
| "json_update (Index n # r) f (Array vs) = Array (vs[n := json_update r f (vs ! n)])"
| "json_update (Key k # r) f (Object ms) = Object (obj_update k (json_update r f (member k ms)) ms)"
| "json_update _ f j = j"

section \<open>The builder of values\<close>

text \<open>The back of \<^verbatim>\<open>ref_stack\<close> is the head of the list.\<close>

record dom_parser =
  root :: json
  ref_stack :: "ref list"
  object_element :: "ref option"
  errored :: bool
  allow_exceptions :: bool

definition dom_parser_ctor :: "json \<Rightarrow> bool \<Rightarrow> dom_parser" where
  "dom_parser_ctor r allow = \<lparr>root = r, ref_stack = [], object_element = None, errored = False,
     allow_exceptions = allow\<rparr>"

definition handle_value :: "json \<Rightarrow> dom_parser \<Rightarrow> (ref, dom_parser) result" where
  "handle_value v d = (case ref_stack d of
       [] \<Rightarrow> returns [] (d\<lparr>root := v\<rparr>)
     | r # rs \<Rightarrow> (case json_at r (root d) of
          Some (Array vs) \<Rightarrow> returns (r @ [Index (length vs)])
            (d\<lparr>root := json_update r (\<lambda>j. Array (vs @ [v])) (root d)\<rparr>)
        | Some (Object ms) \<Rightarrow> (case object_element d of
             Some e \<Rightarrow> returns e (d\<lparr>root := json_update e (\<lambda>j. v) (root d)\<rparr>)
           | None \<Rightarrow> raises (Undefined Null_deref) d)
        | _ \<Rightarrow> raises (Undefined Bad_pointer) d))"

definition dom_value :: "json \<Rightarrow> dom_parser \<Rightarrow> (bool, dom_parser) result" where
  "dom_value v d = (case handle_value v d of (Inl e, d) \<Rightarrow> raises e d | (Inr r, d) \<Rightarrow> returns True d)"

definition dom_start :: "json \<Rightarrow> dom_parser \<Rightarrow> (bool, dom_parser) result" where
  "dom_start v d = (case handle_value v d of
       (Inl e, d) \<Rightarrow> raises e d
     | (Inr r, d) \<Rightarrow> returns True (d\<lparr>ref_stack := r # ref_stack d\<rparr>))"

definition dom_start_object :: "dom_parser \<Rightarrow> (bool, dom_parser) result" where
  "dom_start_object d = dom_start (Object []) d"

definition dom_start_array :: "dom_parser \<Rightarrow> (bool, dom_parser) result" where
  "dom_start_array d = dom_start (Array []) d"

text \<open>\<^verbatim>\<open>operator[]\<close> of the map of the object: a key that is new gets a null.\<close>

definition dom_key :: "string \<Rightarrow> dom_parser \<Rightarrow> (bool, dom_parser) result" where
  "dom_key val d = (case ref_stack d of
       [] \<Rightarrow> raises (Undefined Empty_container) d
     | r # rs \<Rightarrow> (case json_at r (root d) of
          Some (Object ms) \<Rightarrow> returns True (d\<lparr>object_element := Some (r @ [Key val]),
            root := json_update r (\<lambda>j. Object (obj_update val (member val ms) ms)) (root d)\<rparr>)
        | _ \<Rightarrow> raises (Undefined Bad_pointer) d))"

text \<open>Without diagnostics \<^verbatim>\<open>set_parents\<close> does nothing.\<close>

definition dom_end_object :: "dom_parser \<Rightarrow> (bool, dom_parser) result" where
  "dom_end_object d = (case ref_stack d of
       [] \<Rightarrow> raises (Undefined Empty_container) d
     | r # rs \<Rightarrow> (case json_at r (root d) of
          Some (Object ms) \<Rightarrow> returns True (d\<lparr>ref_stack := rs\<rparr>)
        | _ \<Rightarrow> raises (Undefined Bad_pointer) d))"

definition dom_end_array :: "dom_parser \<Rightarrow> (bool, dom_parser) result" where
  "dom_end_array d = (case ref_stack d of
       [] \<Rightarrow> raises (Undefined Empty_container) d
     | r # rs \<Rightarrow> (case json_at r (root d) of
          Some (Array vs) \<Rightarrow> returns True (d\<lparr>ref_stack := rs\<rparr>)
        | _ \<Rightarrow> raises (Undefined Bad_pointer) d))"

definition dom_parse_error :: "nat \<Rightarrow> string \<Rightarrow> error \<Rightarrow> dom_parser \<Rightarrow> (bool, dom_parser) result" where
  "dom_parse_error pos token ex d = (let d = d\<lparr>errored := True\<rparr> in
     if allow_exceptions d then raises ex d else returns False d)"

definition json_sax_dom_parser :: "dom_parser sax" where
  "json_sax_dom_parser = \<lparr>
     null = dom_value Null,
     boolean = (\<lambda>val. dom_value (Boolean val)),
     number_integer = (\<lambda>val. dom_value (Number_integer val)),
     number_unsigned = (\<lambda>val. dom_value (Number_unsigned val)),
     number_float = (\<lambda>val s. dom_value (Number_float val)),
     string_value = (\<lambda>val. dom_value (String val)),
     start_object = dom_start_object,
     key = dom_key,
     end_object = dom_end_object,
     start_array = dom_start_array,
     end_array = dom_end_array,
     parse_error = dom_parse_error\<rparr>"

section \<open>The acceptor\<close>

definition json_sax_acceptor :: "unit sax" where
  "json_sax_acceptor = \<lparr>
     null = returns True,
     boolean = (\<lambda>val. returns True),
     number_integer = (\<lambda>val. returns True),
     number_unsigned = (\<lambda>val. returns True),
     number_float = (\<lambda>val s. returns True),
     string_value = (\<lambda>val. returns True),
     start_object = returns True,
     key = (\<lambda>val. returns True),
     end_object = returns True,
     start_array = returns True,
     end_array = returns True,
     parse_error = (\<lambda>pos token ex. returns False)\<rparr>"

end
