(* ===== verification/JsonParser.thy ===== *)
theory JsonParser
  imports JsonScanner JsonSax
begin

text \<open>
  Class \<^verbatim>\<open>parser\<close> of \<^verbatim>\<open>nlohmann/json.hpp\<close>: the loop of \<^verbatim>\<open>sax_parse_internal\<close> with its stack of
  states, the messages of its errors, and \<^verbatim>\<open>parse\<close> and \<^verbatim>\<open>accept\<close>. The loop ends for every input.
\<close>

section \<open>State\<close>

record parser =
  last_token :: token_type
  m_lexer :: lexer

definition get_token :: "(rat \<Rightarrow> rat) \<Rightarrow> parser \<Rightarrow> parser" where
  "get_token fl p = (case scan fl (m_lexer p) of (t, l) \<Rightarrow> p\<lparr>last_token := t, m_lexer := l\<rparr>)"

definition parser_ctor :: "(rat \<Rightarrow> rat) \<Rightarrow> bool \<Rightarrow> string \<Rightarrow> parser" where
  "parser_ctor fl skip adapter =
     get_token fl \<lparr>last_token = Uninitialized, m_lexer = lexer_ctor adapter skip\<rparr>"

definition exception_message :: "token_type \<Rightarrow> string \<Rightarrow> parser \<Rightarrow> string" where
  "exception_message expected context p =
     ''syntax error '' @
     (if context = '''' then '''' else ''while parsing '' @ context @ '' '') @
     ''- '' @
     (if last_token p = Parse_error
      then error_message (m_lexer p) @ ''; last read: '' @ CHR 0x27 # get_token_string (m_lexer p) @ [CHR 0x27]
      else ''unexpected '' @ token_type_name (last_token p)) @
     (if expected = Uninitialized then '''' else ''; expected '' @ token_type_name expected)"

text \<open>
  A pass of the loop is over with a result of the whole function, goes on with the next pass, or
  has parsed a value, after which the state on the stack is evaluated.
\<close>

datatype control = Finished "error + bool" | Continue | Evaluate

type_synonym 's progress = "control \<times> bool list \<times> parser \<times> 's"

definition finish :: "bool list \<Rightarrow> parser \<Rightarrow> (bool, 's) result \<Rightarrow> 's progress" where
  "finish states p r = (case r of (x, s) \<Rightarrow> (Finished x, states, p, s))"

text \<open>\<^verbatim>\<open>if (!sax->event()) return false;\<close>\<close>

definition unless_refused :: "(bool, 's) result \<Rightarrow> bool list \<Rightarrow> parser \<Rightarrow> ('s \<Rightarrow> 's progress) \<Rightarrow> 's progress" where
  "unless_refused r states p k = (case r of
       (Inl e, s) \<Rightarrow> (Finished (Inl e), states, p, s)
     | (Inr b, s) \<Rightarrow> if b then k s else (Finished (Inr False), states, p, s))"

definition report :: "'s sax \<Rightarrow> parser \<Rightarrow> error \<Rightarrow> 's \<Rightarrow> (bool, 's) result" where
  "report sx p ex s = parse_error sx (chars_read_total (position (m_lexer p)))
     (get_token_string (m_lexer p)) ex s"

definition syntax_error :: "'s sax \<Rightarrow> token_type \<Rightarrow> string \<Rightarrow> bool list \<Rightarrow> parser \<Rightarrow> 's \<Rightarrow> 's progress" where
  "syntax_error sx expected context states p s = finish states p
     (report sx p (parse_error_create 101 (position (m_lexer p)) (exception_message expected context p)) s)"

section \<open>Values\<close>

text \<open>
  The key of a member, when it is the last token, and the colon. Afterwards the parser is inside an
  object: \<open>states'\<close> is the stack then.
\<close>

definition parse_key ::
  "(rat \<Rightarrow> rat) \<Rightarrow> 's sax \<Rightarrow> bool list \<Rightarrow> bool list \<Rightarrow> parser \<Rightarrow> 's \<Rightarrow> 's progress" where
  "parse_key fl sx states' states p s =
     (if last_token p \<noteq> Value_string then syntax_error sx Value_string ''object key'' states p s
      else unless_refused (key sx (token_buffer (m_lexer p)) s) states p (\<lambda>s.
        let p = get_token fl p in
        if last_token p \<noteq> Name_separator
        then syntax_error sx Name_separator ''object separator'' states p s
        else (Continue, states', get_token fl p, s)))"

definition parse_begin_object ::
  "(rat \<Rightarrow> rat) \<Rightarrow> 's sax \<Rightarrow> bool list \<Rightarrow> parser \<Rightarrow> 's \<Rightarrow> 's progress" where
  "parse_begin_object fl sx states p s =
     unless_refused (start_object sx s) states p (\<lambda>s.
       let p = get_token fl p in
       if last_token p = End_object
       then unless_refused (end_object sx s) states p (\<lambda>s. (Evaluate, states, p, s))
       else parse_key fl sx (False # states) states p s)"

definition parse_begin_array ::
  "(rat \<Rightarrow> rat) \<Rightarrow> 's sax \<Rightarrow> bool list \<Rightarrow> parser \<Rightarrow> 's \<Rightarrow> 's progress" where
  "parse_begin_array fl sx states p s =
     unless_refused (start_array sx s) states p (\<lambda>s.
       let p = get_token fl p in
       if last_token p = End_array
       then unless_refused (end_array sx s) states p (\<lambda>s. (Evaluate, states, p, s))
       else (Continue, True # states, p, s))"

definition parse_float :: "'s sax \<Rightarrow> bool list \<Rightarrow> parser \<Rightarrow> 's \<Rightarrow> 's progress" where
  "parse_float sx states p s = (case value_float (m_lexer p) of
       None \<Rightarrow> finish states p (report sx p (out_of_range_create 406
         (''number overflow parsing '' @ CHR 0x27 # get_token_string (m_lexer p) @ [CHR 0x27])) s)
     | Some res \<Rightarrow> unless_refused (number_float sx res (token_buffer (m_lexer p)) s) states p
         (\<lambda>s. (Evaluate, states, p, s)))"

definition parse_scalar :: "(bool, 's) result \<Rightarrow> bool list \<Rightarrow> parser \<Rightarrow> 's progress" where
  "parse_scalar r states p = unless_refused r states p (\<lambda>s. (Evaluate, states, p, s))"

definition parse_end_of_input :: "'s sax \<Rightarrow> bool list \<Rightarrow> parser \<Rightarrow> 's \<Rightarrow> 's progress" where
  "parse_end_of_input sx states p s =
     (if chars_read_total (position (m_lexer p)) = 1
      then finish states p (report sx p (parse_error_create 101 (position (m_lexer p))
        ''attempting to parse an empty input; check that your input string or stream contains the expected JSON'') s)
      else syntax_error sx Literal_or_value ''value'' states p s)"

definition parse_value :: "(rat \<Rightarrow> rat) \<Rightarrow> 's sax \<Rightarrow> bool list \<Rightarrow> parser \<Rightarrow> 's \<Rightarrow> 's progress" where
  "parse_value fl sx states p s = (let l = m_lexer p in case last_token p of
       Begin_object \<Rightarrow> parse_begin_object fl sx states p s
     | Begin_array \<Rightarrow> parse_begin_array fl sx states p s
     | Value_float \<Rightarrow> parse_float sx states p s
     | Literal_false \<Rightarrow> parse_scalar (boolean sx False s) states p
     | Literal_null \<Rightarrow> parse_scalar (null sx s) states p
     | Literal_true \<Rightarrow> parse_scalar (boolean sx True s) states p
     | Value_integer \<Rightarrow> parse_scalar (number_integer sx (value_integer l) s) states p
     | Value_string \<Rightarrow> parse_scalar (string_value sx (token_buffer l) s) states p
     | Value_unsigned \<Rightarrow> parse_scalar (number_unsigned sx (value_unsigned l) s) states p
     | Parse_error \<Rightarrow> syntax_error sx Uninitialized ''value'' states p s
     | End_of_input \<Rightarrow> parse_end_of_input sx states p s
     | _ \<Rightarrow> syntax_error sx Literal_or_value ''value'' states p s)"

section \<open>The state after a value\<close>

text \<open>
  \<open>Evaluate\<close> stands for setting \<^verbatim>\<open>skip_to_state_evaluation\<close> before the next pass.
\<close>

definition array_state ::
  "(rat \<Rightarrow> rat) \<Rightarrow> 's sax \<Rightarrow> bool list \<Rightarrow> parser \<Rightarrow> 's \<Rightarrow> 's progress" where
  "array_state fl sx states p s = (let p = get_token fl p in
     if last_token p = Value_separator then (Continue, states, get_token fl p, s)
     else if last_token p = End_array
     then unless_refused (end_array sx s) states p (\<lambda>s. (Evaluate, tl states, p, s))
     else syntax_error sx End_array ''array'' states p s)"

definition object_state ::
  "(rat \<Rightarrow> rat) \<Rightarrow> 's sax \<Rightarrow> bool list \<Rightarrow> parser \<Rightarrow> 's \<Rightarrow> 's progress" where
  "object_state fl sx states p s = (let p = get_token fl p in
     if last_token p = Value_separator then parse_key fl sx states states (get_token fl p) s
     else if last_token p = End_object
     then unless_refused (end_object sx s) states p (\<lambda>s. (Evaluate, tl states, p, s))
     else syntax_error sx End_object ''object'' states p s)"

definition evaluate_state ::
  "(rat \<Rightarrow> rat) \<Rightarrow> 's sax \<Rightarrow> bool list \<Rightarrow> parser \<Rightarrow> 's \<Rightarrow> 's progress" where
  "evaluate_state fl sx states p s = (case states of
       [] \<Rightarrow> (Finished (Inr True), states, p, s)
     | in_array # _ \<Rightarrow> if in_array then array_state fl sx states p s else object_state fl sx states p s)"

section \<open>Every pass consumes tokens\<close>

text \<open>
  The measure of the loop: the input left, twice, and one for a last token that is there to be used.
\<close>

abbreviation input_left :: "parser \<Rightarrow> nat" where
  "input_left p \<equiv> remaining (m_lexer p)"

definition usable :: "token_type \<Rightarrow> bool" where
  "usable t \<longleftrightarrow> t \<noteq> End_of_input \<and> t \<noteq> Parse_error"

definition loop_measure :: "bool \<Rightarrow> parser \<Rightarrow> nat" where
  "loop_measure skip p = 2 * input_left p + (if \<not> skip \<and> usable (last_token p) then 1 else 0)"

lemma get_token_progress:
  "input_left (get_token fl p) \<le> input_left p"
  "usable (last_token (get_token fl p)) \<Longrightarrow> input_left (get_token fl p) < input_left p"
  using scan_progress [of fl "m_lexer p"] by (auto simp: get_token_def usable_def split: prod.splits)

lemma usable_simps [simp]:
  "usable Begin_object" "usable Begin_array" "usable End_object" "usable End_array"
  "usable Name_separator" "usable Value_separator" "usable Value_string" "usable Value_float"
  "usable Literal_true" "usable Literal_false" "usable Literal_null" "usable Value_integer"
  "usable Value_unsigned"
  by (simp_all add: usable_def)

lemma not_unfinished [simp]:
  "syntax_error sx t c states p s \<noteq> (Continue, st)" "syntax_error sx t c states p s \<noteq> (Evaluate, st)"
  "finish states p r \<noteq> (Continue, st)" "finish states p r \<noteq> (Evaluate, st)"
  by (auto simp: syntax_error_def finish_def split: prod.splits)

lemma unless_refused_cases:
  "unless_refused r states p k = (c, st) \<Longrightarrow> c = Continue \<or> c = Evaluate \<Longrightarrow>
     \<exists>s. r = returns True s \<and> k s = (c, st)"
  by (auto simp: unless_refused_def split: prod.splits sum.splits if_splits)

lemma parse_key_progress:
  assumes "parse_key fl sx states' states p s = (c, states1, p1, s1)" "c = Continue \<or> c = Evaluate"
  shows "c = Continue \<and> input_left p1 < input_left p"
proof -
  from assms have k: "last_token p = Value_string"
    by (auto simp: parse_key_def split: if_splits)
  with assms obtain s' where
    e: "(let p = get_token fl p in if last_token p \<noteq> Name_separator
        then syntax_error sx Name_separator ''object separator'' states p s'
        else (Continue, states', get_token fl p, s')) = (c, states1, p1, s1)"
    by (auto simp: parse_key_def dest!: unless_refused_cases)
  with assms(2) have "last_token (get_token fl p) = Name_separator"
    by (auto simp: Let_def split: if_splits)
  with e get_token_progress [of fl p] get_token_progress [of fl "get_token fl p"] show ?thesis
    by (auto simp: Let_def)
qed

lemma begin_object_progress:
  assumes "parse_begin_object fl sx states p s = (c, states1, p1, s1)" "c = Continue \<or> c = Evaluate"
  shows "input_left p1 < input_left p"
proof -
  let ?p = "get_token fl p"
  from assms obtain s' where
    e: "(if last_token ?p = End_object
         then unless_refused (end_object sx s') states ?p (\<lambda>s. (Evaluate, states, ?p, s))
         else parse_key fl sx (False # states) states ?p s') = (c, states1, p1, s1)"
    by (auto simp: parse_begin_object_def Let_def dest!: unless_refused_cases)
  show ?thesis
  proof (cases "last_token ?p = End_object")
    case True
    with e assms(2) get_token_progress [of fl p] show ?thesis
      by (auto dest!: unless_refused_cases)
  next
    case False
    with e parse_key_progress [of fl sx "False # states" states ?p s'] assms(2)
      get_token_progress(1) [of fl p] show ?thesis by fastforce
  qed
qed

lemma begin_array_progress:
  assumes "parse_begin_array fl sx states p s = (c, states1, p1, s1)" "c = Continue \<or> c = Evaluate"
  shows "(c = Evaluate \<longrightarrow> input_left p1 < input_left p) \<and>
    (c = Continue \<longrightarrow> loop_measure False p1 \<le> 2 * input_left p)"
proof -
  let ?p = "get_token fl p"
  from assms obtain s' where
    e: "(if last_token ?p = End_array
         then unless_refused (end_array sx s') states ?p (\<lambda>s. (Evaluate, states, ?p, s))
         else (Continue, True # states, ?p, s')) = (c, states1, p1, s1)"
    by (auto simp: parse_begin_array_def Let_def dest!: unless_refused_cases)
  show ?thesis
  proof (cases "last_token ?p = End_array")
    case True
    with e assms(2) get_token_progress [of fl p] show ?thesis
      by (auto dest!: unless_refused_cases)
  next
    case False
    with e get_token_progress [of fl p] show ?thesis by (auto simp: loop_measure_def)
  qed
qed

lemma scalar_progress:
  "parse_scalar r states p = (c, states1, p1, s1) \<Longrightarrow> c = Continue \<or> c = Evaluate \<Longrightarrow>
     c = Evaluate \<and> states1 = states \<and> p1 = p"
  by (auto simp: parse_scalar_def dest!: unless_refused_cases)

lemma float_progress:
  "parse_float sx states p s = (c, states1, p1, s1) \<Longrightarrow> c = Continue \<or> c = Evaluate \<Longrightarrow>
     c = Evaluate \<and> states1 = states \<and> p1 = p"
  by (auto simp: parse_float_def dest!: unless_refused_cases split: option.splits)

lemma value_progress:
  assumes "parse_value fl sx states p s = (c, states1, p1, s1)" "c = Continue \<or> c = Evaluate"
  shows "usable (last_token p) \<and> (c = Evaluate \<longrightarrow> input_left p1 \<le> input_left p) \<and>
    (c = Continue \<longrightarrow> loop_measure False p1 \<le> 2 * input_left p)"
proof (cases "last_token p")
  case Begin_object
  with begin_object_progress [of fl sx states p s] assms show ?thesis
    by (auto simp: parse_value_def loop_measure_def)
next
  case Begin_array
  with begin_array_progress [of fl sx states p s] assms show ?thesis
    by (auto simp: parse_value_def)
next
  case Value_float
  with float_progress [of sx states p s] assms show ?thesis by (auto simp: parse_value_def)
next
  case End_of_input
  with assms show ?thesis by (auto simp: parse_value_def parse_end_of_input_def split: if_splits)
qed (use assms in \<open>auto simp: parse_value_def dest!: scalar_progress\<close>)

lemma state_progress:
  assumes "evaluate_state fl sx states p s = (c, states1, p1, s1)" "c = Continue \<or> c = Evaluate"
  shows "input_left p1 < input_left p"
proof -
  let ?p = "get_token fl p"
  have lt: "input_left ?p < input_left p" if "usable (last_token ?p)"
    using get_token_progress(2) that .
  from assms obtain b bs where st: "states = b # bs"
    by (cases states) (auto simp: evaluate_state_def)
  show ?thesis
  proof (cases b)
    case True
    with assms st have a: "array_state fl sx states p s = (c, states1, p1, s1)"
      by (simp add: evaluate_state_def)
    consider "last_token ?p = Value_separator" | "last_token ?p = End_array"
      using a assms(2) by (auto simp: array_state_def Let_def split: if_splits)
    then show ?thesis
      using a assms(2) lt get_token_progress(1) [of fl ?p]
      by cases (auto simp: array_state_def Let_def dest!: unless_refused_cases)
  next
    case False
    with assms st have o: "object_state fl sx states p s = (c, states1, p1, s1)"
      by (simp add: evaluate_state_def)
    consider "last_token ?p = Value_separator" | "last_token ?p = End_object"
      using o assms(2) by (auto simp: object_state_def Let_def split: if_splits)
    then show ?thesis
      using o assms(2) lt get_token_progress(1) [of fl ?p]
        parse_key_progress [of fl sx states states "get_token fl ?p" s c states1 p1 s1]
      by cases (auto simp: object_state_def Let_def dest!: unless_refused_cases)
  qed
qed

section \<open>The loop\<close>

text \<open>The first part of a pass, which is skipped when a structure has just been closed.\<close>

definition value_part ::
  "(rat \<Rightarrow> rat) \<Rightarrow> 's sax \<Rightarrow> bool \<Rightarrow> bool list \<Rightarrow> parser \<Rightarrow> 's \<Rightarrow> 's progress" where
  "value_part fl sx skip states p s =
     (if skip then (Evaluate, states, p, s) else parse_value fl sx states p s)"

lemma value_part_continue:
  assumes "value_part fl sx skip states p s = (Continue, states1, p1, s1)"
  shows "loop_measure False p1 < loop_measure skip p"
  using assms value_progress [of fl sx states p s Continue states1 p1 s1]
  by (auto simp: value_part_def loop_measure_def split: if_splits)

lemma value_part_evaluate:
  assumes "value_part fl sx skip states p s = (Evaluate, states1, p1, s1)"
    "evaluate_state fl sx states1 p1 s1 = (c, states2, p2, s2)" "c = Continue \<or> c = Evaluate"
  shows "loop_measure (c = Evaluate) p2 < loop_measure skip p"
proof -
  have "input_left p1 \<le> input_left p"
    using assms(1) value_progress [of fl sx states p s Evaluate states1 p1 s1]
    by (auto simp: value_part_def split: if_splits)
  moreover have "input_left p2 < input_left p1" using state_progress [OF assms(2,3)] .
  ultimately show ?thesis by (simp add: loop_measure_def)
qed

function sax_parse_loop ::
  "(rat \<Rightarrow> rat) \<Rightarrow> 's sax \<Rightarrow> bool \<Rightarrow> bool list \<Rightarrow> parser \<Rightarrow> 's \<Rightarrow> (error + bool) \<times> parser \<times> 's" where
  "sax_parse_loop fl sx skip states p s =
     (case value_part fl sx skip states p s of
        (Finished r, _, p, s) \<Rightarrow> (r, p, s)
      | (Continue, states, p, s) \<Rightarrow> sax_parse_loop fl sx False states p s
      | (Evaluate, states, p, s) \<Rightarrow>
          (case evaluate_state fl sx states p s of
             (Finished r, _, p, s) \<Rightarrow> (r, p, s)
           | (Continue, states, p, s) \<Rightarrow> sax_parse_loop fl sx False states p s
           | (Evaluate, states, p, s) \<Rightarrow> sax_parse_loop fl sx True states p s))"
  by pat_completeness auto
termination
  by (relation "measure (\<lambda>(fl, sx, skip, states, p, s). loop_measure skip p)")
    (auto dest: value_part_continue [OF sym] value_part_evaluate [OF sym sym, of _ _ _ _ _ _ _ _ _ Continue, simplified]
      value_part_evaluate [OF sym sym, of _ _ _ _ _ _ _ _ _ Evaluate, simplified])

declare sax_parse_loop.simps [simp del]

definition sax_parse_internal :: "(rat \<Rightarrow> rat) \<Rightarrow> 's sax \<Rightarrow> parser \<Rightarrow> 's \<Rightarrow> (error + bool) \<times> parser \<times> 's" where
  "sax_parse_internal fl sx p s = sax_parse_loop fl sx False [] p s"

section \<open>The public functions\<close>

text \<open>In strict mode the input must have been read to its end.\<close>

definition trailing_error :: "(rat \<Rightarrow> rat) \<Rightarrow> parser \<Rightarrow> error" where
  "trailing_error fl p =
     parse_error_create 101 (position (m_lexer p)) (exception_message End_of_input ''value'' p)"

definition sax_parse :: "(rat \<Rightarrow> rat) \<Rightarrow> 's sax \<Rightarrow> bool \<Rightarrow> parser \<Rightarrow> 's \<Rightarrow> (bool, 's) result" where
  "sax_parse fl sx strict p s = (case sax_parse_internal fl sx p s of
       (Inl e, p, s) \<Rightarrow> raises e s
     | (Inr result, p, s) \<Rightarrow>
         (let q = get_token fl p in
          if result \<and> strict \<and> last_token q \<noteq> End_of_input
          then report sx q (trailing_error fl q) s
          else returns result s))"

definition accept :: "(rat \<Rightarrow> rat) \<Rightarrow> bool \<Rightarrow> parser \<Rightarrow> (bool, unit) result" where
  "accept fl strict p = sax_parse fl json_sax_acceptor strict p ()"

text \<open>\<^verbatim>\<open>parse\<close> without a callback.\<close>

definition parser_parse :: "(rat \<Rightarrow> rat) \<Rightarrow> bool \<Rightarrow> bool \<Rightarrow> parser \<Rightarrow> json \<Rightarrow> error + json" where
  "parser_parse fl allow strict p result =
     (case sax_parse_internal fl json_sax_dom_parser p (dom_parser_ctor result allow) of
        (Inl e, p, sdp) \<Rightarrow> Inl e
      | (Inr _, p, sdp) \<Rightarrow>
          (let q = get_token fl p;
               finished = (\<lambda>sdp. if errored sdp then Discarded else root sdp)
           in if strict \<and> last_token q \<noteq> End_of_input
              then (case report json_sax_dom_parser q (trailing_error fl q) sdp of
                      (Inl e, sdp) \<Rightarrow> Inl e
                    | (Inr _, sdp) \<Rightarrow> Inr (finished sdp))
              else Inr (finished sdp)))"

text \<open>\<^verbatim>\<open>basic_json::parse\<close> with its default arguments.\<close>

definition json_parse :: "(rat \<Rightarrow> rat) \<Rightarrow> string \<Rightarrow> error + json" where
  "json_parse fl i = parser_parse fl True True (parser_ctor fl False i) Null"

end
