(* ===== verification/ReadConfig.thy ===== *)
theory ReadConfig
  imports JsonParser
begin

text \<open>
  \<^verbatim>\<open>src/ReadConfig.h\<close>, on the JSON parser and the values of theories JsonParser and JsonValue. The
  members are read in the order of \<^verbatim>\<open>ReadJson\<close>, and reading a member that is missing inserts a
  null, as the index operator does.
\<close>

section \<open>The configuration\<close>

record config =
  count_operators :: int
  incoming_queue_size :: nat
  log_server_level :: string
  log_operators_level :: string
  rand_gen_erl_shape :: rat
  rand_gen_erl_scale :: rat
  timeout_in_queue_min :: rat
  timeout_in_queue_max :: rat
  config_data :: json

definition config0 :: "json \<Rightarrow> config" where
  "config0 j = \<lparr>count_operators = 0, incoming_queue_size = 0, log_server_level = '''',
     log_operators_level = '''', rand_gen_erl_shape = -1, rand_gen_erl_scale = -1,
     timeout_in_queue_min = -1, timeout_in_queue_max = -1, config_data = j\<rparr>"

text \<open>One assignment of \<^verbatim>\<open>ReadJson\<close>: index, convert, store.\<close>

definition read_member ::
  "string list \<Rightarrow> (json \<Rightarrow> error + 'a) \<Rightarrow> ('a \<Rightarrow> config \<Rightarrow> config) \<Rightarrow> config \<Rightarrow> (unit, config) result"
where
  "read_member path convert assign c = (case json_index path (config_data c) of (r, j) \<Rightarrow>
     (case ebind r convert of
        Inl e \<Rightarrow> raises e (c\<lparr>config_data := j\<rparr>)
      | Inr x \<Rightarrow> returns () (assign x (c\<lparr>config_data := j\<rparr>))))"

fun run_all :: "('s \<Rightarrow> (unit, 's) result) list \<Rightarrow> 's \<Rightarrow> (unit, 's) result" where
  "run_all [] s = returns () s"
| "run_all (f # fs) s = (case f s of (Inl e, s) \<Rightarrow> raises e s | (Inr _, s) \<Rightarrow> run_all fs s)"

definition ReadJson :: "(rat \<Rightarrow> rat) \<Rightarrow> config \<Rightarrow> (unit, config) result" where
  "ReadJson fl = run_all
     [read_member [''count_operators''] get_int (\<lambda>x c. c\<lparr>count_operators := x\<rparr>),
      read_member [''incoming_queue_size''] get_size (\<lambda>x c. c\<lparr>incoming_queue_size := x\<rparr>),
      read_member [''log'', ''server_level''] get_string (\<lambda>x c. c\<lparr>log_server_level := x\<rparr>),
      read_member [''log'', ''operators_level''] get_string (\<lambda>x c. c\<lparr>log_operators_level := x\<rparr>),
      read_member [''rand_timeout_in_queue'', ''rand_uniform_min''] (get_double fl)
        (\<lambda>x c. c\<lparr>timeout_in_queue_min := x\<rparr>),
      read_member [''rand_timeout_in_queue'', ''rand_uniform_max''] (get_double fl)
        (\<lambda>x c. c\<lparr>timeout_in_queue_max := x\<rparr>),
      read_member [''rand_call_duration'', ''rand_gen_erl_shape''] (get_double fl)
        (\<lambda>x c. c\<lparr>rand_gen_erl_shape := x\<rparr>),
      read_member [''rand_call_duration'', ''rand_gen_erl_scale''] (get_double fl)
        (\<lambda>x c. c\<lparr>rand_gen_erl_scale := x\<rparr>)]"

text \<open>A stream whose file could not be opened reads as an empty one.\<close>

definition ReadConfig_ctor ::
  "(rat \<Rightarrow> rat) \<Rightarrow> string option \<Rightarrow> error + config" where
  "ReadConfig_ctor fl file = ebind (json_parse fl (case file of Some text \<Rightarrow> text | None \<Rightarrow> ''''))
     (\<lambda>j. case ReadJson fl (config0 j) of (Inl e, c) \<Rightarrow> Inl e | (Inr _, c) \<Rightarrow> Inr c)"

section \<open>Reading every member\<close>

text \<open>The value a chain of index operators refers to, without the insertions.\<close>

fun lookup :: "string list \<Rightarrow> json \<Rightarrow> error + json" where
  "lookup [] j = Inr j"
| "lookup (k # ks) j = ebind (as_object j) (\<lambda>ms. lookup ks (member k ms))"

lemma fst_json_index: "fst (json_index ks j) = lookup ks j"
proof (induction ks arbitrary: j)
  case (Cons k ks)
  show ?case
  proof (cases "as_object j")
    case (Inr ms)
    with Cons [of "member k ms"] show ?thesis
      by (cases "json_index ks (member k ms)") simp
  qed simp
qed simp

text \<open>The insertions of one chain only show in the prefixes of that chain.\<close>

lemma lookup_after_index:
  "\<not> strict_prefix ls ks \<Longrightarrow> lookup ls (snd (json_index ks j)) = lookup ls j"
proof (induction ks arbitrary: j ls)
  case (Cons k ks)
  from Cons.prems obtain l ls' where ls: "ls = l # ls'" by (cases ls) auto
  show ?case
  proof (cases "as_object j")
    case (Inr ms)
    obtain r v where v: "json_index ks (member k ms) = (r, v)" by (cases "json_index ks (member k ms)")
    have "lookup ls' v = lookup ls' (member k ms)" if "l = k"
      using Cons.IH [of ls' "member k ms"] Cons.prems that by (simp add: ls v)
    with Inr v show ?thesis by (simp add: ls)
  qed simp
qed simp

definition setting :: "string list \<Rightarrow> (json \<Rightarrow> error + 'a) \<Rightarrow> json \<Rightarrow> error + 'a" where
  "setting path convert j = ebind (lookup path j) convert"

lemma read_member_setting:
  "read_member path convert assign c =
    (let c' = c\<lparr>config_data := snd (json_index path (config_data c))\<rparr> in
     case setting path convert (config_data c) of Inl e \<Rightarrow> raises e c' | Inr x \<Rightarrow> returns () (assign x c'))"
  by (cases "json_index path (config_data c)")
    (simp add: read_member_def setting_def fst_json_index [symmetric] Let_def)

lemma setting_after_index:
  "\<not> strict_prefix ls ks \<Longrightarrow> setting ls convert (snd (json_index ks j)) = setting ls convert j"
  by (simp add: setting_def lookup_after_index)

text \<open>The members of a configuration, in the order they are read.\<close>

definition settings :: "config \<Rightarrow> int \<times> nat \<times> string \<times> string \<times> rat \<times> rat \<times> rat \<times> rat" where
  "settings c = (count_operators c, incoming_queue_size c, log_server_level c,
     log_operators_level c, timeout_in_queue_min c, timeout_in_queue_max c,
     rand_gen_erl_shape c, rand_gen_erl_scale c)"

lemma ReadConfig_settings:
  "ebind (ReadConfig_ctor fl file) (\<lambda>c. Inr (settings c)) =
    ebind (json_parse fl (case file of Some text \<Rightarrow> text | None \<Rightarrow> '''')) (\<lambda>j.
    ebind (setting [''count_operators''] get_int j) (\<lambda>n.
    ebind (setting [''incoming_queue_size''] get_size j) (\<lambda>m.
    ebind (setting [''log'', ''server_level''] get_string j) (\<lambda>sl.
    ebind (setting [''log'', ''operators_level''] get_string j) (\<lambda>ol.
    ebind (setting [''rand_timeout_in_queue'', ''rand_uniform_min''] (get_double fl) j) (\<lambda>tmin.
    ebind (setting [''rand_timeout_in_queue'', ''rand_uniform_max''] (get_double fl) j) (\<lambda>tmax.
    ebind (setting [''rand_call_duration'', ''rand_gen_erl_shape''] (get_double fl) j) (\<lambda>shape.
    ebind (setting [''rand_call_duration'', ''rand_gen_erl_scale''] (get_double fl) j) (\<lambda>scale.
    Inr (n, m, sl, ol, tmin, tmax, shape, scale))))))))))"
  by (simp add: ReadConfig_ctor_def ReadJson_def config0_def read_member_setting setting_after_index
      settings_def ebind_def Let_def split: sum.split del: json_index.simps)

text \<open>A member that is not there reads as null, which none of the conversions accepts.\<close>

lemma member_missing: "map_of ms k = None \<Longrightarrow> member k ms = Null"
  by (simp add: member_def)

lemma conversions_null [simp]:
  "get_int Null = Inl (not_a_number Null)" "get_size Null = Inl (not_a_number Null)"
  "get_double fl Null = Inl (not_a_number Null)"
  "get_string Null = Inl (type_error_create 302 ''type must be string, but is null'')"
  by (simp_all add: get_int_def get_size_def get_double_def get_string_def type_name_def)

end
