(* ===== verification/MainProgram.thy ===== *)
theory MainProgram
  imports CallCentre Listener ReadConfig
begin

text \<open>
  \<^verbatim>\<open>src/main.cpp\<close>: the command line, the construction of the components in the order of
  \<^verbatim>\<open>Start\<close>, and the number of threads that run handlers. What \<^verbatim>\<open>Start\<close> does from the signal
  to its end are the phases of theory CallCentre.
\<close>

section \<open>The command line\<close>

text \<open>\<^verbatim>\<open>std::stoi\<close> in base ten.\<close>

definition stoi :: "string \<Rightarrow> error + int" where
  "stoi s = (let (neg, s) = sign_of (dropWhile is_space s);
                 ds = takeWhile is_digit s;
                 n = int (string_to_nat 0 ds);
                 i = if neg then - n else n
     in if ds = [] then Inl (Invalid_argument ''stoi'')
        else if - (2 ^ 31) \<le> i \<and> i < 2 ^ 31 then Inr i
        else Inl (Out_of_range ''stoi''))"

definition ushort :: "int \<Rightarrow> nat" where
  "ushort i = unat (word_of_int i :: 16 word)"

section \<open>Start\<close>

text \<open>The loop \<^verbatim>\<open>for (auto i = threads_num - 2; i > 0; --i)\<close>; \<open>n\<close> threads exist already.\<close>

function spawn :: "int \<Rightarrow> nat \<Rightarrow> nat" where
  "spawn i n = (if 0 < i then spawn (i - 1) (Suc n) else n)"
  by pat_completeness auto
termination
  by (relation "measure (\<lambda>(i, n). nat i)") auto

declare spawn.simps [simp del]

text \<open>
  What stands outside: the rounding of floating point numbers, the files, the error of opening the file of the records,
  the conversion of an address, and the steps of the acceptor at an endpoint.
\<close>

record surroundings =
  sur_fl :: "rat \<Rightarrow> rat"
  sur_file :: "string \<Rightarrow> string option"
  sur_log_error :: "string option"
  sur_address :: "string \<Rightarrow> error + string"
  sur_acceptor :: "string \<times> nat \<Rightarrow> acceptor_op \<Rightarrow> string option"

record 'g running =
  machine :: "'g sys"
  acceptor :: listener
  io_threads :: nat

definition Start ::
  "surroundings \<Rightarrow> string \<Rightarrow> nat \<Rightarrow> int \<Rightarrow> string \<Rightarrow> 'g rand_gen \<times> world \<Rightarrow>
   ('g running, 'g rand_gen \<times> world) result" where
  "Start sur address port threads_num config_fn st = (case st of (r, w) \<Rightarrow>
     (case ReadConfig_ctor (sur_fl sur) (sur_file sur config_fn) of
        Inl e \<Rightarrow> raises e (r, w)
      | Inr json_data \<Rightarrow>
     (case Log_Init (sur_log_error sur) (log_server_level json_data) (log_operators_level json_data) w of
        (Inl e, w) \<Rightarrow> raises e (r, w)
      | (Inr _, w) \<Rightarrow>
     (let r = RandGen_Init (rand_gen_erl_shape json_data) (rand_gen_erl_scale json_data)
            (timeout_in_queue_min json_data) (timeout_in_queue_max json_data) r
      in case Operators_ctor (count_operators json_data) (incoming_queue_size json_data) w of
        (Inl e, w) \<Rightarrow> raises e (r, w)
      | (Inr operators, w) \<Rightarrow>
     (let (l, w) = Listener_run (Listener_ctor (sur_acceptor sur (address, port)) w)
      in returns \<lparr>machine = sys_init r w operators, acceptor = l,
           io_threads = Suc (spawn (threads_num - 2) 0)\<rparr> (r, w))))))"

text \<open>
  How \<^verbatim>\<open>main\<close> goes on: it returns an exit status, here with what it has written to the standard
  error stream, or the program runs and \<^verbatim>\<open>main\<close> returns 0 when the machine has come to the phase
  \<open>Joined\<close>.
\<close>

datatype 'g outcome = Exit int string | Runs "'g running"

definition usage :: string where
  "usage = ''Usage: CallCentre <address> <port> <threads> <config file>'' @ [CHR 0x0A] @
     ''Example:'' @ [CHR 0x0A] @
     ''    CallCentre 0.0.0.0 8080 2 config_call_centre.json'' @ [CHR 0x0A]"

definition main_program ::
  "surroundings \<Rightarrow> string list \<Rightarrow> 'g rand_gen \<times> world \<Rightarrow>
   ('g outcome, 'g rand_gen \<times> world) result" where
  "main_program sur argv st =
     (if length argv \<noteq> 4 \<and> length argv \<noteq> 5 then returns (Exit 1 usage) st
      else case sur_address sur (argv ! 1) of Inl e \<Rightarrow> raises e st | Inr address \<Rightarrow>
      case stoi (argv ! 2) of Inl e \<Rightarrow> raises e st | Inr p \<Rightarrow>
      case stoi (argv ! 3) of Inl e \<Rightarrow> raises e st | Inr t \<Rightarrow>
      case Start sur address (ushort p) (max 2 t)
             (if length argv = 5 then argv ! 4 else ''config_call_centre.json'') st of
        (Inl e, st) \<Rightarrow> raises e st
      | (Inr x, st) \<Rightarrow> returns (Runs x) st)"

text \<open>
  The static objects when \<^verbatim>\<open>main\<close> is entered. The pointers to the loggers are null until
  \<^verbatim>\<open>Log::Init\<close>, which \<^verbatim>\<open>Start\<close> calls before anything logs; the registry has spdlog's default
  logger.
\<close>

definition world0 :: world where
  "world0 = (let none = \<lparr>logger_name = '''', logger_level = off, flush_level = off\<rparr> in
     \<lparr>objects = [], next_call_id = next_call_id0, registry = [''''], cdrLog = none,
      serverLog = none, operatorsLog = none, cdr_lines = [], cdr_written = [], console = []\<rparr>)"

section \<open>Lemmas\<close>

lemma spawn_result: "spawn i n = n + nat i"
proof (induction i n rule: spawn.induct)
  case (1 i n)
  then show ?case by (cases "0 < i") (simp_all add: spawn.simps [of i n])
qed

lemma nat_to_string_head: "\<exists>c cs. nat_to_string n = c # cs \<and> is_digit c"
  using nat_to_string_digits [of _ n] nat_to_string_nonempty [of n]
  by (cases "nat_to_string n") auto

lemma digit_not_space: "is_digit c \<Longrightarrow> \<not> is_space c \<and> c \<noteq> CHR ''-'' \<and> c \<noteq> CHR ''+''"
  by (auto simp: is_digit_def is_space_def)

lemma stoi_to_string:
  assumes "- (2 ^ 31) \<le> i" "i < 2 ^ 31"
  shows "stoi (to_string i) = Inr i"
proof -
  have tw: "takeWhile is_digit (nat_to_string n) = nat_to_string n" for n
    by (simp add: takeWhile_eq_all_conv nat_to_string_digits)
  have sp: "\<not> is_space (CHR ''-'')" by (simp add: is_space_def)
  show ?thesis
  proof (cases "i < 0")
    case True
    then show ?thesis
      using assms sp
      by (simp add: stoi_def to_string_def sign_of_def tw string_to_nat_nat_to_string)
  next
    case False
    obtain c cs where c: "nat_to_string (nat i) = c # cs" "is_digit c"
      using nat_to_string_head by blast
    then have "sign_of (dropWhile is_space (nat_to_string (nat i))) = (False, nat_to_string (nat i))"
      using digit_not_space by (simp add: sign_of_def)
    with False assms show ?thesis
      by (simp add: stoi_def to_string_def tw string_to_nat_nat_to_string)
  qed
qed

lemma Log_Init_ok:
  assumes "''CDR'' \<notin> set (registry w)" "''SERVER'' \<notin> set (registry w)" "''OPERATORS'' \<notin> set (registry w)"
  shows "\<exists>w'. Log_Init None ls lo w = returns () w' \<and> objects w' = objects w \<and>
    cdr_written w' = cdr_written w \<and> next_call_id w' = next_call_id w \<and>
    logger_level (cdrLog w') = info \<and> logger_level (serverLog w') = level_of_name ls \<and>
    logger_level (operatorsLog w') = level_of_name lo \<and> cdr_lines w' = cdr_lines w @ ['' '']"
  using assms by (simp add: Log_Init_def register_logger_def should_log_def Let_def)

lemma Log_Init_frame:
  "Log_Init fe ls lo w = returns () w' \<Longrightarrow> objects w' = objects w \<and>
     cdr_written w' = cdr_written w \<and> logger_level (cdrLog w') = info"
  by (auto simp: Log_Init_def register_logger_def Let_def split: option.splits if_splits)

lemma Listener_world:
  "run_acceptor_steps fails xs (l, w) = (l', w') \<Longrightarrow> objects w' = objects w \<and>
     cdr_written w' = cdr_written w \<and> cdrLog w' = cdrLog w"
  by (induction xs arbitrary: l) (auto split: option.splits)

lemma Listener_start_world:
  assumes "Listener_run (Listener_ctor fails w) = (l, w')"
  shows "objects w' = objects w \<and> cdr_written w' = cdr_written w \<and> cdrLog w' = cdrLog w"
  using assms Listener_world [of fails acceptor_steps]
  by (cases "Listener_ctor fails w") (auto simp: Listener_run_def Listener_ctor_def)

end
