(* ===== verification/QueueCorrect.thy ===== *)
theory QueueCorrect
  imports IncomingCallsQueue
begin

text \<open>
  The invariant of the queue of incoming calls, what every operation does under it, and the
  abstract queue whose removal of a caller \<^verbatim>\<open>pop\<close> and the timeout implement: the list of the
  distinct callers with their calls, in the order they called.
\<close>

section \<open>The invariant\<close>

definition number :: "world \<Rightarrow> shared_ptr \<Rightarrow> string" where
  "number w p = cg_pn (objects w ! the p)"

definition callers :: "world \<Rightarrow> queue \<Rightarrow> string list" where
  "callers w q = map (\<lambda>(n, p). number w p) (incoming_calls q)"

definition timer_of :: "queue \<Rightarrow> string \<Rightarrow> nat" where
  "timer_of q x = the (map_cg_pn_to_pos q x)"

text \<open>Nodes are distinct, older than the next one, and point to existing calls.\<close>

definition nodes_ok :: "world \<Rightarrow> queue \<Rightarrow> bool" where
  "nodes_ok w q \<longleftrightarrow> distinct (map fst (incoming_calls q)) \<and>
     (\<forall>(n, p) \<in> set (incoming_calls q). n < next_node q \<and> (\<exists>i < length (objects w). p = Some i))"

text \<open>No number waits twice, and the map has exactly the waiting numbers.\<close>

definition keys_ok :: "world \<Rightarrow> queue \<Rightarrow> bool" where
  "keys_ok w q \<longleftrightarrow> distinct (callers w q) \<and> dom (map_cg_pn_to_pos q) = set (callers w q)"

text \<open>Every timer is either free or the timer of one waiting call.\<close>

definition timers_ok :: "world \<Rightarrow> queue \<Rightarrow> bool" where
  "timers_ok w q \<longleftrightarrow> length (timers q) = capacity q \<and>
     distinct (free_timers q @ map (timer_of q) (callers w q)) \<and>
     set (free_timers q @ map (timer_of q) (callers w q)) = {..<capacity q}"

text \<open>
  The one wait operation in force on the timer of a waiting call would remove that very call;
  free timers have none.
\<close>

definition handlers_ok :: "world \<Rightarrow> queue \<Rightarrow> bool" where
  "handlers_ok w q \<longleftrightarrow>
     (\<forall>(n, p) \<in> set (incoming_calls q). live (timers q ! timer_of q (number w p)) = [(number w p, n)]) \<and>
     (\<forall>k \<in> set (free_timers q). live (timers q ! k) = [])"

definition queue_inv :: "world \<Rightarrow> queue \<Rightarrow> bool" where
  "queue_inv w q \<longleftrightarrow> 0 < capacity q \<and> capacity q \<le> 100000 \<and>
     nodes_ok w q \<and> keys_ok w q \<and> timers_ok w q \<and> handlers_ok w q"

lemmas queue_inv_defs = queue_inv_def nodes_ok_def keys_ok_def timers_ok_def handlers_ok_def

lemma queue_invD:
  assumes "queue_inv w q"
  shows "nodes_ok w q" "keys_ok w q" "timers_ok w q" "handlers_ok w q"
    "0 < capacity q" "capacity q \<le> 100000"
  using assms by (simp_all add: queue_inv_def)

lemma length_callers [simp]: "length (callers w q) = length (incoming_calls q)"
  by (simp add: callers_def)

lemma timers_split:
  assumes "queue_inv w q"
  shows "length (free_timers q) + length (incoming_calls q) = capacity q"
proof -
  have "card (set (free_timers q @ map (timer_of q) (callers w q))) = capacity q"
    using queue_invD(3) [OF assms] by (simp only: timers_ok_def card_lessThan)
  moreover have "distinct (free_timers q @ map (timer_of q) (callers w q))"
    using queue_invD(3) [OF assms] by (simp add: timers_ok_def)
  ultimately show ?thesis
    by (metis distinct_card length_append length_callers length_map)
qed

lemma queue_bounded: "queue_inv w q \<Longrightarrow> length (incoming_calls q) \<le> capacity q"
  using timers_split [of w q] by simp

lemma free_timer_available:
  "queue_inv w q \<Longrightarrow> length (incoming_calls q) < capacity q \<Longrightarrow> free_timers q \<noteq> []"
  using timers_split [of w q] by auto

lemma free_timer_valid:
  "queue_inv w q \<Longrightarrow> k \<in> set (free_timers q) \<Longrightarrow> k < capacity q \<and> k < length (timers q)"
  using queue_invD(3) [of w q] unfolding timers_ok_def by auto

text \<open>The invariant only looks at the numbers of existing calls, which never change.\<close>

definition same_numbers :: "world \<Rightarrow> world \<Rightarrow> bool" where
  "same_numbers w w' \<longleftrightarrow> length (objects w) \<le> length (objects w') \<and>
     (\<forall>i < length (objects w). cg_pn (objects w' ! i) = cg_pn (objects w ! i))"

lemma same_numbers_number:
  "same_numbers w w' \<Longrightarrow> p = Some i \<Longrightarrow> i < length (objects w) \<Longrightarrow> number w' p = number w p"
  by (simp add: same_numbers_def number_def)

lemma callers_world:
  assumes "same_numbers w w'" "nodes_ok w q"
  shows "callers w' q = callers w q"
  using assms unfolding callers_def nodes_ok_def
  by (auto intro!: map_cong simp: same_numbers_number)

lemma queue_inv_world:
  assumes "same_numbers w w'" "queue_inv w q"
  shows "queue_inv w' q"
proof -
  note inv = queue_invD [OF assms(2)]
  have c: "callers w' q = callers w q"
    using callers_world [OF assms(1) inv(1)] .
  have n: "number w' p = number w p" if "(n, p) \<in> set (incoming_calls q)" for n p
    using that inv(1) assms(1) unfolding nodes_ok_def by (auto intro: same_numbers_number)
  have "nodes_ok w' q"
    using inv(1) assms(1) unfolding nodes_ok_def same_numbers_def by fastforce
  moreover have "handlers_ok w' q"
    using inv(4) n unfolding handlers_ok_def by fastforce
  ultimately show ?thesis
    using inv c by (simp add: queue_inv_def keys_ok_def timers_ok_def)
qed

lemma same_numbers_refl [simp]: "same_numbers w w"
  by (simp add: same_numbers_def)

lemma same_numbers_trans: "same_numbers u v \<Longrightarrow> same_numbers v w \<Longrightarrow> same_numbers u w"
  by (auto simp: same_numbers_def)

lemma same_numbers_store [intro]:
  "i < length (objects w) \<Longrightarrow> cg_pn c = cg_pn (objects w ! i) \<Longrightarrow> same_numbers w (store i c w)"
  by (auto simp: same_numbers_def store_def nth_list_update)

lemma same_numbers_make_shared [intro]: "same_numbers w (snd (make_shared c w))"
  by (auto simp: same_numbers_def make_shared_def nth_append)

section \<open>Construction\<close>

lemma ctor_loop_result:
  "i \<le> cap \<Longrightarrow> ctor_loop cap i q = q\<lparr>timers := timers q @ replicate (cap - i) system_timer_ctor,
     free_timers := free_timers q @ [i..<cap]\<rparr>"
proof (induction cap i q rule: ctor_loop.induct)
  case (1 cap i q)
  show ?case
  proof (cases "i < cap")
    case True
    have r: "replicate (cap - i) system_timer_ctor =
        (system_timer_ctor :: (string \<times> iter) system_timer) # replicate (cap - Suc i) system_timer_ctor"
      using True by (metis Suc_diff_Suc replicate_Suc)
    from True "1.IH" have "ctor_loop cap (Suc i) (q\<lparr>timers := timers q @ [system_timer_ctor],
        free_timers := free_timers q @ [i]\<rparr>) =
        q\<lparr>timers := timers q @ replicate (cap - i) system_timer_ctor,
          free_timers := free_timers q @ [i..<cap]\<rparr>"
      by (simp add: r upt_conv_Cons)
    with True show ?thesis by (simp add: ctor_loop.simps [of cap i q])
  next
    case False
    with "1.prems" show ?thesis by (subst ctor_loop.simps) simp
  qed
qed

lemma queue_ctor_ok:
  assumes "0 < cap" "cap \<le> 100000"
  shows "\<exists>q. queue_ctor cap = Inr q \<and> queue_inv w q \<and> incoming_calls q = [] \<and>
     capacity q = cap \<and> cv_blocking q = 0"
  using assms
  by (auto simp: queue_ctor_def ctor_loop_result queue_inv_defs callers_def)

lemma queue_ctor_error: "(\<exists>e. queue_ctor cap = Inl e) \<longleftrightarrow> cap = 0 \<or> 100000 < cap"
  by (auto simp: queue_ctor_def)

section \<open>push\<close>

definition pushed :: "shared_ptr \<Rightarrow> Call \<Rightarrow> queue \<Rightarrow> queue" where
  "pushed call c q = (let k = hd (free_timers q) in
     q\<lparr>free_timers := tl (free_timers q),
       incoming_calls := incoming_calls q @ [(next_node q, call)],
       next_node := Suc (next_node q),
       map_cg_pn_to_pos := (map_cg_pn_to_pos q)(cg_pn c \<mapsto> k),
       timers := (timers q)[k := async_wait (cg_pn c, next_node q)
                    (expires_after (expiration_time c) (timers q ! k))],
       cv_blocking := cv_blocking q - 1\<rparr>)"

lemma pushed_fields [simp, run_simps]:
  "incoming_calls (pushed call c q) = incoming_calls q @ [(next_node q, call)]"
  "capacity (pushed call c q) = capacity q"
  "cv_blocking (pushed call c q) = cv_blocking q - 1"
  "free_timers (pushed call c q) = tl (free_timers q)"
  "next_node (pushed call c q) = Suc (next_node q)"
  "map_cg_pn_to_pos (pushed call c q) = (map_cg_pn_to_pos q)(cg_pn c \<mapsto> hd (free_timers q))"
  "length (timers (pushed call c q)) = length (timers q)"
  by (simp_all add: pushed_def Let_def)

lemma push_accept_pushed:
  assumes "free_timers q \<noteq> []" "hd (free_timers q) < length (timers q)"
  shows "push_accept call c q = returns OK (pushed call c q)"
  using assms
  by (cases "free_timers q") (simp_all add: push_accept_def pushed_def Let_def notify_one_def)

lemma push_cases:
  assumes "queue_inv w q" "deref w call = Inr c"
  shows "push w call q = (if cg_pn c \<in> set (callers w q) then returns ALREADY_IN_QUEUE q
     else if capacity q \<le> length (incoming_calls q) then returns OVERLOAD q
     else returns OK (pushed call c q))"
proof -
  note inv = queue_invD [OF assms(1)]
  have m: "map_cg_pn_to_pos q (cg_pn c) \<noteq> None \<longleftrightarrow> cg_pn c \<in> set (callers w q)"
    using inv(2) by (auto simp: keys_ok_def)
  have "push_accept call c q = returns OK (pushed call c q)"
    if "length (incoming_calls q) < capacity q"
  proof (rule push_accept_pushed)
    show f: "free_timers q \<noteq> []" using free_timer_available [OF assms(1) that] .
    then show "hd (free_timers q) < length (timers q)"
      using free_timer_valid [OF assms(1), of "hd (free_timers q)"] by simp
  qed
  with assms(2) m show ?thesis by (simp add: push_def)
qed

lemma callers_pushed:
  "deref w call = Inr c \<Longrightarrow> callers w (pushed call c q) = callers w q @ [cg_pn c]"
  by (auto simp: callers_def deref_Inr_iff number_def)

lemma pushed_inv:
  assumes "queue_inv w q" "deref w call = Inr c" "cg_pn c \<notin> set (callers w q)"
    "length (incoming_calls q) < capacity q"
  shows "queue_inv w (pushed call c q)"
proof -
  note inv = queue_invD [OF assms(1)]
  let ?q = "pushed call c q"
  obtain k rest where free: "free_timers q = k # rest"
    using free_timer_available [OF assms(1,4)] by (cases "free_timers q") auto
  have k: "k < length (timers q)" using free_timer_valid [OF assms(1)] free by simp
  have t_new: "timer_of ?q (cg_pn c) = k" by (simp add: timer_of_def free)
  have t_old: "timer_of ?q x = timer_of q x" if "x \<in> set (callers w q)" for x
    using that assms(3) by (auto simp: timer_of_def)
  have tmap: "map (timer_of ?q) (callers w ?q) = map (timer_of q) (callers w q) @ [k]"
    by (simp add: callers_pushed [OF assms(2)] t_new t_old)
  have split: "distinct (k # rest @ map (timer_of q) (callers w q))"
    "set (k # rest @ map (timer_of q) (callers w q)) = {..<capacity q}"
    using inv(3) by (simp_all add: timers_ok_def free)
  have tim: "timers ?q ! j = timers q ! j" if "j \<noteq> k" for j
    using that by (simp add: pushed_def Let_def free)
  have timk: "live (timers ?q ! k) = [(cg_pn c, next_node q)]"
    using k by (simp add: pushed_def Let_def free)
  have num: "number w call = cg_pn c" using assms(2) by (auto simp: deref_Inr_iff number_def)
  have "nodes_ok w ?q"
    using inv(1) assms(2) by (fastforce simp: nodes_ok_def deref_Inr_iff)
  moreover have "keys_ok w ?q"
    using inv(2) assms(3) by (auto simp: keys_ok_def callers_pushed [OF assms(2)])
  moreover have "timers_ok w ?q"
    using split inv(3) by (auto simp: timers_ok_def tmap free)
  moreover have "handlers_ok w ?q"
    unfolding handlers_ok_def
  proof (intro conjI ballI; clarify?)
    fix n p assume np: "(n, p) \<in> set (incoming_calls ?q)"
    show "live (timers ?q ! timer_of ?q (number w p)) = [(number w p, n)]"
    proof (cases "(n, p) \<in> set (incoming_calls q)")
      case True
      then have mem: "number w p \<in> set (callers w q)" by (force simp: callers_def)
      with split(1) have "timer_of q (number w p) \<noteq> k" by auto
      with True mem inv(4) show ?thesis by (auto simp: handlers_ok_def t_old tim)
    next
      case False
      with np have "n = next_node q" "p = call" by auto
      then show ?thesis by (simp add: num t_new timk)
    qed
  next
    fix j assume "j \<in> set (free_timers ?q)"
    then have j: "j \<in> set rest" by (simp add: free)
    with split(1) have "j \<noteq> k" by auto
    with j inv(4) show "live (timers ?q ! j) = []"
      by (auto simp: handlers_ok_def free tim)
  qed
  ultimately show ?thesis using inv(5,6) by (simp add: queue_inv_def)
qed

lemma pushed_timer:
  assumes "queue_inv w q" "length (incoming_calls q) < capacity q"
  shows "live (timers (pushed p c q) ! timer_of (pushed p c q) (cg_pn c)) = [(cg_pn c, next_node q)]"
    "expiry (timers (pushed p c q) ! timer_of (pushed p c q) (cg_pn c)) = Some (expiration_time c)"
proof -
  have "free_timers q \<noteq> []" using free_timer_available [OF assms] .
  then have "hd (free_timers q) < length (timers q)"
    using free_timer_valid [OF assms(1), of "hd (free_timers q)"] by simp
  then show "live (timers (pushed p c q) ! timer_of (pushed p c q) (cg_pn c)) = [(cg_pn c, next_node q)]"
    "expiry (timers (pushed p c q) ! timer_of (pushed p c q) (cg_pn c)) = Some (expiration_time c)"
    by (simp_all add: pushed_def timer_of_def Let_def async_wait_def expires_after_def)
      (simp add: live_def)
qed

lemma push_inv:
  assumes "queue_inv w q" "deref w call = Inr c" "push w call q = (r, q')"
  shows "queue_inv w q'"
  using assms pushed_inv [OF assms(1,2)]
  by (auto simp: push_cases [OF assms(1,2)] split: if_splits)

section \<open>Removing a call\<close>

text \<open>
  Both ways out of the queue, \<open>pop\<close> and the expiry of the timer, erase a node, forget its
  number and give its timer back.
\<close>

definition removed :: "iter \<Rightarrow> string \<Rightarrow> (string \<times> iter) system_timer list \<Rightarrow> queue \<Rightarrow> queue" where
  "removed n x ts q = q\<lparr>incoming_calls := erase_node n (incoming_calls q),
     map_cg_pn_to_pos := (map_cg_pn_to_pos q)(x := None),
     timers := ts, free_timers := free_timers q @ [timer_of q x]\<rparr>"

lemma removed_fields [simp, run_simps]:
  "incoming_calls (removed n x ts q) = erase_node n (incoming_calls q)"
  "capacity (removed n x ts q) = capacity q"
  "cv_blocking (removed n x ts q) = cv_blocking q"
  "next_node (removed n x ts q) = next_node q"
  "timers (removed n x ts q) = ts"
  "free_timers (removed n x ts q) = free_timers q @ [timer_of q x]"
  "map_cg_pn_to_pos (removed n x ts q) = (map_cg_pn_to_pos q)(x := None)"
  by (simp_all add: removed_def)

lemma node_unique:
  "distinct (map fst ns) \<Longrightarrow> (n, p) \<in> set ns \<Longrightarrow> (n, p') \<in> set ns \<Longrightarrow> p = p'"
  by (metis eq_key_imp_eq_value)

lemma erase_node_by_number:
  assumes "queue_inv w q" "(n, p) \<in> set (incoming_calls q)"
  shows "erase_node n (incoming_calls q) =
    filter (\<lambda>(n', p'). number w p' \<noteq> number w p) (incoming_calls q)"
proof -
  have d: "distinct (map fst (incoming_calls q))"
    using queue_invD(1) [OF assms(1)] by (simp add: nodes_ok_def)
  have c: "distinct (map (\<lambda>(n, p). number w p) (incoming_calls q))"
    using queue_invD(2) [OF assms(1)] by (simp add: keys_ok_def callers_def)
  have "n' \<noteq> n \<longleftrightarrow> number w p' \<noteq> number w p" if "(n', p') \<in> set (incoming_calls q)" for n' p'
  proof
    assume "n' \<noteq> n"
    then have "(n', p') \<noteq> (n, p)" by simp
    with c that assms(2) show "number w p' \<noteq> number w p"
      unfolding distinct_map inj_on_def by fastforce
  next
    assume "number w p' \<noteq> number w p"
    with d that assms(2) show "n' \<noteq> n" by (metis node_unique)
  qed
  then show ?thesis unfolding erase_node_def by (intro filter_cong) auto
qed

lemma callers_removed:
  assumes "queue_inv w q" "(n, p) \<in> set (incoming_calls q)"
  shows "callers w (removed n (number w p) ts q) = filter (\<lambda>y. y \<noteq> number w p) (callers w q)"
  by (simp add: callers_def erase_node_by_number [OF assms] filter_map comp_def case_prod_unfold)

lemma removed_inv:
  assumes "queue_inv w q" "(n, p) \<in> set (incoming_calls q)"
    and "length ts = length (timers q)"
    and "live (ts ! timer_of q (number w p)) = []"
    and "\<And>j. j < length ts \<Longrightarrow> j \<noteq> timer_of q (number w p) \<Longrightarrow> live (ts ! j) = live (timers q ! j)"
  shows "queue_inv w (removed n (number w p) ts q)"
proof -
  note inv = queue_invD [OF assms(1)]
  let ?x = "number w p" and ?q = "removed n (number w p) ts q" and ?t = "timer_of q"
  have x: "?x \<in> set (callers w q)" using assms(2) by (force simp: callers_def)
  have cs: "callers w ?q = filter (\<lambda>y. y \<noteq> ?x) (callers w q)"
    using callers_removed [OF assms(1,2)] .
  have t_old: "timer_of ?q y = ?t y" if "y \<noteq> ?x" for y using that by (simp add: timer_of_def)
  have inj: "inj_on ?t (set (callers w q))"
    using inv(3) by (simp add: timers_ok_def distinct_map)
  have range: "?t y < length ts" if "y \<in> set (callers w q)" for y
    using that inv(3) assms(3) unfolding timers_ok_def by auto
  have other: "live (ts ! ?t y) = live (timers q ! ?t y)"
    if "y \<in> set (callers w q)" "y \<noteq> ?x" for y
    using that x inj assms(5) [OF range [OF that(1)]] by (auto dest: inj_onD)
  have tmap: "map (timer_of ?q) (callers w ?q) = map ?t (filter (\<lambda>y. y \<noteq> ?x) (callers w q))"
    unfolding cs by (rule map_cong) (auto simp: t_old)
  have "nodes_ok w ?q"
    using inv(1) by (auto simp: nodes_ok_def erase_node_def distinct_map_filter)
  moreover have "keys_ok w ?q"
    using inv(2) by (auto simp: keys_ok_def cs)
  moreover have "timers_ok w ?q"
  proof -
    have "distinct (callers w q)" using inv(2) by (simp add: keys_ok_def)
    then have "distinct (map ?t (filter (\<lambda>y. y \<noteq> ?x) (callers w q)))"
      using inj by (auto simp: distinct_map intro: inj_on_subset)
    moreover have "?t ` (set (callers w q) - {?x}) \<union> {?t ?x} = ?t ` set (callers w q)"
      using x by auto
    moreover have "?t ?x \<notin> ?t ` (set (callers w q) - {?x})"
      using x inj by (auto dest: inj_onD)
    ultimately show ?thesis
      using inv(3) assms(3) x unfolding timers_ok_def tmap
      by (auto simp: set_diff_eq)
  qed
  moreover have "handlers_ok w ?q"
    unfolding handlers_ok_def
  proof (intro conjI ballI; clarify?)
    fix n' p' assume "(n', p') \<in> set (incoming_calls ?q)"
    then have m: "(n', p') \<in> set (incoming_calls q)" "number w p' \<noteq> ?x"
      by (simp_all add: erase_node_by_number [OF assms(1,2)])
    then have "number w p' \<in> set (callers w q)" by (force simp: callers_def)
    with m inv(4) show "live (timers ?q ! timer_of ?q (number w p')) = [(number w p', n')]"
      by (auto simp: t_old other handlers_ok_def)
  next
    fix j assume "j \<in> set (free_timers ?q)"
    then consider "j = ?t ?x" | "j \<in> set (free_timers q)" by auto
    then show "live (timers ?q ! j) = []"
    proof cases
      case 1
      then show ?thesis by (simp add: assms(4))
    next
      case 2
      then have "j \<noteq> ?t ?x" using x inv(3) by (auto simp: timers_ok_def)
      with 2 inv(4) free_timer_valid [OF assms(1) 2] assms(3) show ?thesis
        by (simp add: assms(5) handlers_ok_def)
    qed
  qed
  ultimately show ?thesis using inv(5,6) by (simp add: queue_inv_def)
qed

section \<open>pop\<close>

lemma erase_head:
  assumes "queue_inv w q" "incoming_calls q = (n, p) # rest"
  shows "erase_node n (incoming_calls q) = rest"
  using queue_invD(1) [OF assms(1)] assms(2)
  by (force simp: erase_node_def nodes_ok_def filter_id_conv)

lemma node_facts:
  assumes "queue_inv w q" "(n, p) \<in> set (incoming_calls q)"
  shows "\<exists>i < length (objects w). p = Some i" "map_of (incoming_calls q) n = Some p"
    "map_cg_pn_to_pos q (number w p) = Some (timer_of q (number w p))"
    "timer_of q (number w p) < length (timers q)"
proof -
  note inv = queue_invD [OF assms(1)]
  show "\<exists>i < length (objects w). p = Some i" "map_of (incoming_calls q) n = Some p"
    using inv(1) assms(2) by (auto simp: nodes_ok_def)
  have x: "number w p \<in> set (callers w q)" using assms(2) by (force simp: callers_def)
  then have "number w p \<in> dom (map_cg_pn_to_pos q)"
    using inv(2) by (simp add: keys_ok_def)
  then show "map_cg_pn_to_pos q (number w p) = Some (timer_of q (number w p))"
    by (auto simp: timer_of_def)
  from x inv(3) show "timer_of q (number w p) < length (timers q)"
    by (auto simp: timers_ok_def)
qed

lemma pop_Nil: "incoming_calls q = [] \<Longrightarrow> pop w q =
    raises (Out_of_range ''IncomingCallsQueue is empty, pop_front() is forbidden'') q"
  by (simp add: pop_def)

definition popped :: "world \<Rightarrow> queue \<Rightarrow> queue" where
  "popped w q = (let (n, p) = hd (incoming_calls q); x = number w p
     in removed n x ((timers q)[timer_of q x := cancel (timers q ! timer_of q x)]) q)"

lemma pop_Cons:
  assumes "queue_inv w q" "incoming_calls q = (n, p) # rest"
  shows "pop w q = returns p (popped w q)" "incoming_calls (popped w q) = rest"
    "queue_inv w (popped w q)"
proof -
  have mem: "(n, p) \<in> set (incoming_calls q)" by (simp add: assms(2))
  note nf = node_facts [OF assms(1) mem]
  have c: "\<exists>c. deref w p = Inr c \<and> cg_pn c = number w p"
    using nf(1) by (auto simp: number_def)
  show "pop w q = returns p (popped w q)"
    using c nf(3,4) erase_head [OF assms]
    by (auto simp: pop_def popped_def removed_def assms(2) Let_def)
  show "incoming_calls (popped w q) = rest"
    using erase_head [OF assms] by (simp add: popped_def assms(2) Let_def)
  show "queue_inv w (popped w q)"
    using removed_inv [OF assms(1) mem] nf(4)
    by (simp add: popped_def assms(2) Let_def nth_list_update)
qed

lemma pop_inv: "queue_inv w q \<Longrightarrow> pop w q = (r, q') \<Longrightarrow> queue_inv w q'"
  by (cases "incoming_calls q") (auto simp: pop_Nil pop_Cons)

lemma popped_fields:
  "cv_blocking (popped w q) = cv_blocking q" "capacity (popped w q) = capacity q"
  by (simp_all add: popped_def Let_def case_prod_unfold)

section \<open>Expiry of a timer\<close>

text \<open>A handler that is in force belongs to a waiting call.\<close>

lemma handler_in_force:
  assumes "queue_inv w q" "take_handler k i q = Some (((x, n), False), q')"
  shows "\<exists>p. (n, p) \<in> set (incoming_calls q) \<and> x = number w p \<and> k = timer_of q x \<and>
     k < length (timers q) \<and> (\<exists>t. live t = [] \<and> q' = q\<lparr>timers := (timers q)[k := t]\<rparr>)"
proof -
  note inv = queue_invD [OF assms(1)]
  from assms(2) obtain t where k: "k < length (timers q)"
    and t: "take_pending i (timers q ! k) = Some (((x, n), False), t)"
    and q': "q' = q\<lparr>timers := (timers q)[k := t]\<rparr>"
    by (auto simp: take_handler_def split: if_splits option.splits)
  have "live (timers q ! k) \<noteq> []" by (rule take_pending_none [OF t])
  with inv(4) have "k \<notin> set (free_timers q)" by (auto simp: handlers_ok_def)
  moreover have "k \<in> set (free_timers q @ map (timer_of q) (callers w q))"
    using k inv(3) unfolding timers_ok_def by simp
  ultimately obtain n' p' where np: "(n', p') \<in> set (incoming_calls q)" "k = timer_of q (number w p')"
    by (auto simp: callers_def)
  with inv(4) have l: "live (timers q ! k) = [(number w p', n')]" by (auto simp: handlers_ok_def)
  from take_pending_single [OF t l] np k q' show ?thesis by auto
qed

lemma handler_cancelled:
  assumes "queue_inv w q" "take_handler k i q = Some ((h, True), q')"
  shows "queue_inv w q' \<and> incoming_calls q' = incoming_calls q \<and> cv_blocking q' = cv_blocking q"
proof -
  from assms(2) obtain t where k: "k < length (timers q)"
    and t: "take_pending i (timers q ! k) = Some ((h, True), t)"
    and q': "q' = q\<lparr>timers := (timers q)[k := t]\<rparr>"
    by (auto simp: take_handler_def split: if_splits option.splits)
  have l: "live (timers q' ! j) = live (timers q ! j)" for j
    using take_pending_cancelled [OF t] k
    by (cases "j = k") (simp_all add: q')
  have f: "incoming_calls q' = incoming_calls q" "capacity q' = capacity q"
    "next_node q' = next_node q" "free_timers q' = free_timers q" "cv_blocking q' = cv_blocking q"
    "map_cg_pn_to_pos q' = map_cg_pn_to_pos q" "length (timers q') = length (timers q)"
    by (simp_all add: q')
  have "callers w q' = callers w q" "timer_of q' = timer_of q"
    by (simp_all add: callers_def timer_of_def fun_eq_iff f)
  with assms(1) show ?thesis by (simp add: queue_inv_defs f l)
qed

text \<open>
  The handler of an expired timer takes its call out of the queue, completes it with the status
  TIMEOUT and writes its record.
\<close>

definition timed_out :: "(int \<Rightarrow> tm) \<Rightarrow> time_point \<Rightarrow> shared_ptr \<Rightarrow> world \<Rightarrow> world" where
  "timed_out tz now p w =
     (let c = objects w ! the p in
      snd (WriteCDR tz p (log_operators info (call_tag c @ '' TIMEOUT'')
        (store (the p) (SetCompleteData TIMEOUT now c) w))))"

lemma OnCallReset_not_success:
  "ec \<noteq> Success \<Longrightarrow> \<exists>w'. OnCallReset tz now ec x n (w, q) = returns () (w', q) \<and>
     objects w' = objects w \<and> cdr_written w' = cdr_written w \<and> cdr_lines w' = cdr_lines w \<and>
     cdrLog w' = cdrLog w"
  by (cases ec) (auto simp: OnCallReset_def)

lemma OnCallReset_gone:
  "map_cg_pn_to_pos q x = None \<Longrightarrow> OnCallReset tz now Success x n (w, q) = returns () (w, q)"
  by (simp add: OnCallReset_def)

lemma OnCallReset_stale:
  "map_cg_pn_to_pos q x = Some k \<Longrightarrow> n \<notin> fst ` set (incoming_calls q) \<Longrightarrow>
     fst (OnCallReset tz now Success x n (w, q)) = Inl (Undefined Invalid_iterator)"
  by (simp add: OnCallReset_def Let_def flip: map_of_eq_None_iff)

lemma OnCallReset_in_force:
  assumes "queue_inv w q" "take_handler k i q = Some (((x, n), False), q1)"
    and ok: "\<And>c. c \<in> set (objects w) \<Longrightarrow> times_ok c" "0 \<le> now" "logger_level (cdrLog w) = info"
  shows "\<exists>p q2. (n, p) \<in> set (incoming_calls q) \<and> x = number w p \<and>
     OnCallReset tz now Success x n (w, q1) = returns () (timed_out tz now p w, q2) \<and>
     q2 = removed n x (timers q1) q \<and> queue_inv w q2"
proof -
  from handler_in_force [OF assms(1,2)] obtain p t where np: "(n, p) \<in> set (incoming_calls q)"
    and x: "x = number w p" "k = timer_of q x" "k < length (timers q)"
    and t: "live t = []" "q1 = q\<lparr>timers := (timers q)[k := t]\<rparr>" by auto
  note nf = node_facts [OF assms(1) np]
  from nf(1) obtain j where j: "j < length (objects w)" "p = Some j" by auto
  let ?c = "SetCompleteData TIMEOUT now (objects w ! j)"
  let ?w = "log_operators info (call_tag (objects w ! j) @ '' TIMEOUT'') (store j ?c w)"
  have "times_ok ?c"
    using ok(1) [of "objects w ! j"] ok(2) j(1) by (simp add: times_ok_def)
  then have wr: "\<exists>w'. WriteCDR tz (Some j) ?w = returns () w'"
    using WriteCDR_ok [of j ?w tz] j(1) ok(3) by auto
  have inv2: "queue_inv w (removed n x (timers q1) q)"
    using removed_inv [OF assms(1) np, of "timers q1"] x t by (simp add: nth_list_update)
  have "OnCallReset tz now Success x n (w, q1) =
      returns () (timed_out tz now p w, removed n x (timers q1) q)"
    using wr nf(2,3) j x t
    by (auto simp: OnCallReset_def timed_out_def removed_def Let_def call_tag_def number_def
        split: prod.splits)
  with np x inv2 show ?thesis by blast
qed

section \<open>The queue provides the interface of its clients\<close>

definition q_accepts :: "world \<Rightarrow> shared_ptr \<Rightarrow> queue \<Rightarrow> bool" where
  "q_accepts w p q \<longleftrightarrow> (case deref w p of Inl e \<Rightarrow> False
     | Inr c \<Rightarrow> cg_pn c \<notin> set (callers w q) \<and> length (incoming_calls q) < capacity q)"

lemma push_deref_error: "deref w p = Inl e \<Longrightarrow> push w p q = raises e q"
  by (simp add: push_def)

lemma push_preserves: "queue_inv w q \<Longrightarrow> queue_inv w (snd (push w p q))"
  by (cases "deref w p")
    (auto simp: push_deref_error push_cases pushed_inv split: prod.splits)

lemma push_content:
  "queue_inv w q \<Longrightarrow> map snd (incoming_calls (snd (push w p q))) =
     (if q_accepts w p q then map snd (incoming_calls q) @ [p] else map snd (incoming_calls q))"
  by (cases "deref w p") (auto simp: push_deref_error push_cases q_accepts_def)

lemma pop_content:
  assumes "queue_inv w q" "map snd (incoming_calls q) = p # ps"
  shows "\<exists>q'. pop w q = returns p q' \<and> map snd (incoming_calls q') = ps \<and> queue_inv w q'"
proof -
  from assms(2) obtain n rest where "incoming_calls q = (n, p) # rest" "ps = map snd rest"
    by (cases "incoming_calls q") auto
  with pop_Cons [OF assms(1)] show ?thesis by auto
qed

interpretation q_fifo: fifo "\<lambda>p q. snd (push w p q)" "pop w" "\<lambda>q. map snd (incoming_calls q)"
  "queue_inv w" "q_accepts w" for w
proof unfold_locales
  show "queue_inv w q \<Longrightarrow> queue_inv w (snd (push w p q))" for q p by (rule push_preserves)
  show "queue_inv w q \<Longrightarrow> map snd (incoming_calls (snd (push w p q))) =
     (if q_accepts w p q then map snd (incoming_calls q) @ [p] else map snd (incoming_calls q))"
    for q p by (rule push_content)
  show "queue_inv w q \<Longrightarrow> map snd (incoming_calls q) = [] \<Longrightarrow> \<exists>e. pop w q = (Inl e, q)" for q
    by (simp add: pop_Nil)
  show "queue_inv w q \<Longrightarrow> map snd (incoming_calls q) = p # ps \<Longrightarrow>
     \<exists>q'. pop w q = (Inr p, q') \<and> map snd (incoming_calls q') = ps \<and> queue_inv w q'" for q p ps
    by (rule pop_content)
qed

section \<open>The abstract queue\<close>

text \<open>The numbers that wait, with their calls, in the order they came.\<close>

type_synonym waiting = "(string \<times> shared_ptr) list"

definition abs_queue :: "world \<Rightarrow> queue \<Rightarrow> waiting" where
  "abs_queue w q = map (\<lambda>(n, p). (number w p, p)) (incoming_calls q)"

definition a_remove :: "string \<Rightarrow> waiting \<Rightarrow> waiting" where
  "a_remove x xs = filter (\<lambda>(y, p). y \<noteq> x) xs"

lemma abs_queue_facts:
  "length (abs_queue w q) = length (incoming_calls q)"
  "fst ` set (abs_queue w q) = set (callers w q)"
  by (auto simp: abs_queue_def callers_def image_image case_prod_unfold)

lemma removed_refines:
  assumes "queue_inv w q" "(n, p) \<in> set (incoming_calls q)"
  shows "abs_queue w (removed n (number w p) ts q) = a_remove (number w p) (abs_queue w q)"
  by (simp add: abs_queue_def a_remove_def erase_node_by_number [OF assms] filter_map comp_def
      case_prod_unfold)

end
