(* ===== verification/PhoneCorrect.thy ===== *)
theory PhoneCorrect
  imports PhoneNumber
begin

text \<open>
  The regular expression accepts exactly a written-out syntax, the groups of a match are the
  digits of the subject whatever way the matcher takes, and the loop of \<^verbatim>\<open>UrlDecode\<close> is a
  left-to-right rewriting.
\<close>

section \<open>Decoding\<close>

fun decode :: "string \<Rightarrow> string" where
  "decode [] = []"
| "decode (c # cs) = (if prefix ''%20'' (c # cs) then CHR '' '' # decode (drop 2 cs)
     else c # decode cs)"

lemma decode_escape: "decode (''%20'' @ s) = CHR '' '' # decode s"
  by simp

lemma find_here_None_decode: "find_here ''%20'' s = None \<Longrightarrow> decode s = s"
  by (induction s) (auto split: if_splits)

lemma find_here_Some_decode:
  "find_here ''%20'' s = Some i \<Longrightarrow> decode s = take i s @ CHR '' '' # decode (drop (i + 3) s)"
proof (induction s arbitrary: i)
  case (Cons c cs)
  show ?case
  proof (cases "prefix ''%20'' (c # cs)")
    case True
    then obtain t where t: "c # cs = ''%20'' @ t" by (auto simp: prefix_def)
    then have "find_here ''%20'' (c # cs) = Some 0" by simp
    with Cons.prems have "i = 0" by (simp only: option.inject)
    with t show ?thesis by simp
  next
    case False
    with Cons.prems obtain j where j: "find_here ''%20'' cs = Some j" "i = Suc j" by auto
    have "drop (i + 3) (c # cs) = drop (j + 3) cs"
      by (simp only: j(2) add_Suc drop_Suc_Cons)
    moreover have "decode (c # cs) = c # decode cs"
      using False by (simp only: decode.simps if_False)
    ultimately show ?thesis using Cons.IH [OF j(1)] j(2) by simp
  qed
qed simp

lemma UrlDecode_loop_decode:
  "start_pos \<le> length str \<Longrightarrow>
     UrlDecode_loop start_pos str = take start_pos str @ decode (drop start_pos str)"
proof (induction start_pos str rule: UrlDecode_loop.induct)
  case (1 start_pos str)
  show ?case
  proof (cases "find_here ''%20'' (drop start_pos str)")
    case None
    with "1.prems" show ?thesis
      by (subst UrlDecode_loop.simps) (simp add: string_find_def find_here_None_decode)
  next
    case (Some i)
    let ?p = "start_pos + i"
    have found: "string_find str ''%20'' start_pos = Some ?p"
      using Some "1.prems" by (simp add: string_find_def)
    have bound: "?p + 3 \<le> length str"
      using find_here_bound [OF Some] "1.prems" by simp
    have str: "string_replace ?p (length ''%20'') '' '' str =
        take ?p str @ CHR '' '' # drop (?p + 3) str"
      by (simp add: string_replace_def numeral_3_eq_3)
    have len: "length '' '' = 1" by simp
    have drop: "drop (i + 3) (drop start_pos str) = drop (?p + 3) str"
      by (simp add: ac_simps)
    have "UrlDecode_loop start_pos str =
        UrlDecode_loop (?p + 1) (take ?p str @ CHR '' '' # drop (?p + 3) str)"
      by (subst UrlDecode_loop.simps) (simp only: found option.case str len)
    also have "\<dots> = take ?p str @ CHR '' '' # decode (drop (?p + 3) str)"
      using "1.IH" [OF found, unfolded str len] bound by simp
    also have "\<dots> = take start_pos str @ decode (drop start_pos str)"
      using find_here_Some_decode [OF Some] drop
      by (simp only: take_add append_assoc)
    finally show ?thesis .
  qed
qed

lemma UrlDecode_decode: "UrlDecode str = decode str"
  by (simp add: UrlDecode_def UrlDecode_loop_decode)

lemma decode_no_escape: "\<not> sublist ''%20'' (decode s)"
proof (induction s rule: decode.induct)
  case (2 c cs)
  show ?case
  proof (cases "prefix ''%20'' (c # cs)")
    case True
    then obtain t where t: "c # cs = ''%20'' @ t" by (auto simp: prefix_def)
    with 2(1) [OF True] show ?thesis by (simp add: sublist_Cons_right)
  next
    case False
    have "\<not> prefix ''%20'' (c # decode cs)"
    proof
      assume p: "prefix ''%20'' (c # decode cs)"
      then have c: "c = CHR ''%''" "prefix ''20'' (decode cs)" by auto
      have "prefix ''20'' cs"
      proof (cases cs)
        case Nil
        with c show ?thesis by simp
      next
        case (Cons d ds)
        with c(2) have d: "d = CHR ''2''" "prefix ''0'' (decode ds)"
          by (auto split: if_splits)
        with Cons show ?thesis by (cases ds) (auto split: if_splits)
      qed
      with c(1) False show False by simp
    qed
    with 2(2) [OF False] False show ?thesis
      by (simp only: decode.simps if_False sublist_Cons_right) simp
  qed
qed (simp add: sublist_def)

section \<open>Matches of the parts of the pattern\<close>

lemma Cls_matches: "(m', s') \<in> set (matches (Cls P) s m) \<longleftrightarrow> m' = m \<and> (\<exists>c. s = c # s' \<and> P c)"
  by (cases s) auto

lemma Cat_matches: "(m', s') \<in> set (matches (Cat r1 r2) s m) \<longleftrightarrow>
    (\<exists>m1 s1. (m1, s1) \<in> set (matches r1 s m) \<and> (m', s') \<in> set (matches r2 s1 m1))"
  by (simp add: Bex_def split_paired_Ex)

lemma Opt_matches: "(m', s') \<in> set (matches (Opt r) s m) \<longleftrightarrow>
    (m' = m \<and> s' = s) \<or> (m', s') \<in> set (matches r s m)"
  by auto

lemma Many_Cls_matches: "(m', s') \<in> set (matches (Many (Cls P)) s m) \<longleftrightarrow>
    m' = m \<and> (\<exists>u. s = u @ s' \<and> list_all P u)"
proof (induction s)
  case Nil
  show ?case by (subst matches.simps) auto
next
  case (Cons c cs)
  have "(m', s') \<in> set (matches (Many (Cls P)) (c # cs) m) \<longleftrightarrow>
      (P c \<and> (m', s') \<in> set (matches (Many (Cls P)) cs m)) \<or> (m' = m \<and> s' = c # cs)"
    by (subst matches.simps) auto
  also have "\<dots> \<longleftrightarrow> m' = m \<and> (\<exists>u. c # cs = u @ s' \<and> list_all P u)"
    unfolding Cons.IH by (auto simp: Cons_eq_append_conv)
  finally show ?case .
qed

lemma Rep_Cls_matches: "(m', s') \<in> set (matches (Rep n (Cls P)) s m) \<longleftrightarrow>
    m' = m \<and> (\<exists>u. s = u @ s' \<and> length u = n \<and> list_all P u)"
proof (induction n arbitrary: s m)
  case 0
  show ?case by auto
next
  case (Suc n)
  show ?case
    unfolding Rep.simps Cat_matches Cls_matches Suc.IH
    by (auto simp del: matches.simps simp: length_Suc_conv)
qed

lemma Group_Rep_matches: "(m', s') \<in> set (matches (Group k (Rep n (Cls P))) s m) \<longleftrightarrow>
    (\<exists>u. s = u @ s' \<and> m' = m(k \<mapsto> u) \<and> length u = n \<and> list_all P u)"
proof -
  have "(m', s') \<in> set (matches (Group k (Rep n (Cls P))) s m) \<longleftrightarrow>
      (\<exists>m1. (m1, s') \<in> set (matches (Rep n (Cls P)) s m) \<and>
         m' = m1(k \<mapsto> take (length s - length s') s))"
    by (auto simp: image_iff Bex_def split_paired_Ex)
  then show ?thesis unfolding Rep_Cls_matches by auto
qed

section \<open>The syntax of telephone numbers\<close>

text \<open>
  A slash; optionally one digit, which may have a plus sign; three, three and four digits; with
  the separators the pattern allows between the parts and white space at both ends.
\<close>

definition country_code :: "string \<Rightarrow> string \<Rightarrow> bool" where
  "country_code pl cc \<longleftrightarrow> (pl = [] \<and> cc = []) \<or>
     ((pl = [] \<or> pl = ''+'') \<and> length cc = 1 \<and> list_all is_digit cc)"

definition phone_parts :: "string \<Rightarrow> string \<Rightarrow> string \<Rightarrow> string \<Rightarrow> string \<Rightarrow> bool" where
  "phone_parts s cc g2 g3 g4 \<longleftrightarrow> (\<exists>ws pl s1 s2 s3 ws'.
     s = ''/'' @ ws @ pl @ cc @ s1 @ g2 @ s2 @ g3 @ s3 @ g4 @ ws' \<and>
     list_all is_space ws \<and> country_code pl cc \<and>
     list_all (\<lambda>c. c \<in> set ''-. ('') s1 \<and> list_all is_digit g2 \<and> length g2 = 3 \<and>
     list_all (\<lambda>c. c \<in> set ''-. )'') s2 \<and> list_all is_digit g3 \<and> length g3 = 3 \<and>
     list_all (\<lambda>c. c \<in> set ''-. '') s3 \<and> list_all is_digit g4 \<and> length g4 = 4 \<and>
     list_all is_space ws')"

lemma country_matches:
  "(m', s') \<in> set (matches (Opt (Cat (Opt (Cls (\<lambda>c. c = CHR ''+''))) (Group 1 (Rep 1 (Cls is_digit))))) s m)
     \<longleftrightarrow> (\<exists>pl cc. s = pl @ cc @ s' \<and> m' = (if cc = [] then m else m(1 \<mapsto> cc)) \<and> country_code pl cc)"
    (is "?L \<longleftrightarrow> ?R")
proof
  assume ?L
  then consider "m' = m" "s' = s"
    | u where "length u = 1" "list_all is_digit u" "s = u @ s'" "m' = m(1 \<mapsto> u)"
    | u where "length u = 1" "list_all is_digit u" "s = ''+'' @ u @ s'" "m' = m(1 \<mapsto> u)"
    unfolding Opt_matches Cat_matches Cls_matches Group_Rep_matches by fastforce
  then show ?R
  proof cases
    case 1
    then show ?thesis by (intro exI [of _ "[]"]) (simp add: country_code_def)
  next
    case (2 u)
    then show ?thesis by (intro exI [of _ "[]"] exI [of _ u]) (auto simp: country_code_def)
  next
    case (3 u)
    then show ?thesis by (intro exI [of _ "''+''"] exI [of _ u]) (auto simp: country_code_def)
  qed
next
  assume ?R
  then show ?L
    unfolding Opt_matches Cat_matches Cls_matches Group_Rep_matches country_code_def by force
qed

lemmas part_matches = Cat_matches country_matches Cls_matches Many_Cls_matches Group_Rep_matches

definition phone_captures :: "string \<Rightarrow> string \<Rightarrow> string \<Rightarrow> string \<Rightarrow> captures" where
  "phone_captures cc g2 g3 g4 =
     ((if cc = [] then Map.empty else Map.empty(1 \<mapsto> cc))(2 \<mapsto> g2, 3 \<mapsto> g3, 4 \<mapsto> g4))"

lemma smatch_captures: "smatch s (phone_captures cc g2 g3 g4) = [s, cc, g2, g3, g4]"
  by (simp add: smatch_def group_def phone_captures_def)

lemma pattern_matches:
  "(m, []) \<in> set (matches phone_pattern s Map.empty) \<longleftrightarrow>
     (\<exists>cc g2 g3 g4. phone_parts s cc g2 g3 g4 \<and> m = phone_captures cc g2 g3 g4)"
proof
  assume "(m, []) \<in> set (matches phone_pattern s Map.empty)"
  then show "\<exists>cc g2 g3 g4. phone_parts s cc g2 g3 g4 \<and> m = phone_captures cc g2 g3 g4"
    unfolding phone_pattern_def part_matches phone_parts_def phone_captures_def append_Cons
      append_Nil append_Nil2
    by (elim exE conjE, hypsubst, intro exI conjI) (rule refl | assumption)+
next
  assume "\<exists>cc g2 g3 g4. phone_parts s cc g2 g3 g4 \<and> m = phone_captures cc g2 g3 g4"
  then show "(m, []) \<in> set (matches phone_pattern s Map.empty)"
    unfolding phone_pattern_def part_matches phone_parts_def phone_captures_def append_Cons
      append_Nil append_Nil2
    by (elim exE conjE, hypsubst, intro exI conjI) (rule refl | assumption)+
qed

text \<open>The digits of the subject determine the groups.\<close>

lemma filter_none: "list_all P s \<Longrightarrow> (\<And>c. P c \<Longrightarrow> \<not> is_digit c) \<Longrightarrow> filter is_digit s = []"
  by (induction s) auto

lemma filter_all: "list_all is_digit s \<Longrightarrow> filter is_digit s = s"
  by (induction s) auto

lemma separators_no_digits:
  "c \<in> set ''-. ('' \<Longrightarrow> \<not> is_digit c" "c \<in> set ''-. )'' \<Longrightarrow> \<not> is_digit c"
  "c \<in> set ''-. '' \<Longrightarrow> \<not> is_digit c" "is_space c \<Longrightarrow> \<not> is_digit c"
  by (auto simp: is_digit_def is_space_def)

lemma country_code_digits:
  "country_code pl cc \<Longrightarrow> filter is_digit pl = [] \<and> filter is_digit cc = cc \<and> length cc \<le> 1"
  by (auto simp: country_code_def filter_all is_digit_def)

lemma phone_parts_digits:
  assumes "phone_parts s cc g2 g3 g4"
  shows "filter is_digit s = cc @ g2 @ g3 @ g4" "length cc \<le> 1" "length (g2 @ g3 @ g4) = 10"
  using assms
  by (auto dest!: country_code_digits simp: phone_parts_def filter_all is_digit_def [of "CHR ''/''"]
      filter_none [OF _ separators_no_digits(1)] filter_none [OF _ separators_no_digits(2)]
      filter_none [OF _ separators_no_digits(3)] filter_none [OF _ separators_no_digits(4)])

definition phone_syntax :: "string \<Rightarrow> bool" where
  "phone_syntax s \<longleftrightarrow> (\<exists>cc g2 g3 g4. phone_parts s cc g2 g3 g4)"

text \<open>The common format: a seven instead of a missing country code or of an eight.\<close>

definition normal_form :: "string \<Rightarrow> string" where
  "normal_form ds = (if length ds = 10 then ''7'' @ ds
     else if hd ds = CHR ''8'' then ''7'' @ tl ds else ds)"

lemma append_groups_from:
  "i \<le> length ms \<Longrightarrow> append_groups ms i acc = acc @ concat (drop i ms)"
proof (induction ms i acc rule: append_groups.induct)
  case (1 ms i acc)
  show ?case
  proof (cases "i < length ms")
    case True
    with 1 show ?thesis
      by (subst append_groups.simps) (simp add: Cons_nth_drop_Suc [symmetric])
  next
    case False
    with "1.prems" show ?thesis by (subst append_groups.simps) simp
  qed
qed

lemma PreparePhoneNumber_parts:
  assumes "phone_parts s cc g2 g3 g4"
  shows "PreparePhoneNumber [s, cc, g2, g3, g4] acc = acc @ normal_form (filter is_digit s)"
  using phone_parts_digits [OF assms]
  by (cases cc) (auto simp: PreparePhoneNumber_def append_groups_from normal_form_def
      numeral_eq_Suc)

lemma regex_match_phone:
  "(regex_match phone_pattern s = None \<longleftrightarrow> \<not> phone_syntax s) \<and>
   (\<forall>m. regex_match phone_pattern s = Some m \<longrightarrow>
      (\<exists>cc g2 g3 g4. phone_parts s cc g2 g3 g4 \<and> m = phone_captures cc g2 g3 g4))"
proof (cases "find (\<lambda>(m, s'). s' = []) (matches phone_pattern s Map.empty)")
  case None
  then have "(m, []) \<notin> set (matches phone_pattern s Map.empty)" for m
    by (auto simp: find_None_iff)
  then have "\<not> phone_syntax s"
    unfolding phone_syntax_def pattern_matches by blast
  with None show ?thesis by (simp add: regex_match_def)
next
  case (Some p)
  then obtain m where m: "p = (m, [])" "(m, []) \<in> set (matches phone_pattern s Map.empty)"
    by (auto simp: find_Some_iff) (metis nth_mem)
  with Some show ?thesis
    using pattern_matches [of m s] by (auto simp: regex_match_def phone_syntax_def)
qed

lemma isValidPhoneNumber_spec:
  "isValidPhoneNumber q acc = (let s = decode q in
     if phone_syntax s then (True, acc @ normal_form (filter is_digit s)) else (False, acc))"
proof (cases "regex_match phone_pattern (decode q)")
  case None
  with regex_match_phone [of "decode q"] show ?thesis
    by (simp add: isValidPhoneNumber_def UrlDecode_decode Let_def)
next
  case (Some m)
  with regex_match_phone [of "decode q"] obtain cc g2 g3 g4 where
    p: "phone_parts (decode q) cc g2 g3 g4" "m = phone_captures cc g2 g3 g4" "phone_syntax (decode q)"
    by (metis option.distinct(1))
  with Some show ?thesis
    by (simp add: isValidPhoneNumber_def UrlDecode_decode Let_def smatch_captures
        PreparePhoneNumber_parts)
qed

lemma normal_form_shape:
  assumes "phone_syntax s"
  shows "length (normal_form (filter is_digit s)) = 11"
    "list_all is_digit (normal_form (filter is_digit s))"
    "hd (normal_form (filter is_digit s)) \<noteq> CHR ''8''"
proof -
  from assms obtain cc g2 g3 g4 where p: "phone_parts s cc g2 g3 g4"
    by (auto simp: phone_syntax_def)
  note d = phone_parts_digits [OF p]
  have all: "list_all is_digit (filter is_digit s)" by (simp add: list_all_iff)
  have seven: "is_digit CHR ''7''" by (simp add: is_digit_def)
  show "length (normal_form (filter is_digit s)) = 11"
    "list_all is_digit (normal_form (filter is_digit s))"
    "hd (normal_form (filter is_digit s)) \<noteq> CHR ''8''"
    using d all seven by (cases cc; auto simp: normal_form_def)+
qed

lemma canonical_syntax:
  assumes "length p = 11" "list_all is_digit p"
  shows "phone_syntax (CHR ''/'' # p)"
proof -
  let ?cc = "take 1 p" and ?g2 = "take 3 (drop 1 p)" and ?g3 = "take 3 (drop 4 p)"
    and ?g4 = "drop 7 p"
  have "p = ?cc @ drop 1 p" by simp
  also have "drop 1 p = ?g2 @ drop 4 p"
    using append_take_drop_id [of 3 "drop 1 p"] by simp
  also have "drop 4 p = ?g3 @ ?g4"
    using append_take_drop_id [of 3 "drop 4 p"] by simp
  finally have split: "p = ?cc @ ?g2 @ ?g3 @ ?g4" .
  then have "list_all is_digit (?cc @ ?g2 @ ?g3 @ ?g4)" using assms(2) by simp
  then have "list_all is_digit ?cc" "list_all is_digit ?g2" "list_all is_digit ?g3" "list_all is_digit ?g4"
    by (simp_all only: list_all_append)
  moreover have "CHR ''/'' # p = ''/'' @ [] @ [] @ ?cc @ [] @ ?g2 @ [] @ ?g3 @ [] @ ?g4 @ []"
    using split by simp
  ultimately have "phone_parts (CHR ''/'' # p) ?cc ?g2 ?g3 ?g4"
    unfolding phone_parts_def country_code_def using assms(1)
    by (intro exI conjI) (assumption | simp)+
  then show ?thesis by (auto simp: phone_syntax_def)
qed

end
