(* ===== verification/SessionCorrect.thy ===== *)
theory SessionCorrect
  imports Session QueueCorrect PhoneCorrect
begin

text \<open>
  What a request does to the shared state, on every branch, under the invariant of the queue; and the
  protocol of a session, the stages it goes through from one handler to the next.
\<close>

section \<open>Adding a call\<close>

definition world_ok :: "world \<Rightarrow> bool" where
  "world_ok w \<longleftrightarrow> logger_level (cdrLog w) = info \<and> (\<forall>c \<in> set (objects w). times_ok c)"

lemma world_ok_nth: "world_ok w \<Longrightarrow> i < length (objects w) \<Longrightarrow> times_ok (objects w ! i)"
  by (simp add: world_ok_def)

lemma world_ok_info: "world_ok w \<Longrightarrow> logger_level (cdrLog w) = info"
  by (simp add: world_ok_def)

text \<open>A call that is turned away is completed at once and gets its record.\<close>

definition turned_away :: "(int \<Rightarrow> tm) \<Rightarrow> time_point \<Rightarrow> RespStatus \<Rightarrow> shared_ptr \<Rightarrow> world \<Rightarrow> world" where
  "turned_away tz now rs p w = (let c = objects w ! the p in
     snd (WriteCDR tz p (store (the p) (SetCompleteData rs now c)
       (log_operators info (call_tag c @ (if rs = OVERLOAD then '' QUEUE OVERLOAD''
          else '' ALREADY IN QUEUE'')) w))))"

definition turned_away_text :: "RespStatus \<Rightarrow> string" where
  "turned_away_text rs = (if rs = OVERLOAD then ''The queue is overloaded''
     else ''This phone number is already waiting'')"

lemma WriteCDR_written:
  assumes "i < length (objects w)" "times_ok (objects w ! i)" "logger_level (cdrLog w) = info"
  shows "fst (WriteCDR tz (Some i) w) = Inr ()"
    "cdr_written (snd (WriteCDR tz (Some i) w)) = cdr_written w @ [i]"
    "\<exists>line. cdr_line tz (objects w ! i) = Inr line \<and>
       cdr_lines (snd (WriteCDR tz (Some i) w)) = cdr_lines w @ [line]"
  using WriteCDR_ok [OF assms, of tz] by auto

lemma SetCompleteData_times_ok [simp]:
  "times_ok c \<Longrightarrow> 0 \<le> now \<Longrightarrow> times_ok (SetCompleteData st now c)"
  by (simp add: times_ok_def)

lemma completed_written:
  fixes rs l m
  assumes "world_ok w" "i < length (objects w)" "0 \<le> now"
  defines "w1 \<equiv> store i (SetCompleteData rs now (objects w ! i)) (log_operators l m w)"
  shows "fst (WriteCDR tz (Some i) w1) = Inr ()"
    "objects (snd (WriteCDR tz (Some i) w1)) = (objects w)[i := SetCompleteData rs now (objects w ! i)]"
    "cdr_written (snd (WriteCDR tz (Some i) w1)) = cdr_written w @ [i]"
    "world_ok (snd (WriteCDR tz (Some i) w1))"
    "same_numbers w (snd (WriteCDR tz (Some i) w1))"
    "\<exists>line. cdr_line tz (SetCompleteData rs now (objects w ! i)) = Inr line \<and>
       cdr_lines (snd (WriteCDR tz (Some i) w1)) = cdr_lines w @ [line]"
proof -
  have t: "times_ok (SetCompleteData rs now (objects w ! i))"
    using world_ok_nth [OF assms(1,2)] assms(3) by simp
  have w1: "i < length (objects w1)" "times_ok (objects w1 ! i)" "logger_level (cdrLog w1) = info"
    using assms(2) t world_ok_info [OF assms(1)] by (simp_all add: w1_def)
  show "fst (WriteCDR tz (Some i) w1) = Inr ()"
    and "objects (snd (WriteCDR tz (Some i) w1)) = (objects w)[i := SetCompleteData rs now (objects w ! i)]"
    and "cdr_written (snd (WriteCDR tz (Some i) w1)) = cdr_written w @ [i]"
    and "\<exists>line. cdr_line tz (SetCompleteData rs now (objects w ! i)) = Inr line \<and>
       cdr_lines (snd (WriteCDR tz (Some i) w1)) = cdr_lines w @ [line]"
    using WriteCDR_written [OF w1, of tz] assms(2) by (simp_all add: w1_def)
  show "world_ok (snd (WriteCDR tz (Some i) w1))"
    using assms(1) t by (auto simp: world_ok_def w1_def dest: set_update_subset_insert [THEN subsetD])
  show "same_numbers w (snd (WriteCDR tz (Some i) w1))"
    using assms(2) by (auto simp: same_numbers_def w1_def nth_list_update)
qed

lemma turned_away_facts:
  assumes "world_ok w" "i < length (objects w)" "0 \<le> now"
  shows "objects (turned_away tz now rs (Some i) w) =
      (objects w)[i := SetCompleteData rs now (objects w ! i)]"
    "cdr_written (turned_away tz now rs (Some i) w) = cdr_written w @ [i]"
    "world_ok (turned_away tz now rs (Some i) w)"
    "same_numbers w (turned_away tz now rs (Some i) w)"
    "\<exists>line. cdr_line tz (SetCompleteData rs now (objects w ! i)) = Inr line \<and>
       cdr_lines (turned_away tz now rs (Some i) w) = cdr_lines w @ [line]"
  by (simp_all add: turned_away_def Let_def completed_written [OF assms])

lemma timed_out_facts:
  assumes "world_ok w" "i < length (objects w)" "0 \<le> now"
  shows "objects (timed_out tz now (Some i) w) =
      (objects w)[i := SetCompleteData TIMEOUT now (objects w ! i)]"
    "cdr_written (timed_out tz now (Some i) w) = cdr_written w @ [i]"
    "world_ok (timed_out tz now (Some i) w)"
    "same_numbers w (timed_out tz now (Some i) w)"
    "\<exists>line. cdr_line tz (SetCompleteData TIMEOUT now (objects w ! i)) = Inr line \<and>
       cdr_lines (timed_out tz now (Some i) w) = cdr_lines w @ [line]"
proof -
  have "log_operators info m (store i c w) = store i c (log_operators info m w)" for c m
    by (simp add: log_operators_def store_def)
  then show "objects (timed_out tz now (Some i) w) =
      (objects w)[i := SetCompleteData TIMEOUT now (objects w ! i)]"
    "cdr_written (timed_out tz now (Some i) w) = cdr_written w @ [i]"
    "world_ok (timed_out tz now (Some i) w)"
    "same_numbers w (timed_out tz now (Some i) w)"
    "\<exists>line. cdr_line tz (SetCompleteData TIMEOUT now (objects w ! i)) = Inr line \<and>
       cdr_lines (timed_out tz now (Some i) w) = cdr_lines w @ [line]"
    by (simp_all add: timed_out_def Let_def completed_written [OF assms])
qed

lemma AddToQueue_result:
  assumes "queue_inv w q" "world_ok w" "i < length (objects w)" "0 \<le> now"
  defines "c \<equiv> objects w ! i"
  shows "AddToQueue tz ver v now (Some i) (w, q) =
    (if cg_pn c \<in> set (callers w q)
     then returns (HandleValidReq ver v (turned_away_text ALREADY_IN_QUEUE))
       (turned_away tz now ALREADY_IN_QUEUE (Some i) w, q)
     else if capacity q \<le> length (incoming_calls q)
     then returns (HandleValidReq ver v (turned_away_text OVERLOAD))
       (turned_away tz now OVERLOAD (Some i) w, q)
     else returns (HandleValidReq ver v (''CallId: '' @ to_string (uint (call_id c))))
       (log_operators info (call_tag c @ '' WAIT IN QUEUE'') w, pushed (Some i) c q))"
proof -
  have d: "deref w (Some i) = Inr c" using assms(3) by (simp add: c_def)
  note cw = completed_written [OF assms(2,3,4)]
  have wr: "\<exists>w'. WriteCDR tz (Some i) (store i (SetCompleteData rs now c) (log_operators l m w)) =
      returns () w'" for rs l m
    using cw(1) [of tz rs l m] unfolding c_def by (metis prod.collapse)
  obtain wa where wa: "WriteCDR tz (Some i) (store i (SetCompleteData ALREADY_IN_QUEUE now c)
      (log_operators info (call_tag c @ '' ALREADY IN QUEUE'') w)) = returns () wa"
    using wr by blast
  obtain wo where wo: "WriteCDR tz (Some i) (store i (SetCompleteData OVERLOAD now c)
      (log_operators info (call_tag c @ '' QUEUE OVERLOAD'') w)) = returns () wo"
    using wr by blast
  show ?thesis
    using d wa wo
    by (simp add: AddToQueue_def push_cases [OF assms(1) d] turned_away_def turned_away_text_def
        Let_def flip: c_def)
qed

section \<open>Handling a request\<close>

text \<open>The two draws the next call makes, scaled to milliseconds, fit an \<^verbatim>\<open>int\<close>.\<close>

definition draws_fit :: "'g env \<Rightarrow> 'g rand_gen \<Rightarrow> bool" where
  "draws_fit env r \<longleftrightarrow> (case getRandErlang (env_fl env) (env_gamma env) r of
       (Inl e, r') \<Rightarrow> False
     | (Inr d, r') \<Rightarrow> (case getRandUniform (env_fl env) (env_uniform env) r' of
           (Inl e, r'') \<Rightarrow> False | (Inr x, r'') \<Rightarrow> True))"

lemma Call_ctor_fields:
  assumes "Call_ctor fl gd ud phone now (r, n) = (Inr c, (r', n'))"
  shows "n' = n + 1" "call_id c = n" "cg_pn c = phone" "dt_request c = now" "dt_response c = 0"
    "dt_completion c = 0" "status c = OK"
  using assms
  by (auto simp: Call_ctor_def getNextCallId_def Let_def split: prod.splits sum.splits)

lemma Call_ctor_ok:
  assumes "draws_fit env r"
  shows "\<exists>c r' n'. Call_ctor (env_fl env) (env_gamma env) (env_uniform env) phone now (r, n) =
    (Inr c, (r', n'))"
  using assms
  by (auto simp: draws_fit_def Call_ctor_def getNextCallId_def Let_def split: prod.splits sum.splits)

lemma cast_int_error: "cast_int x = Inl e \<Longrightarrow> e = Undefined Bad_cast"
  by (auto simp: cast_int_def split: if_splits)

lemma Call_ctor_error:
  assumes "Call_ctor (env_fl env) (env_gamma env) (env_uniform env) phone now (r, n) = (Inl e, st)"
  shows "e = Undefined Bad_cast \<and> \<not> draws_fit env r"
proof -
  have "\<not> draws_fit env r" using assms Call_ctor_ok [of env r phone now n] by auto
  moreover have "e = Undefined Bad_cast"
    using assms
    by (auto simp: Call_ctor_def getNextCallId_def getRandErlang_def getRandUniform_def Let_def
        dest!: cast_int_error split: prod.splits sum.splits)
  ultimately show ?thesis by simp
qed

text \<open>
  The three ways a request can end: refused with status 400 and nothing changed, accepted into the
  queue, or turned away by the queue with a record.
\<close>

definition refused :: "world \<times> queue \<Rightarrow> world \<times> queue \<Rightarrow> bool" where
  "refused st st' \<longleftrightarrow> (case (st, st') of ((w, q), (w', q')) \<Rightarrow>
     q' = q \<and> objects w' = objects w \<and> cdr_written w' = cdr_written w \<and>
     cdr_lines w' = cdr_lines w \<and> cdrLog w' = cdrLog w \<and> next_call_id w' = next_call_id w)"

definition taken :: "Call \<Rightarrow> world \<times> queue \<Rightarrow> world \<times> queue \<Rightarrow> bool" where
  "taken c st st' \<longleftrightarrow> (case (st, st') of ((w, q), (w', q')) \<Rightarrow>
     q' = pushed (Some (length (objects w))) c q \<and> objects w' = objects w @ [c] \<and>
     cdr_written w' = cdr_written w \<and> cdr_lines w' = cdr_lines w \<and> cdrLog w' = cdrLog w \<and>
     next_call_id w' = next_call_id w + 1)"

definition rejected :: "(int \<Rightarrow> tm) \<Rightarrow> Call \<Rightarrow> world \<times> queue \<Rightarrow> world \<times> queue \<Rightarrow> bool" where
  "rejected tz c st st' \<longleftrightarrow> (case (st, st') of ((w, q), (w', q')) \<Rightarrow>
     q' = q \<and> objects w' = objects w @ [c] \<and>
     cdr_written w' = cdr_written w @ [length (objects w)] \<and>
     (\<exists>line. cdr_line tz c = Inr line \<and> cdr_lines w' = cdr_lines w @ [line]) \<and> cdrLog w' = cdrLog w \<and>
     next_call_id w' = next_call_id w + 1)"

lemma HandleRequest_valid:
  assumes "req_method rq = Get" "isValidPhoneNumber (target rq) '''' = (True, phone)"
    and c: "Call_ctor (env_fl env) (env_gamma env) (env_uniform env) phone now1 (r, next_call_id w) =
      (Inr c, (r', n'))"
  shows "HandleRequest env ip now1 now2 rq (r, w, q) =
    (case AddToQueue (env_localtime env) (env_version env) (version rq) now2
        (Some (length (objects w))) (w\<lparr>next_call_id := n', objects := objects w @ [c]\<rparr>, q) of
       (x, st) \<Rightarrow> (x, (r', st)))"
  using assms by (simp add: HandleRequest_def make_shared_def Let_def split: prod.splits)

lemma HandleRequest_new_call:
  assumes inv: "queue_inv w q" "world_ok w" and now: "0 \<le> now1" "0 \<le> now2"
    and v: "req_method rq = Get" "isValidPhoneNumber (target rq) '''' = (True, phone)"
    and c: "Call_ctor (env_fl env) (env_gamma env) (env_uniform env) phone now1 (r, next_call_id w) =
      (Inr c, (r', n'))"
  shows "\<exists>resp w' q' c'. HandleRequest env ip now1 now2 rq (r, w, q) = (Inr resp, (r', w', q')) \<and>
    result resp = Ok_200 \<and> queue_inv w' q' \<and> world_ok w' \<and> same_numbers w w' \<and>
    (cg_pn c \<in> set (callers w q) \<and> body resp = turned_away_text ALREADY_IN_QUEUE \<and>
       c' = SetCompleteData ALREADY_IN_QUEUE now2 c \<and> rejected (env_localtime env) c' (w, q) (w', q') \<or>
     cg_pn c \<notin> set (callers w q) \<and> capacity q \<le> length (incoming_calls q) \<and>
       body resp = turned_away_text OVERLOAD \<and>
       c' = SetCompleteData OVERLOAD now2 c \<and> rejected (env_localtime env) c' (w, q) (w', q') \<or>
     cg_pn c \<notin> set (callers w q) \<and> length (incoming_calls q) < capacity q \<and>
       body resp = ''CallId: '' @ to_string (uint (call_id c)) \<and>
       c' = c \<and> taken c (w, q) (w', q'))"
proof -
  let ?i = "length (objects w)" and ?w = "w\<lparr>next_call_id := n', objects := objects w @ [c]\<rparr>"
  note f = Call_ctor_fields [OF c]
  have same: "same_numbers w ?w" by (auto simp: same_numbers_def nth_append)
  have q: "queue_inv ?w q" "callers ?w q = callers w q"
    using queue_inv_world [OF same inv(1)] callers_world [OF same queue_invD(1) [OF inv(1)]] by auto
  have ok: "world_ok ?w"
    using inv(2) f now(1) by (auto simp: world_ok_def times_ok_def)
  have i: "?i < length (objects ?w)" "objects ?w ! ?i = c" "deref ?w (Some ?i) = Inr c"
    by (simp_all add: nth_append)
  note res = AddToQueue_result [OF q(1) ok i(1) now(2), of "env_localtime env" "env_version env" "version rq"]
  note ta = turned_away_facts [OF ok i(1) now(2)]
  have fr: "next_call_id (turned_away tz now2 rs (Some ?i) ?w) = n'"
    "cdrLog (turned_away tz now2 rs (Some ?i) ?w) = cdrLog w" for tz rs
    by (simp_all add: turned_away_def Let_def)
  note hr = HandleRequest_valid [OF v c, of ip now2 q]
  have rej: "rejected tz (SetCompleteData rs now2 c) (w, q) (turned_away tz now2 rs (Some ?i) ?w, q)"
    "queue_inv (turned_away tz now2 rs (Some ?i) ?w) q"
    "same_numbers w (turned_away tz now2 rs (Some ?i) ?w)" for rs tz
    using ta(1,2,5) [of tz rs] fr [of tz rs] f(1) queue_inv_world [OF ta(4) q(1)]
      same_numbers_trans [OF same ta(4)]
    by (simp_all add: rejected_def i(2))
  consider (dup) "cg_pn c \<in> set (callers w q)"
    | (full) "cg_pn c \<notin> set (callers w q)" "capacity q \<le> length (incoming_calls q)"
    | (free) "cg_pn c \<notin> set (callers w q)" "length (incoming_calls q) < capacity q"
    by linarith
  then show ?thesis
  proof cases
    case dup
    then have "HandleRequest env ip now1 now2 rq (r, w, q) =
        (Inr (HandleValidReq (env_version env) (version rq) (turned_away_text ALREADY_IN_QUEUE)),
         (r', turned_away (env_localtime env) now2 ALREADY_IN_QUEUE (Some ?i) ?w, q))"
      unfolding hr res q(2) i(2) by simp
    then show ?thesis using dup rej ta(3) by (fastforce simp: HandleValidReq_def)
  next
    case full
    then have "HandleRequest env ip now1 now2 rq (r, w, q) =
        (Inr (HandleValidReq (env_version env) (version rq) (turned_away_text OVERLOAD)),
         (r', turned_away (env_localtime env) now2 OVERLOAD (Some ?i) ?w, q))"
      unfolding hr res q(2) i(2) by simp
    then show ?thesis using full rej ta(3) by (fastforce simp: HandleValidReq_def)
  next
    case free
    let ?w' = "log_operators info (call_tag c @ '' WAIT IN QUEUE'') ?w"
    have "queue_inv ?w (pushed (Some ?i) c q)"
      using pushed_inv [OF q(1) i(3)] free q(2) by simp
    moreover have s': "same_numbers ?w ?w'" by (simp add: same_numbers_def)
    ultimately have inv': "queue_inv ?w' (pushed (Some ?i) c q)" using queue_inv_world by blast
    have "HandleRequest env ip now1 now2 rq (r, w, q) =
        (Inr (HandleValidReq (env_version env) (version rq) (''CallId: '' @ to_string (uint (call_id c)))),
         (r', ?w', pushed (Some ?i) c q))"
      unfolding hr res q(2) i(2) using free by simp
    moreover have "taken c (w, q) (?w', pushed (Some ?i) c q)" "world_ok ?w'"
      using ok f(1) by (simp_all add: taken_def world_ok_def)
    ultimately show ?thesis
      using inv' same_numbers_trans [OF same s'] free by (fastforce simp: HandleValidReq_def)
  qed
qed

lemma HandleRequest_refused:
  assumes "req_method rq \<noteq> Get \<or> fst (isValidPhoneNumber (target rq) '''') = False"
  shows "HandleRequest env (Inl e) now1 now2 rq (r, w, q) = (Inl e, (r, w, q))"
    "\<exists>resp w'. HandleRequest env (Inr a) now1 now2 rq (r, w, q) = (Inr resp, (r, w', q)) \<and>
       result resp = Bad_request_400 \<and> refused (w, q) (w', q) \<and>
       body resp = (if req_method rq \<noteq> Get then ''Usage GET method.'' else ''Invalid phone number.'')"
proof -
  have fr: "next_call_id (log_server l m w) = next_call_id w" for l m
    by (simp add: log_server_def)
  show "HandleRequest env (Inl e) now1 now2 rq (r, w, q) = (Inl e, (r, w, q))"
    using assms by (auto simp: HandleRequest_def split: prod.splits bool.splits)
  show "\<exists>resp w'. HandleRequest env (Inr a) now1 now2 rq (r, w, q) = (Inr resp, (r, w', q)) \<and>
       result resp = Bad_request_400 \<and> refused (w, q) (w', q) \<and>
       body resp = (if req_method rq \<noteq> Get then ''Usage GET method.'' else ''Invalid phone number.'')"
    using assms fr
    by (cases "isValidPhoneNumber (target rq) ''''")
      (auto simp: HandleRequest_def HandleBadReq_def refused_def)
qed

lemma refused_world:
  "refused (w, q) (w', q') \<Longrightarrow> queue_inv w q \<Longrightarrow> world_ok w \<Longrightarrow>
     queue_inv w' q' \<and> world_ok w' \<and> same_numbers w w'"
  by (auto simp: refused_def world_ok_def same_numbers_def intro: queue_inv_world [of w w'])

text \<open>A summary for the machine: what a request that is answered has done.\<close>

lemma HandleRequest_effect:
  assumes "queue_inv w q" "world_ok w" "0 \<le> now1" "0 \<le> now2"
    and "HandleRequest env ip now1 now2 rq (r, w, q) = (Inr resp, (r', w', q'))"
  shows "queue_inv w' q' \<and> world_ok w' \<and> same_numbers w w' \<and>
    (refused (w, q) (w', q') \<or> (\<exists>c. rejected (env_localtime env) c (w, q) (w', q')) \<or> (\<exists>c. taken c (w, q) (w', q')))"
proof (cases "req_method rq = Get \<and> fst (isValidPhoneNumber (target rq) '''')")
  case True
  then obtain phone where v: "req_method rq = Get" "isValidPhoneNumber (target rq) '''' = (True, phone)"
    by (metis prod.collapse)
  obtain x r1 n1 where ctor: "Call_ctor (env_fl env) (env_gamma env) (env_uniform env) phone now1
      (r, next_call_id w) = (x, (r1, n1))"
    by (metis prod.collapse)
  show ?thesis
  proof (cases x)
    case (Inl e)
    with assms(5) v ctor show ?thesis by (simp add: HandleRequest_def)
  next
    case (Inr c)
    from HandleRequest_new_call [OF assms(1-4) v ctor [unfolded Inr], of ip] assms(5)
    show ?thesis by auto
  qed
next
  case False
  then have f: "req_method rq \<noteq> Get \<or> fst (isValidPhoneNumber (target rq) '''') = False" by auto
  show ?thesis
  proof (cases ip)
    case (Inl e)
    with HandleRequest_refused(1) [OF f, of env e now1 now2 r w q] assms(5) show ?thesis by simp
  next
    case (Inr a)
    with HandleRequest_refused(2) [OF f, of env a now1 now2 r w q] assms(1,2,5) refused_world [of w q w' q']
    show ?thesis by auto
  qed
qed

text \<open>The only ways a request fails: its peer is unknown, or a draw does not fit.\<close>

lemma HandleRequest_error:
  assumes "queue_inv w q" "world_ok w" "0 \<le> now1" "0 \<le> now2"
    and "HandleRequest env ip now1 now2 rq (r, w, q) = (Inl e, st)"
  shows "ip = Inl e \<or> (e = Undefined Bad_cast \<and> \<not> draws_fit env r)"
proof (cases "req_method rq = Get \<and> fst (isValidPhoneNumber (target rq) [])")
  case True
  then obtain phone where v: "req_method rq = Get" "isValidPhoneNumber (target rq) [] = (True, phone)"
    by (metis prod.collapse)
  obtain x r1 n1 where ctor: "Call_ctor (env_fl env) (env_gamma env) (env_uniform env) phone now1
      (r, next_call_id w) = (x, (r1, n1))"
    by (metis prod.collapse)
  show ?thesis
  proof (cases x)
    case (Inl e')
    with assms(5) v ctor have "e = e'" by (simp add: HandleRequest_def)
    with Call_ctor_error [OF ctor [unfolded Inl]] show ?thesis by simp
  next
    case (Inr c)
    from HandleRequest_new_call [OF assms(1-4) v ctor [unfolded Inr], of ip] assms(5)
    show ?thesis by auto
  qed
next
  case False
  then have f: "req_method rq \<noteq> Get \<or> fst (isValidPhoneNumber (target rq) []) = False" by auto
  show ?thesis
  proof (cases ip)
    case (Inl e')
    with HandleRequest_refused(1) [OF f, of env e' now1 now2 r w q] assms(5) show ?thesis by simp
  next
    case (Inr a)
    with HandleRequest_refused(2) [OF f, of env a now1 now2 r w q] assms(5) show ?thesis by auto
  qed
qed

section \<open>The protocol of a session\<close>

text \<open>
  The four stages of a session, by the operation under way, with what was done before; the last is the
  end.
\<close>

inductive stage :: "'g env \<Rightarrow> (completion \<times> 'g rand_gen \<times> world \<times> queue) list \<Rightarrow> action list \<Rightarrow> action list \<Rightarrow> bool"
  for env where
  stage_dispatch: "stage env [] [Dispatch_DoRead] [Dispatch_DoRead]"
| stage_read: "stage env [(Dispatched, st)] [Async_read] [Dispatch_DoRead, Stream_expires_after 10, Async_read]"
| stage_write: "fst (HandleRequest env ip now1 now2 rq st1) = Inr m \<Longrightarrow>
    stage env [(Dispatched, st), (Read_done No_error rq sd ip now1 now2, st1)] [Async_write m]
      [Dispatch_DoRead, Stream_expires_after 10, Async_read, Async_write m]"
| stage_no_request: "ec \<noteq> No_error \<Longrightarrow>
    stage env [(Dispatched, st), (Read_done ec rq sd ip now1 now2, st1)] []
      ([Dispatch_DoRead, Stream_expires_after 10, Async_read] @ (if ec = End_of_stream then [Shutdown_both] else []))"
| stage_thrown: "fst (HandleRequest env ip now1 now2 rq st1) = Inl e \<Longrightarrow>
    stage env [(Dispatched, st), (Read_done No_error rq sd ip now1 now2, st1)] []
      [Dispatch_DoRead, Stream_expires_after 10, Async_read]"
| stage_served: "fst (HandleRequest env ip now1 now2 rq st1) = Inr m \<Longrightarrow>
    stage env [(Dispatched, st), (Read_done No_error rq sd ip now1 now2, st1), (Write_done ec sd', st2)] []
      ([Dispatch_DoRead, Stream_expires_after 10, Async_read, Async_write m] @
       (if ec = None then [Shutdown_both] else []))"

inductive_cases stage_dispatch_cases: "stage env cs (Dispatch_DoRead # out) as"
inductive_cases stage_read_cases: "stage env cs (Async_read # out) as"
inductive_cases stage_write_cases: "stage env cs (Async_write m # out) as"

lemma stage_under_way: "stage env cs out as \<Longrightarrow> out = [] \<or> out = [Dispatch_DoRead] \<or> out = [Async_read] \<or> (\<exists>m. out = [Async_write m])"
  by (erule stage.cases) auto

lemma DoRead_started: "actions (DoRead s) = actions s @ [Stream_expires_after 10, Async_read]"
  "started s (DoRead s) = [Async_read]"
  by (simp_all add: DoRead_def act_def started_def asynchronous_def)

lemma DoClose_started: "actions (fst (DoClose sd (s, w))) = actions s @ [Shutdown_both]"
  "started s (fst (DoClose sd (s, w))) = []"
  by (simp_all add: DoClose_def act_def started_def asynchronous_def)

lemma OnRead_started:
  "OnRead env ec rq sd ip now1 now2 (s, st) = (x, (s', st')) \<Longrightarrow>
   (case ec of
      No_error \<Rightarrow> (case fst (HandleRequest env ip now1 now2 rq st) of
          Inl e \<Rightarrow> x = Inl e \<and> actions s' = actions s \<and> started s s' = []
        | Inr m \<Rightarrow> x = Inr () \<and> actions s' = actions s @ [Async_write m] \<and> started s s' = [Async_write m])
    | End_of_stream \<Rightarrow> x = Inr () \<and> actions s' = actions s @ [Shutdown_both] \<and> started s s' = []
    | Read_error m \<Rightarrow> x = Inr () \<and> actions s' = actions s \<and> started s s' = [])"
proof -
  assume o: "OnRead env ec rq sd ip now1 now2 (s, st) = (x, (s', st'))"
  obtain y st2 where h: "HandleRequest env ip now1 now2 rq st = (y, st2)" by (metis prod.collapse)
  with o show ?thesis
    by (cases st; cases st2; cases ec; cases y)
      (auto simp: OnRead_def DoClose_def SendResponse_def act_def started_def asynchronous_def)
qed

lemma OnWrite_started:
  "OnWrite ec sd (s, w) = (s', w') \<Longrightarrow>
     actions s' = actions s @ (if ec = None then [Shutdown_both] else []) \<and> started s s' = []"
  by (cases ec) (auto simp: OnWrite_def DoClose_def act_def started_def asynchronous_def split: prod.splits)

text \<open>Every handler leads from a stage to the next.\<close>

lemma stage_step:
  assumes "stage env cs out (actions s)" "find (completes c) out = Some a" "handler env c (s, st) = (x, (s', st'))"
  shows "stage env (cs @ [(c, st)]) (remove1 a out @ started s s') (actions s')"
proof (cases c)
  case Dispatched
  with assms(2) stage_under_way [OF assms(1)] have a: "a = Dispatch_DoRead" "out = [Dispatch_DoRead]" by auto
  with assms(1,3) Dispatched show ?thesis
    by (cases st) (auto elim!: stage_dispatch_cases simp: DoRead_started intro: stage_read)
next
  case (Read_done ec rq sd ip now1 now2)
  with assms(2) stage_under_way [OF assms(1)] have a: "a = Async_read" "out = [Async_read]" by auto
  with assms(1) obtain st0 where cs: "cs = [(Dispatched, st0)]"
    "actions s = [Dispatch_DoRead, Stream_expires_after 10, Async_read]" by (auto elim: stage_read_cases)
  from Read_done assms(3) have "OnRead env ec rq sd ip now1 now2 (s, st) = (x, (s', st'))" by simp
  from OnRead_started [OF this] stage_no_request [of ec env st0 rq sd ip now1 now2 st] show ?thesis
    unfolding cs a Read_done
    by (auto intro: stage_write stage_thrown split: read_error.splits sum.splits)
next
  case (Write_done ec sd)
  with assms(2) stage_under_way [OF assms(1)] obtain m where a: "a = Async_write m" "out = [Async_write m]" by auto
  obtain r w q where st: "st = (r, w, q)" by (cases st)
  with Write_done assms(3) obtain w' where "OnWrite ec sd (s, w) = (s', w')" by (auto split: prod.splits)
  note wr = OnWrite_started [OF this]
  from assms(1) [unfolded a(2)] obtain ip now1 now2 rq st0 st1 sd0 where
    cs: "cs = [(Dispatched, st0), (Read_done No_error rq sd0 ip now1 now2, st1)]"
      "actions s = [Dispatch_DoRead, Stream_expires_after 10, Async_read, Async_write m]"
    and h: "fst (HandleRequest env ip now1 now2 rq st1) = Inr m"
    by (auto elim!: stage_write_cases)
  from stage_served [OF h, of st0 sd0 ec sd st] wr show ?thesis
    by (simp add: a cs Write_done)
qed

text \<open>An exception comes from \<^verbatim>\<open>HandleRequest\<close>.\<close>

definition throws :: "'g env \<Rightarrow> error \<Rightarrow> completion \<times> 'g rand_gen \<times> world \<times> queue \<Rightarrow> bool" where
  "throws env e d \<longleftrightarrow> (case d of
       (Read_done No_error rq sd ip now1 now2, st) \<Rightarrow> fst (HandleRequest env ip now1 now2 rq st) = Inl e
     | _ \<Rightarrow> False)"

lemma handler_throws: "fst (handler env c (s, st)) = Inl e \<longleftrightarrow> throws env e (c, st)"
proof (cases c)
  case (Read_done ec rq sd ip now1 now2)
  obtain x s' st' where o: "OnRead env ec rq sd ip now1 now2 (s, st) = (x, (s', st'))" by (metis prod.collapse)
  from OnRead_started [OF this] Read_done o show ?thesis
    by (auto simp: throws_def split: read_error.splits sum.splits)
qed (cases st; auto simp: throws_def split: prod.splits)+

lemma session_stages:
  "session_run env cs out s = Some (x, (out', s')) \<Longrightarrow> stage env ds out (actions s) \<Longrightarrow>
     \<exists>es. stage env (ds @ es) out' (actions s') \<and> es = take (length es) cs \<and>
       (x = Inr () \<longrightarrow> es = cs \<and> (\<forall>d \<in> set es. \<forall>e. \<not> throws env e d)) \<and>
       (\<forall>e. x = Inl e \<longrightarrow> es \<noteq> [] \<and> throws env e (last es))"
proof (induction cs arbitrary: ds out s)
  case Nil
  then show ?case by (intro exI [of _ "[]"]) auto
next
  case (Cons d cs)
  obtain c st where d: "d = (c, st)" by (cases d)
  with Cons.prems(1) obtain a y s1 st1 where
    st: "find (completes c) out = Some a" "handler env c (s, st) = (y, (s1, st1))"
    by (auto split: option.splits prod.splits)
  note n = stage_step [OF Cons.prems(2) st]
  have th: "throws env e d \<longleftrightarrow> y = Inl e" for e
    using handler_throws [of env c s st e] st(2) d by auto
  show ?case
  proof (cases y)
    case (Inl e)
    with Cons.prems(1) st d n th show ?thesis by (intro exI [of _ "[d]"]) auto
  next
    case (Inr u)
    with Cons.prems(1) st d have "session_run env cs (remove1 a out @ started s s1) s1 = Some (x, (out', s'))" by simp
    from Cons.IH [OF this n] obtain es where "stage env ((ds @ [(c, st)]) @ es) out' (actions s')"
      "es = take (length es) cs" "x = Inr () \<longrightarrow> es = cs \<and> (\<forall>d \<in> set es. \<forall>e. \<not> throws env e d)"
      "\<forall>e. x = Inl e \<longrightarrow> es \<noteq> [] \<and> throws env e (last es)" by blast
    with th Inr show ?thesis by (intro exI [of _ "d # es"]) (simp add: d)
  qed
qed

lemma stage_start: "stage env [] (filter asynchronous (actions session_start)) (actions session_start)"
  by (simp add: session_start_def Session_Run_def Session_ctor_def act_def asynchronous_def stage_dispatch)

end
