(* ===== verification/CallCentreCorrect.thy ===== *)
theory CallCentreCorrect
  imports CallCentre SessionCorrect "HOL-Library.Multiset"
begin

text \<open>
  The invariant of the running program and its preservation by every step. Its main part is an
  account of the calls: every call ever created is in exactly one of four places, the queue, the
  hands of the operators' thread, a conversation, or the call detail records. At the end, the ways
  in which a permitted step can fail.
\<close>

section \<open>Where the calls are\<close>

text \<open>The queue without the null pointer that \<^verbatim>\<open>awake\<close> appends.\<close>

definition strip :: "queue \<Rightarrow> queue" where
  "strip q = q\<lparr>incoming_calls := filter (\<lambda>(n, p). p \<noteq> None) (incoming_calls q)\<rparr>"

definition waiting :: "queue \<Rightarrow> nat list" where
  "waiting q = map (\<lambda>(n, p). the p) (incoming_calls (strip q))"

definition in_hand :: "op_pc \<Rightarrow> nat list" where
  "in_hand p = (case p of Take_operator (Some i) \<Rightarrow> [i] | _ \<Rightarrow> [])"

definition talking :: "shared_ptr system_timer list \<Rightarrow> nat list" where
  "talking ts = concat (map (\<lambda>t. map (\<lambda>(p, c). the p) (pending t)) ts)"

definition conserved :: "world \<Rightarrow> queue \<Rightarrow> op_pc \<Rightarrow> shared_ptr system_timer list \<Rightarrow> bool" where
  "conserved w q p ts \<longleftrightarrow>
     mset (waiting q) + mset (in_hand p) + mset (talking ts) + mset (cdr_written w) =
     mset [0..<length (objects w)]"

lemma in_hand_simps [simp]:
  "in_hand (Take_operator (Some i)) = [i]" "in_hand (Take_operator None) = []"
  "in_hand Enter = []" "in_hand (Wait_free p) = []" "in_hand (Wait_calls p) = []"
  "in_hand Check_loop = []" "in_hand In_AddCall = []" "in_hand Stopped = []"
  by (simp_all add: in_hand_def)

lemma strip_fields [simp]:
  "timers (strip q) = timers q" "free_timers (strip q) = free_timers q"
  "capacity (strip q) = capacity q" "map_cg_pn_to_pos (strip q) = map_cg_pn_to_pos q"
  "next_node (strip q) = next_node q" "cv_blocking (strip q) = cv_blocking q"
  "incoming_calls (strip q) = filter (\<lambda>(n, p). p \<noteq> None) (incoming_calls q)"
  by (simp_all add: strip_def)

lemma strip_strip [simp]: "strip (strip q) = strip q"
  by (simp add: strip_def)

lemma waiting_strip [simp]: "waiting (strip q) = waiting q"
  by (simp add: waiting_def)

lemma strip_same: "strip q = q \<longleftrightarrow> filter (\<lambda>(n, p). p \<noteq> None) (incoming_calls q) = incoming_calls q"
  unfolding strip_def by (cases q) simp

lemma strip_no_null: "nodes_ok w q \<Longrightarrow> strip q = q"
proof -
  assume "nodes_ok w q"
  then have "filter (\<lambda>(n, p). p \<noteq> None) (incoming_calls q) = incoming_calls q"
    unfolding nodes_ok_def by (intro filter_True) auto
  then show ?thesis by (simp add: strip_def)
qed

lemma waiting_no_null: "nodes_ok w q \<Longrightarrow> waiting q = map (\<lambda>(n, p). the p) (incoming_calls q)"
  using strip_no_null [of w q] by (simp add: waiting_def del: strip_fields(7))

lemma conserved_distinct:
  assumes "conserved w q p ts"
  shows "distinct (waiting q @ in_hand p @ talking ts @ cdr_written w)"
    "set (waiting q @ in_hand p @ talking ts @ cdr_written w) = {..<length (objects w)}"
proof -
  have m: "mset (waiting q @ in_hand p @ talking ts @ cdr_written w) = mset [0..<length (objects w)]"
    using assms by (simp add: conserved_def add.assoc)
  from mset_eq_imp_distinct_iff [OF m]
  show "distinct (waiting q @ in_hand p @ talking ts @ cdr_written w)" by simp
  from mset_eq_setD [OF m]
  show "set (waiting q @ in_hand p @ talking ts @ cdr_written w) = {..<length (objects w)}"
    by (simp only: set_upt atLeast0LessThan)
qed

lemma talking_update:
  assumes "k < length ts"
  shows "mset (talking (ts[k := t])) + mset (map (\<lambda>(p, c). the p) (pending (ts ! k))) =
    mset (talking ts) + mset (map (\<lambda>(p, c). the p) (pending t))"
proof -
  have split: "talking (xs @ u # ys) = talking xs @ map (\<lambda>(p, c). the p) (pending u) @ talking ys"
    for xs u ys by (simp add: talking_def)
  define xs ys u where "xs = take k ts" and "ys = drop (Suc k) ts" and "u = ts ! k"
  have ts: "ts = xs @ u # ys" "length xs = k"
    using id_take_nth_drop [OF assms] assms by (simp_all add: xs_def ys_def u_def)
  have "ts[k := t] = xs @ t # ys"
    unfolding ts(1) by (simp add: list_update_append ts(2) [symmetric])
  moreover have "ts ! k = u" by (simp add: u_def)
  ultimately show ?thesis by (simp add: split ts(1))
qed

lemma waiting_erase:
  assumes "distinct (map fst ns)" "(n, p) \<in> set ns"
  shows "mset (map f (erase_node n ns)) + {#f (n, p)#} = mset (map f ns)"
  using assms
proof (induction ns)
  case (Cons a ns)
  show ?case
  proof (cases "fst a = n")
    case True
    with Cons.prems have "a = (n, p)" "n \<notin> fst ` set ns" by (cases a; force)+
    moreover from this have "erase_node n ns = ns"
      unfolding erase_node_def by (intro filter_True) force
    ultimately show ?thesis by (simp add: erase_node_def)
  next
    case False
    with Cons show ?thesis by (cases a) (auto simp: erase_node_def)
  qed
qed simp

section \<open>The file of the records\<close>

text \<open>
  A step may append records; each is the printed form of its call, and a call that has its record
  does not change any more.
\<close>

definition records_step :: "(int \<Rightarrow> tm) \<Rightarrow> world \<Rightarrow> world \<Rightarrow> bool" where
  "records_step tz w w' \<longleftrightarrow>
     (\<exists>is ls. cdr_written w' = cdr_written w @ is \<and> cdr_lines w' = cdr_lines w @ ls \<and>
        map (\<lambda>i. cdr_line tz (objects w' ! i)) is = map Inr ls) \<and>
     (\<forall>i \<in> set (cdr_written w). objects w' ! i = objects w ! i)"

lemma records_same:
  "cdr_written w' = cdr_written w \<Longrightarrow> cdr_lines w' = cdr_lines w \<Longrightarrow>
     (\<And>i. i \<in> set (cdr_written w) \<Longrightarrow> objects w' ! i = objects w ! i) \<Longrightarrow> records_step tz w w'"
  by (simp add: records_step_def)

lemma records_finish:
  assumes "cdr_written w' = cdr_written w @ [j]" "j \<notin> set (cdr_written w)"
    "objects w' ! j = c" "\<And>i. i \<noteq> j \<Longrightarrow> i \<in> set (cdr_written w) \<Longrightarrow> objects w' ! i = objects w ! i"
    "\<exists>line. cdr_line tz c = Inr line \<and> cdr_lines w' = cdr_lines w @ [line]"
  shows "records_step tz w w'"
proof -
  from assms(2,4) have "\<forall>i \<in> set (cdr_written w). objects w' ! i = objects w ! i" by metis
  with assms(1,3,5) show ?thesis by (auto simp: records_step_def)
qed

lemma mset_plus_single: "mset xs + {#j#} = mset ys \<Longrightarrow> j \<in> set ys"
  by (drule arg_cong [of _ _ set_mset]) auto

section \<open>The invariant\<close>

definition late :: "phase \<Rightarrow> bool" where
  "late ph \<longleftrightarrow> ph \<in> {Operator_pushed, Awoken, Joined}"

text \<open>The operators that really are free: not the zero that \<^verbatim>\<open>Stop\<close> pushes.\<close>

definition free_list :: "'g sys \<Rightarrow> int list" where
  "free_list s = (let d = deqQueue (free_operators (ops s)) in if late (phase s) then butlast d else d)"

text \<open>
  Every operator is free, with no wait operation on its timer, or talks, with exactly one, whose
  call carries the operator's number.
\<close>

definition talks_inv :: "world \<Rightarrow> shared_ptr system_timer list \<Rightarrow> int list \<Rightarrow> bool" where
  "talks_inv w ts F \<longleftrightarrow> distinct F \<and> set F \<subseteq> int ` {..<length ts} \<and>
     (\<forall>k < length ts. (int k \<in> set F \<and> pending (ts ! k) = []) \<or>
        (int k \<notin> set F \<and> (\<exists>i < length (objects w). pending (ts ! k) = [(Some i, False)] \<and>
           operator_id (objects w ! i) = int k)))"

definition pc_inv :: "'g sys \<Rightarrow> bool" where
  "pc_inv s \<longleftrightarrow> (case pc s of
       Wait_free Returned \<Rightarrow> deqQueue (free_operators (ops s)) \<noteq> []
     | Wait_calls _ \<Rightarrow> deqQueue (free_operators (ops s)) \<noteq> []
     | Check_loop \<Rightarrow> deqQueue (free_operators (ops s)) \<noteq> []
     | In_AddCall \<Rightarrow> free_list s \<noteq> []
     | Take_operator p \<Rightarrow> free_list s \<noteq> [] \<and> (\<exists>i < length (objects (world s)). p = Some i)
     | _ \<Rightarrow> True)"

definition phase_inv :: "'g sys \<Rightarrow> bool" where
  "phase_inv s \<longleftrightarrow>
     (continue_loop (ops s) \<longleftrightarrow> phase s \<in> {Running, Ioc_stopped}) \<and>
     (late (phase s) \<longrightarrow> deqQueue (free_operators (ops s)) \<noteq> []) \<and>
     (phase s \<in> {Awoken, Joined} \<longleftrightarrow> strip (incoming (ops s)) \<noteq> incoming (ops s)) \<and>
     (phase s = Joined \<longrightarrow> pc s = Stopped)"

definition sys_inv :: "'g sys \<Rightarrow> bool" where
  "sys_inv s \<longleftrightarrow> world_ok (world s) \<and> queue_inv (world s) (strip (incoming (ops s))) \<and>
     talks_inv (world s) (talks (ops s)) (free_list s) \<and> pc_inv s \<and> phase_inv s \<and>
     conserved (world s) (incoming (ops s)) (pc s) (talks (ops s))"

lemma sys_invD:
  assumes "sys_inv s"
  shows "world_ok (world s)" "queue_inv (world s) (strip (incoming (ops s)))"
    "talks_inv (world s) (talks (ops s)) (free_list s)" "pc_inv s" "phase_inv s"
    "conserved (world s) (incoming (ops s)) (pc s) (talks (ops s))"
  using assms by (simp_all add: sys_inv_def)

lemma pc_inv_mono:
  assumes "pc_inv s" "pc s' = pc s" "length (objects (world s)) \<le> length (objects (world s'))"
    "deqQueue (free_operators (ops s)) \<noteq> [] \<longrightarrow> deqQueue (free_operators (ops s')) \<noteq> []"
    "free_list s \<noteq> [] \<longrightarrow> free_list s' \<noteq> []"
  shows "pc_inv s'"
  using assms by (auto simp: pc_inv_def split: op_pc.splits wait_pc.splits)

lemma running_queue:
  "sys_inv s \<Longrightarrow> phase s = Running \<Longrightarrow>
     strip (incoming (ops s)) = incoming (ops s) \<and> queue_inv (world s) (incoming (ops s))"
  by (auto simp: sys_inv_def phase_inv_def)

lemma talks_inv_world:
  assumes "talks_inv w ts F" "length (objects w) \<le> length (objects w')"
    "\<And>i. i \<in> set (talking ts) \<Longrightarrow> operator_id (objects w' ! i) = operator_id (objects w ! i)"
  shows "talks_inv w' ts F"
proof -
  have "operator_id (objects w' ! i) = operator_id (objects w ! i)"
    if "k < length ts" "pending (ts ! k) = [(Some i, False)]" for k i
    using that by (intro assms(3)) (force simp: talking_def in_set_conv_nth)
  with assms(1,2) show ?thesis
    unfolding talks_inv_def by (metis order_less_le_trans)
qed

lemma talks_inv_calls:
  assumes "conserved w q p ts" "talks_inv w ts F" "length (objects w) \<le> length (objects w')"
    "\<And>i. i < length (objects w) \<Longrightarrow> operator_id (objects w' ! i) = operator_id (objects w ! i)"
  shows "talks_inv w' ts F"
proof (rule talks_inv_world [OF assms(2,3)])
  fix i assume "i \<in> set (talking ts)"
  then have "i < length (objects w)" using conserved_distinct(2) [OF assms(1)] by auto
  then show "operator_id (objects w' ! i) = operator_id (objects w ! i)" by (rule assms(4))
qed

section \<open>Cancelled waits and null pointers\<close>

text \<open>
  Two more facts about the queue: a wait that was cancelled belongs to a node that is gone, and
  there is at most one null pointer.
\<close>

definition cancelled_gone :: "queue \<Rightarrow> bool" where
  "cancelled_gone q \<longleftrightarrow> (\<forall>t \<in> set (timers q). \<forall>x n. ((x, n), True) \<in> set (pending t) \<longrightarrow>
     n \<notin> fst ` set (incoming_calls q) \<and> n < next_node q)"

definition nulls :: "queue \<Rightarrow> nat" where
  "nulls q = length (filter (\<lambda>(n, p). p = None) (incoming_calls q))"

definition queue_extra :: "queue \<Rightarrow> bool" where
  "queue_extra q \<longleftrightarrow> cancelled_gone (strip q) \<and> nulls q \<le> 1"

lemma length_strip: "length (incoming_calls q) = length (incoming_calls (strip q)) + nulls q"
  unfolding nulls_def strip_fields(7)
  using sum_length_filter_compl [of "\<lambda>(n, p). p \<noteq> None" "incoming_calls q"]
  by (simp add: case_prod_unfold)

lemma nulls_strip: "strip q = q \<longleftrightarrow> nulls q = 0"
  by (auto simp: strip_same nulls_def filter_id_conv filter_empty_conv)

lemma queue_extra_shrinks:
  assumes "queue_extra q"
    "incoming_calls q' = erase_node m (incoming_calls q) \<or> incoming_calls q' = incoming_calls q"
    "\<And>t x n. t \<in> set (timers q') \<Longrightarrow> ((x, n), True) \<in> set (pending t) \<Longrightarrow>
       \<exists>t' \<in> set (timers q). ((x, n), True) \<in> set (pending t')"
    "next_node q \<le> next_node q'"
  shows "queue_extra q'"
proof -
  have "length (filter P (filter Q xs)) \<le> length (filter P xs)" for P Q and xs :: "(iter \<times> shared_ptr) list"
    by (induction xs) auto
  then have sub: "set (incoming_calls q') \<subseteq> set (incoming_calls q)" "nulls q' \<le> nulls q"
    using assms(2) unfolding erase_node_def nulls_def by (auto simp del: filter_filter)
  have "cancelled_gone (strip q')"
    unfolding cancelled_gone_def
  proof (intro ballI allI impI)
    fix t x n assume "t \<in> set (timers (strip q'))" "((x, n), True) \<in> set (pending t)"
    then obtain t' where "t' \<in> set (timers q)" "((x, n), True) \<in> set (pending t')"
      using assms(3) [of t x n] by auto
    with assms(1) have "n \<notin> fst ` set (incoming_calls (strip q)) \<and> n < next_node q"
      unfolding queue_extra_def cancelled_gone_def by auto
    with sub(1) assms(4) show "n \<notin> fst ` set (incoming_calls (strip q')) \<and> n < next_node (strip q')"
      by auto
  qed
  with assms(1) sub(2) show ?thesis by (simp add: queue_extra_def)
qed

lemma mark_cancelled_entries:
  "(h, True) \<in> set (mark_cancelled (pending t)) \<Longrightarrow> (h, True) \<in> set (pending t) \<or> h \<in> set (live t)"
  by (force simp: mark_cancelled_def live_def)

text \<open>Arming the timer of a new call cancels nothing, because a free timer has nothing in force.\<close>

lemma queue_extra_pushed:
  assumes "queue_extra q" "strip q = q" "queue_inv w q" "length (incoming_calls q) < capacity q"
  shows "queue_extra (pushed (Some i) c q)"
proof -
  let ?k = "hd (free_timers q)" and ?q = "pushed (Some i) c q"
  have free: "?k \<in> set (free_timers q)" using free_timer_available [OF assms(3,4)] by simp
  then have l: "live (timers q ! ?k) = []" "?k < length (timers q)"
    using queue_invD(4) [OF assms(3)] free_timer_valid [OF assms(3)] by (auto simp: handlers_ok_def)
  have s: "strip ?q = ?q" using assms(2) by (simp add: strip_same)
  have "cancelled_gone ?q"
    unfolding cancelled_gone_def
  proof (intro ballI allI impI)
    fix t x n assume t: "t \<in> set (timers ?q)" "((x, n), True) \<in> set (pending t)"
    have "\<exists>t' \<in> set (timers q). ((x, n), True) \<in> set (pending t')"
    proof (cases "t \<in> set (timers q)")
      case False
      with t(1) have "t = async_wait (cg_pn c, next_node q) (expires_after (expiration_time c) (timers q ! ?k))"
        using set_update_subset_insert by (fastforce simp: pushed_def Let_def)
      with t(2) have "((x, n), True) \<in> set (mark_cancelled (pending (timers q ! ?k)))"
        by (simp add: async_wait_def expires_after_def)
      from mark_cancelled_entries [OF this] l show ?thesis by auto
    qed (use t(2) in blast)
    with assms(1,2) have "n \<notin> fst ` set (incoming_calls q) \<and> n < next_node q"
      unfolding queue_extra_def cancelled_gone_def by auto
    then show "n \<notin> fst ` set (incoming_calls ?q) \<and> n < next_node ?q" by auto
  qed
  then have "cancelled_gone (strip ?q)" by (simp only: s)
  moreover have "nulls ?q = 0" using s by (simp only: nulls_strip)
  ultimately show ?thesis by (simp add: queue_extra_def)
qed

text \<open>Taking the first call cancels the wait of its node.\<close>

lemma cancelled_gone_popped:
  assumes "cancelled_gone q" "queue_inv w q" "incoming_calls q = (n, p) # rest"
  shows "cancelled_gone (popped w q)"
proof -
  let ?k = "timer_of q (number w p)"
  have rest: "incoming_calls (popped w q) = rest" by (rule pop_Cons(2) [OF assms(2,3)])
  have n: "n \<notin> fst ` set rest" "n < next_node q"
    using queue_invD(1) [OF assms(2)] by (auto simp: nodes_ok_def assms(3))
  have k: "?k < length (timers q)" using node_facts(4) [OF assms(2), of n p] assms(3) by simp
  have l: "live (timers q ! ?k) = [(number w p, n)]"
    using queue_invD(4) [OF assms(2)] by (auto simp: handlers_ok_def assms(3))
  have tm: "timers (popped w q) = (timers q)[?k := cancel (timers q ! ?k)]" "next_node (popped w q) = next_node q"
    by (simp_all add: popped_def assms(3) Let_def)
  show ?thesis
    unfolding cancelled_gone_def
  proof (intro ballI allI impI)
    fix t x m assume t: "t \<in> set (timers (popped w q))" "((x, m), True) \<in> set (pending t)"
    have "m = n \<or> (\<exists>t' \<in> set (timers q). ((x, m), True) \<in> set (pending t'))"
    proof (cases "t \<in> set (timers q)")
      case False
      with t(1) tm(1) have "t = cancel (timers q ! ?k)" using set_update_subset_insert by fastforce
      with t(2) have "((x, m), True) \<in> set (mark_cancelled (pending (timers q ! ?k)))"
        by (simp add: cancel_def)
      from mark_cancelled_entries [OF this] l k show ?thesis by auto
    qed (use t(2) in blast)
    then show "m \<notin> fst ` set (incoming_calls (popped w q)) \<and> m < next_node (popped w q)"
      using n assms(1,3) unfolding cancelled_gone_def rest tm(2) by force
  qed
qed

lemma pop_rest: "pop w q = returns p q' \<Longrightarrow> incoming_calls q' = tl (incoming_calls q)"
  by (auto simp: pop_def Let_def split: list.splits prod.splits sum.splits option.splits)

section \<open>Requests\<close>

lemma conserved_frame:
  assumes "conserved w q p ts" "objects w' = objects w" "cdr_written w' = cdr_written w"
    "waiting q' = waiting q" "in_hand p' = in_hand p"
  shows "conserved w' q' p' ts"
  using assms by (simp add: conserved_def)

lemma conserved_written:
  assumes "conserved w q p ts" "mset (waiting q') + {#j#} = mset (waiting q)"
    "length (objects w') = length (objects w)" "cdr_written w' = cdr_written w @ [j]"
  shows "conserved w' q' p ts"
  using assms(1) unfolding conserved_def assms(2) [symmetric] assms(3,4)
  by (simp add: ac_simps)

lemma conserved_ended:
  assumes "conserved w q p ts" "mset (talking ts') + {#j#} = mset (talking ts)"
    "length (objects w') = length (objects w)" "cdr_written w' = cdr_written w @ [j]"
  shows "conserved w' q p ts'"
  using assms(1) unfolding conserved_def assms(2) [symmetric] assms(3,4)
  by (simp add: ac_simps)

lemma conserved_started:
  assumes "conserved w q (Take_operator (Some i)) ts"
    "mset (talking ts') = mset (talking ts) + {#i#}" "in_hand p = []"
    "length (objects w') = length (objects w)" "cdr_written w' = cdr_written w"
  shows "conserved w' q p ts'"
  using assms(1) unfolding conserved_def assms(2-5)
  by (simp add: ac_simps)

lemma request_conserved:
  assumes "queue_inv w q" "queue_inv w' q'" "conserved w q p ts"
    and "refused (w, q) (w', q') \<or> (\<exists>c. rejected tz c (w, q) (w', q')) \<or> (\<exists>c. taken c (w, q) (w', q'))"
  shows "conserved w' q' p ts"
proof -
  have s: "strip q = q" "strip q' = q'"
    using strip_no_null queue_invD(1) assms(1,2) by blast+
  have w: "waiting r = map (\<lambda>(n, p). the p) (incoming_calls r)" if "strip r = r" for r
    unfolding waiting_def that ..
  consider "refused (w, q) (w', q')" | c where "rejected tz c (w, q) (w', q')"
    | c where "taken c (w, q) (w', q')"
    using assms(4) by blast
  then show ?thesis
  proof cases
    case 1
    with assms(3) show ?thesis by (simp add: conserved_def refused_def)
  next
    case 2
    with assms(3) show ?thesis by (simp add: conserved_def rejected_def)
  next
    case (3 c)
    then have "waiting q' = waiting q @ [length (objects w)]"
      unfolding w [OF s(1)] w [OF s(2)] by (simp add: taken_def)
    with 3 assms(3) show ?thesis by (simp add: conserved_def taken_def)
  qed
qed

lemma request_objects:
  assumes "refused (w, q) (w', q') \<or> (\<exists>c. rejected tz c (w, q) (w', q')) \<or> (\<exists>c. taken c (w, q) (w', q'))"
  shows "length (objects w) \<le> length (objects w')"
    "i < length (objects w) \<Longrightarrow> objects w' ! i = objects w ! i"
  using assms by (auto simp: refused_def rejected_def taken_def nth_append)

lemma request_records:
  assumes "refused (w, q) (w', q') \<or> (\<exists>c. rejected tz c (w, q) (w', q')) \<or> (\<exists>c. taken c (w, q) (w', q'))"
    "conserved w q p ts"
  shows "records_step tz w w'"
proof -
  have old: "i < length (objects w)" if "i \<in> set (cdr_written w)" for i
    using conserved_distinct(2) [OF assms(2)] that by auto
  from assms(1) show ?thesis
  proof (elim disjE exE)
    assume "refused (w, q) (w', q')"
    then show ?thesis by (intro records_same) (simp_all add: refused_def)
  next
    fix c assume r: "rejected tz c (w, q) (w', q')"
    show ?thesis
      by (rule records_finish [of _ _ "length (objects w)" c])
        (use r old in \<open>auto simp: rejected_def nth_append\<close>)
  next
    fix c assume "taken c (w, q) (w', q')"
    then show ?thesis by (intro records_same) (auto simp: taken_def nth_append dest: old)
  qed
qed

lemma request_step_inv:
  assumes inv: "sys_inv s" "phase s = Running" and now: "0 \<le> now1" "0 \<le> now2"
    and st: "request_step env ip rq now1 now2 s = returns () s'"
  shows "sys_inv s' \<and> records_step (env_localtime env) (world s) (world s') \<and>
    (queue_extra (incoming (ops s)) \<longrightarrow> queue_extra (incoming (ops s')))"
proof -
  note D = sys_invD [OF inv(1)] and rq = running_queue [OF inv]
  let ?q = "incoming (ops s)"
  from st obtain resp r' w' q' where
    h: "HandleRequest env ip now1 now2 rq (rand s, world s, ?q) = (Inr resp, (r', w', q'))"
    and s': "s' = s\<lparr>rand := r', world := w', ops := (ops s)\<lparr>incoming := q'\<rparr>\<rparr>"
    by (auto simp: request_step_def split: prod.splits sum.splits)
  from HandleRequest_effect [OF conjunct2 [OF rq] D(1) now h]
  have e: "queue_inv w' q'" "world_ok w'"
    "refused (world s, ?q) (w', q') \<or> (\<exists>c. rejected (env_localtime env) c (world s, ?q) (w', q')) \<or>
      (\<exists>c. taken c (world s, ?q) (w', q'))" by auto
  have strip': "strip q' = q'" using strip_no_null queue_invD(1) e(1) by blast
  have "records_step (env_localtime env) (world s) (world s')"
    using request_records [OF e(3) D(6)] by (simp add: s')
  moreover have "conserved w' q' (pc s) (talks (ops s))"
    using request_conserved [OF conjunct2 [OF rq] e(1) D(6) e(3)] .
  moreover have "talks_inv w' (talks (ops s)) (free_list s)"
    by (rule talks_inv_calls [OF D(6,3) request_objects(1) [OF e(3)]])
      (simp add: request_objects(2) [OF e(3)])
  moreover have "free_list s' = free_list s" by (simp add: s' free_list_def)
  moreover have "pc_inv s'"
    using D(4) request_objects(1) [OF e(3)]
    by (auto simp: pc_inv_def s' free_list_def split: op_pc.splits wait_pc.splits)
  moreover have "phase_inv s'"
    using D(5) strip' by (simp add: phase_inv_def s' inv(2))
  moreover have "queue_extra q'" if "queue_extra ?q"
  proof -
    from e(3) have "q' = ?q \<or> (\<exists>i c. q' = pushed (Some i) c ?q)"
      by (auto simp: refused_def rejected_def taken_def)
    then show ?thesis
    proof
      assume "\<exists>i c. q' = pushed (Some i) c ?q"
      then obtain i c where q': "q' = pushed (Some i) c ?q" by blast
      from queue_bounded [OF e(1)] have "length (incoming_calls ?q) < capacity ?q" by (simp add: q')
      from queue_extra_pushed [OF that conjunct1 [OF rq] conjunct2 [OF rq] this] show ?thesis by (simp add: q')
    qed (use that in simp)
  qed
  ultimately show ?thesis
    using e(1,2) strip' by (simp add: sys_inv_def s')
qed

section \<open>Expiry of a waiting call\<close>

lemma timer_step_cases:
  assumes "timer_step env k i ec now s = Some (r, s')"
  shows "\<exists>x n c q w' q'. take_handler k i (incoming (ops s)) = Some (((x, n), c), q) \<and>
     c = cancelled_at (timers (incoming (ops s))) k i \<and>
     OnCallReset (env_localtime env) now ec x n (world s, q) = (r, (w', q')) \<and>
     s' = s\<lparr>world := w', ops := (ops s)\<lparr>incoming := q'\<rparr>\<rparr>"
  using assms
  by (auto simp: timer_step_def take_handler_def take_pending_def cancelled_at_def
      split: option.splits prod.splits if_splits)

lemma removed_waiting:
  assumes "queue_inv w q" "(n, p) \<in> set (incoming_calls q)" "queue_inv w (removed n x ts q)"
  shows "mset (waiting (removed n x ts q)) + {#the p#} = mset (waiting q)"
proof -
  have "distinct (map fst (incoming_calls q))"
    using queue_invD(1) [OF assms(1)] by (simp add: nodes_ok_def)
  from waiting_erase [OF this assms(2), of "\<lambda>(n, p). the p"] show ?thesis
    using waiting_no_null [OF queue_invD(1) [OF assms(1)]]
      waiting_no_null [OF queue_invD(1) [OF assms(3)]]
    by simp
qed

lemma queue_only_change:
  assumes inv: "sys_inv s" "phase s = Running"
    and q': "queue_inv w' q'" and w': "world_ok w'"
    and obj: "length (objects (world s)) \<le> length (objects w')"
      "\<And>i. i < length (objects (world s)) \<Longrightarrow>
         operator_id (objects w' ! i) = operator_id (objects (world s) ! i)"
    and cons: "conserved w' q' (pc s) (talks (ops s))"
    and s': "s' = s\<lparr>world := w', ops := (ops s)\<lparr>incoming := q'\<rparr>\<rparr>"
  shows "sys_inv s'"
proof -
  note D = sys_invD [OF inv(1)]
  have strip': "strip q' = q'" using strip_no_null queue_invD(1) q' by blast
  have "talks_inv w' (talks (ops s)) (free_list s)"
    by (rule talks_inv_calls [OF D(6,3) obj])
  moreover have "free_list s' = free_list s" by (simp add: s' free_list_def)
  moreover have "pc_inv s'"
    using D(4) obj(1) by (auto simp: pc_inv_def s' free_list_def split: op_pc.splits wait_pc.splits)
  moreover have "phase_inv s'"
    using D(5) strip' by (simp add: phase_inv_def s' inv(2))
  ultimately show ?thesis
    using q' w' cons strip' by (simp add: sys_inv_def s')
qed

text \<open>
  A handler that was queued before its wait was cancelled finds its number in the map again.
\<close>

definition stale_handler :: "nat \<Rightarrow> nat \<Rightarrow> 'g sys \<Rightarrow> bool" where
  "stale_handler k i s \<longleftrightarrow> (\<exists>x n. pending (timers (incoming (ops s)) ! k) ! i = ((x, n), True) \<and>
     x \<in> set (callers (world s) (incoming (ops s))))"

lemma take_handler_pending:
  assumes "take_handler k i q = Some (h, q')"
  shows "k < length (timers q) \<and> pending (timers q ! k) ! i = h \<and> h \<in> set (pending (timers q ! k)) \<and>
    (\<exists>t. q' = q\<lparr>timers := (timers q)[k := t]\<rparr> \<and> set (pending t) \<subseteq> set (pending (timers q ! k)))"
proof -
  from assms obtain t where "k < length (timers q)" "take_pending i (timers q ! k) = Some (h, t)"
    "q' = q\<lparr>timers := (timers q)[k := t]\<rparr>"
    by (auto simp: take_handler_def split: if_splits option.splits)
  moreover from take_pending_split [OF this(2)] have "set (pending t) \<subseteq> set (pending (timers q ! k))"
    "h \<in> set (pending (timers q ! k))" by auto
  moreover have "pending (timers q ! k) ! i = h"
    using \<open>take_pending i (timers q ! k) = Some (h, t)\<close> by (auto simp: take_pending_def split: if_splits)
  ultimately show ?thesis by blast
qed

lemma cancelled_handler_result:
  assumes inv: "sys_inv s" "phase s = Running" and gone: "cancelled_gone (strip (incoming (ops s)))"
    and t: "take_handler k i (incoming (ops s)) = Some (((x, n), True), q)"
    and h: "OnCallReset tz now ec x n (world s, q) = (r, (w', q'))"
  shows "(r = Inr () \<and> q' = q \<and> objects w' = objects (world s) \<and>
      cdr_written w' = cdr_written (world s) \<and> cdrLog w' = cdrLog (world s) \<and>
      cdr_lines w' = cdr_lines (world s)) \<or>
    (ec = Success \<and> r = Inl (Undefined Invalid_iterator) \<and> x \<in> set (callers (world s) (incoming (ops s))))"
proof -
  note rq = running_queue [OF inv]
  from take_handler_pending [OF t] have
    tp: "k < length (timers (incoming (ops s)))" "((x, n), True) \<in> set (pending (timers (incoming (ops s)) ! k))"
    "incoming_calls q = incoming_calls (incoming (ops s))"
    "map_cg_pn_to_pos q = map_cg_pn_to_pos (incoming (ops s))" by auto
  have n: "n \<notin> fst ` set (incoming_calls q)"
    using gone tp conjunct1 [OF rq] unfolding cancelled_gone_def by (metis nth_mem)
  show ?thesis
  proof (cases "ec = Success")
    case False
    from OnCallReset_not_success [OF this, of tz now x n "world s" q] h show ?thesis by auto
  next
    case ec: True
    show ?thesis
    proof (cases "map_cg_pn_to_pos q x")
      case None
      from OnCallReset_gone [OF this, of tz now n "world s"] h ec show ?thesis by simp
    next
      case (Some m)
      from OnCallReset_stale [OF this n, of tz now "world s"] h ec have "r = Inl (Undefined Invalid_iterator)"
        by simp
      moreover have "x \<in> set (callers (world s) (incoming (ops s)))"
        using Some tp(4) queue_invD(2) [OF conjunct2 [OF rq]] unfolding keys_ok_def by auto
      ultimately show ?thesis using ec by simp
    qed
  qed
qed

lemma timer_step_result:
  assumes inv: "sys_inv s" "phase s = Running" "queue_extra (incoming (ops s))" and now: "0 \<le> now"
    and D: "delivers (cancelled_at (timers (incoming (ops s))) k i) ex ec"
    and st: "timer_step env k i ec now s = Some (r, s')"
  shows "(r = Inr () \<and> sys_inv s' \<and> records_step (env_localtime env) (world s) (world s') \<and>
      queue_extra (incoming (ops s'))) \<or>
    (r = Inl (Undefined Invalid_iterator) \<and> ec = Success \<and> stale_handler k i s)"
proof -
  note I = sys_invD [OF inv(1)] and rq = conjunct2 [OF running_queue [OF inv(1,2)]]
  have strip: "strip (incoming (ops s)) = incoming (ops s)" using running_queue [OF inv(1,2)] by blast
  let ?q = "incoming (ops s)" and ?w = "world s"
  from timer_step_cases [OF st] obtain x n c q w' q' where
    t: "take_handler k i ?q = Some (((x, n), c), q)" "c = cancelled_at (timers ?q) k i"
    and h: "OnCallReset (env_localtime env) now ec x n (?w, q) = (r, (w', q'))"
    and s': "s' = s\<lparr>world := w', ops := (ops s)\<lparr>incoming := q'\<rparr>\<rparr>"
    by auto
  note tp = take_handler_pending [OF t(1)]
  have ext: "queue_extra q2" if "incoming_calls q2 = erase_node m (incoming_calls ?q) \<or> incoming_calls q2 = incoming_calls ?q"
    "timers q2 = timers q" "next_node q2 = next_node ?q" for q2 m
  proof (rule queue_extra_shrinks [OF inv(3) that(1)])
    fix u y m assume u: "u \<in> set (timers q2)" "((y, m), True) \<in> set (pending u)"
    from tp obtain v where v: "timers q = (timers ?q)[k := v]" "set (pending v) \<subseteq> set (pending (timers ?q ! k))"
      by auto
    show "\<exists>t' \<in> set (timers ?q). ((y, m), True) \<in> set (pending t')"
    proof (cases "u \<in> set (timers ?q)")
      case False
      with u(1) that(2) v(1) have "u = v" using set_update_subset_insert by fastforce
      with u(2) v(2) tp show ?thesis by (meson nth_mem subsetD)
    qed (use u(2) in blast)
  qed (simp add: that(3))
  show ?thesis
  proof (cases c)
    case True
    have t1: "take_handler k i ?q = Some (((x, n), True), q)" using t(1) True by simp
    from cancelled_handler_result [OF inv(1,2) _ t1 h] inv(3) consider
      (quiet) "r = Inr ()" "q' = q" "objects w' = objects ?w" "cdr_written w' = cdr_written ?w"
        "cdrLog w' = cdrLog ?w" "cdr_lines w' = cdr_lines ?w"
      | (stale) "ec = Success" "r = Inl (Undefined Invalid_iterator)" "x \<in> set (callers ?w ?q)"
      by (auto simp: queue_extra_def)
    then show ?thesis
    proof cases
      case quiet
      from handler_cancelled [OF rq t1]
      have q: "queue_inv ?w q" "incoming_calls q = incoming_calls ?q" by auto
      have "queue_inv w' q'"
        using queue_inv_world [of ?w w' q] q(1) quiet by (simp add: same_numbers_def)
      moreover have "conserved w' q' (pc s) (talks (ops s))"
        using I(6) quiet q(2) by (simp add: conserved_def waiting_def strip_def)
      moreover have "world_ok w'" using I(1) quiet by (simp add: world_ok_def)
      moreover have "records_step (env_localtime env) ?w w'" by (rule records_same) (simp_all add: quiet)
      moreover have "queue_extra q" using ext [of q] tp by auto
      ultimately show ?thesis
        using queue_only_change [OF inv(1,2), of w' q' s'] quiet s' by simp
    next
      case stale
      then show ?thesis using tp True unfolding stale_handler_def by auto
    qed
  next
    case False
    with D t(2) have ec: "ec = Success" by simp
    have tok: "\<And>c. c \<in> set (objects ?w) \<Longrightarrow> times_ok c" using I(1) by (simp add: world_ok_def)
    have t1: "take_handler k i ?q = Some (((x, n), False), q)" using t(1) False by simp
    from OnCallReset_in_force [OF rq t1 tok now world_ok_info [OF I(1)],
        of "env_localtime env"] h ec
    obtain p where p: "(n, p) \<in> set (incoming_calls ?q)" "r = Inr ()"
      "w' = timed_out (env_localtime env) now p ?w" "q' = removed n x (timers q) ?q" "queue_inv ?w q'"
      by auto
    from node_facts(1) [OF rq p(1)] obtain j where j: "j < length (objects ?w)" "p = Some j" by auto
    note to = timed_out_facts [OF I(1) j(1) now, of "env_localtime env", folded j(2), folded p(3)]
    have wj: "mset (waiting q') + {#j#} = mset (waiting ?q)"
      using removed_waiting [OF rq p(1), of x "timers q"] p(4,5) j(2) by simp
    then have "conserved w' q' (pc s) (talks (ops s))"
      by (rule conserved_written [OF I(6)]) (simp_all add: to(1,2))
    moreover have "j \<in> set (waiting ?q)" by (rule mset_plus_single [OF wj])
    then have nw: "j \<notin> set (cdr_written ?w)" using conserved_distinct(1) [OF I(6)] by auto
    have "records_step (env_localtime env) ?w w'"
      by (rule records_finish [OF to(2) nw _ _ to(5)]) (simp_all add: to(1) j(1))
    moreover have "operator_id (objects w' ! m) = operator_id (objects ?w ! m)"
      if "m < length (objects ?w)" for m
      using that j(1) by (cases "m = j") (simp_all add: to(1))
    moreover have "queue_extra q'" by (rule ext [of q' n]) (simp_all add: p(4))
    ultimately show ?thesis
      using queue_only_change [OF inv(1,2) queue_inv_world [OF to(4) p(5)] to(3), of s'] to(1) p(2) s'
      by simp
  qed
qed

section \<open>The end of a conversation\<close>

lemma OnEndCall_result:
  assumes "world_ok w" "j < length (objects w)" "0 \<le> now"
  shows "\<exists>w'. OnEndCall tz now Success (Some j) (w, s) = returns () (w',
      s\<lparr>free_operators := ts_push_back (operator_id (objects w ! j)) (free_operators s)\<rparr>) \<and>
    objects w' = (objects w)[j := SetCompleteData OK now (objects w ! j)] \<and>
    cdr_written w' = cdr_written w @ [j] \<and> world_ok w' \<and> same_numbers w w' \<and>
    (\<exists>line. cdr_line tz (SetCompleteData OK now (objects w ! j)) = Inr line \<and>
       cdr_lines w' = cdr_lines w @ [line])"
proof -
  let ?m = "call_tag (objects w ! j) @ '' OpId:'' @ to_string (operator_id (objects w ! j)) @
    '' CALL_IS_COMPLETED''"
  let ?w = "WriteCDR tz (Some j) (store j (SetCompleteData OK now (objects w ! j))
    (log_operators info ?m w))"
  note cw = completed_written [OF assms, of tz OK info ?m]
  obtain r w' where w': "?w = (r, w')" by (cases ?w) simp
  have "OnEndCall tz now Success (Some j) (w, s) = (r, (w',
      s\<lparr>free_operators := ts_push_back (operator_id (objects w ! j)) (free_operators s)\<rparr>))"
    using assms(2) w' by (simp add: OnEndCall_def Let_def)
  then show ?thesis using cw unfolding w' by simp
qed

lemma take_talk_facts:
  assumes "talks_inv w (talks s) F" "take_talk k i s = Some ((p, c), s')"
  shows "\<exists>j t. j < length (objects w) \<and> p = Some j \<and> \<not> c \<and> k < length (talks s) \<and>
    c = cancelled_at (talks s) k i \<and> int k \<notin> set F \<and>
    pending (talks s ! k) = [(Some j, False)] \<and> operator_id (objects w ! j) = int k \<and>
    pending t = [] \<and> s' = s\<lparr>talks := (talks s)[k := t]\<rparr>"
proof -
  from assms(2) obtain t where k: "k < length (talks s)"
    and t: "take_pending i (talks s ! k) = Some ((p, c), t)" "s' = s\<lparr>talks := (talks s)[k := t]\<rparr>"
    by (auto simp: take_talk_def split: if_splits option.splits)
  from take_pending_split [OF t(1)] have "pending (talks s ! k) \<noteq> []" by auto
  with assms(1) k obtain j where j: "j < length (objects w)" "int k \<notin> set F"
    "pending (talks s ! k) = [(Some j, False)]" "operator_id (objects w ! j) = int k"
    unfolding talks_inv_def by blast
  have "p = Some j" "\<not> c" "pending t = []" "i = 0"
    using t(1) j(3) by (auto simp: take_pending_def split: if_splits)
  with j k t(2) show ?thesis by (auto simp: cancelled_at_def)
qed

lemma talks_inv_end:
  assumes "talks_inv w ts F" "k < length ts" "int k \<notin> set F" "pending t = []"
  shows "talks_inv w (ts[k := t]) (F @ [int k])"
  using assms unfolding talks_inv_def by (auto simp: nth_list_update)

lemma talk_step_result:
  assumes inv: "sys_inv s" "phase s = Running" and now: "0 \<le> now"
    and D: "delivers (cancelled_at (talks (ops s)) k i) ex ec"
    and st: "talk_step env k i ec now s = Some (r, s')"
  shows "r = Inr () \<and> sys_inv s' \<and> records_step (env_localtime env) (world s) (world s') \<and>
    incoming (ops s') = incoming (ops s)"
proof -
  note I = sys_invD [OF inv(1)]
  let ?w = "world s" and ?o = "ops s"
  from st obtain p c o1 where tt: "take_talk k i ?o = Some ((p, c), o1)"
    by (auto simp: talk_step_def split: option.splits)
  from take_talk_facts [OF I(3) this] obtain j t where j: "j < length (objects ?w)" "p = Some j"
    "\<not> cancelled_at (talks ?o) k i" "k < length (talks ?o)" "int k \<notin> set (free_list s)"
    "pending (talks ?o ! k) = [(Some j, False)]" "operator_id (objects ?w ! j) = int k"
    "pending t = []" "o1 = ?o\<lparr>talks := (talks ?o)[k := t]\<rparr>" by blast
  have ec: "ec = Success" using D j(3) by (simp add: delivers_def)
  from OnEndCall_result [OF I(1) j(1) now, of "env_localtime env" o1] obtain w' where
    e: "OnEndCall (env_localtime env) now Success (Some j) (?w, o1) = returns () (w',
        o1\<lparr>free_operators := ts_push_back (operator_id (objects ?w ! j)) (free_operators o1)\<rparr>)"
    and w': "objects w' = (objects ?w)[j := SetCompleteData OK now (objects ?w ! j)]"
    "cdr_written w' = cdr_written ?w @ [j]" "world_ok w'" "same_numbers ?w w'"
    "\<exists>line. cdr_line (env_localtime env) (SetCompleteData OK now (objects ?w ! j)) = Inr line \<and>
       cdr_lines w' = cdr_lines ?w @ [line]" by blast
  have s': "r = Inr ()" "s' = s\<lparr>world := w', ops := ?o\<lparr>talks := (talks ?o)[k := t],
      free_operators := ts_push_back (int k) (free_operators ?o)\<rparr>\<rparr>"
    using st tt e j(2,7,9) ec by (simp_all add: talk_step_def)
  have f: "world s' = w'" "incoming (ops s') = incoming ?o" "pc s' = pc s"
    by (simp_all add: s'(2))
  have fl: "free_list s' = free_list s @ [int k]"
    using inv(2) by (simp add: s'(2) free_list_def late_def)
  have "talks_inv w' (talks ?o) (free_list s)"
    by (rule talks_inv_calls [OF I(6,3)]) (simp_all add: w'(1) nth_list_update j(1))
  from talks_inv_end [OF this j(4,5,8)]
  have tk: "talks_inv w' (talks (ops s')) (free_list s')" unfolding fl by (simp add: s'(2))
  have "mset (talking (talks (ops s'))) + {#j#} = mset (talking (talks ?o))"
    using talking_update [OF j(4), of t] j(6,8) by (simp add: s'(2))
  moreover from this have "j \<in> set (talking (talks ?o))" by (rule mset_plus_single)
  then have nw: "j \<notin> set (cdr_written ?w)" using conserved_distinct(1) [OF I(6)] by auto
  have rec: "records_step (env_localtime env) ?w w'"
    by (rule records_finish [OF w'(2) nw _ _ w'(5)]) (simp_all add: w'(1) j(1))
  ultimately have c: "conserved w' (incoming ?o) (pc s) (talks (ops s'))"
    by (intro conserved_ended [OF I(6)]) (simp_all add: w'(1,2))
  have "pc_inv s'"
    by (rule pc_inv_mono [OF I(4)]) (simp_all add: fl, simp_all add: s'(2) w'(1))
  moreover have "phase_inv s'" using I(5) by (simp add: phase_inv_def s'(2))
  ultimately have "sys_inv s'"
    unfolding sys_inv_def using tk c w'(3) queue_inv_world [OF w'(4) I(2)]
    by (intro conjI; simp only: f)
  with s'(1) f(1,2) rec show ?thesis by simp
qed

section \<open>The operators' thread\<close>

lemma pop_strip:
  assumes "queue_inv w (strip q)" "incoming_calls q = (n, Some i) # rest"
  shows "\<exists>q'. pop w q = returns (Some i) q' \<and> strip q' = popped w (strip q) \<and>
    queue_inv w (strip q') \<and> (strip q = q \<longleftrightarrow> strip q' = q') \<and> waiting q = i # waiting q'"
proof -
  let ?rest = "filter (\<lambda>(n, p). p \<noteq> None) rest"
  have sq: "incoming_calls (strip q) = (n, Some i) # ?rest" by (simp add: assms(2))
  note p = pop_Cons [OF assms(1) sq]
  from p(1) obtain q' where q': "pop w q = returns (Some i) q'" "strip q' = popped w (strip q)"
    "incoming_calls q' = rest"
    unfolding pop_def sq assms(2)
    by (cases q) (auto simp: Let_def strip_def split: sum.splits option.splits)
  have "strip q = q \<longleftrightarrow> strip q' = q'"
    unfolding strip_same by (simp add: assms(2) q'(3))
  moreover have "waiting q = i # waiting q'" by (simp add: waiting_def assms(2) q'(3))
  ultimately show ?thesis using q' p(3) by auto
qed

lemma pop_null_head:
  "incoming_calls q = (n, None) # rest \<Longrightarrow> fst (pop w q) = Inl (Undefined Null_deref)"
  by (simp add: pop_def deref_def Let_def)

lemma queue_inv_cv [simp]: "queue_inv w (q\<lparr>cv_blocking := c\<rparr>) \<longleftrightarrow> queue_inv w q"
proof -
  have "callers w (q\<lparr>cv_blocking := c\<rparr>) = callers w q"
    "timer_of (q\<lparr>cv_blocking := c\<rparr>) = timer_of q"
    by (simp_all add: callers_def timer_of_def fun_eq_iff)
  then show ?thesis by (simp add: queue_inv_defs)
qed

lemma strip_cv: "strip (q\<lparr>cv_blocking := c\<rparr>) = (strip q)\<lparr>cv_blocking := c\<rparr>"
  by (simp add: strip_def)

lemma waiting_cv [simp]: "waiting (q\<lparr>cv_blocking := c\<rparr>) = waiting q"
  by (simp add: waiting_def strip_def)

text \<open>A step that only writes the console, the counters of the waiting threads and \<open>pc\<close>.\<close>

definition quiet :: "'g sys \<Rightarrow> 'g sys \<Rightarrow> bool" where
  "quiet s s' \<longleftrightarrow> objects (world s') = objects (world s) \<and>
     cdr_written (world s') = cdr_written (world s) \<and> cdr_lines (world s') = cdr_lines (world s) \<and>
     cdrLog (world s') = cdrLog (world s) \<and>
     (\<exists>c. incoming (ops s') = (incoming (ops s))\<lparr>cv_blocking := c\<rparr>) \<and>
     talks (ops s') = talks (ops s) \<and>
     deqQueue (free_operators (ops s')) = deqQueue (free_operators (ops s)) \<and>
     continue_loop (ops s') = continue_loop (ops s) \<and> phase s' = phase s \<and>
     in_hand (pc s') = in_hand (pc s)"

lemma quiet_inv:
  assumes "sys_inv s" "quiet s s'" "pc_inv s'" "phase s = Joined \<longrightarrow> pc s' = Stopped"
  shows "sys_inv s'"
proof -
  note I = sys_invD [OF assms(1)] and Q = assms(2) [unfolded quiet_def]
  from Q obtain c where c: "incoming (ops s') = (incoming (ops s))\<lparr>cv_blocking := c\<rparr>" by blast
  have "same_numbers (world s) (world s')" using Q by (simp add: same_numbers_def)
  from queue_inv_world [OF this I(2)] have "queue_inv (world s') (strip (incoming (ops s')))"
    by (simp add: c strip_cv)
  moreover have "world_ok (world s')" using I(1) Q by (simp add: world_ok_def)
  moreover have "free_list s' = free_list s" using Q by (simp add: free_list_def)
  moreover from this have "talks_inv (world s') (talks (ops s')) (free_list s')"
    using I(3) Q by (simp add: talks_inv_def)
  moreover have "strip (incoming (ops s')) = incoming (ops s') \<longleftrightarrow>
      strip (incoming (ops s)) = incoming (ops s)"
    by (simp add: c strip_same)
  then have "phase_inv s'" using I(5) Q assms(4) by (auto simp: phase_inv_def)
  moreover have "conserved (world s') (incoming (ops s')) (pc s') (talks (ops s'))"
    using I(6) Q by (simp add: conserved_def c)
  ultimately show ?thesis using assms(3) by (simp add: sys_inv_def)
qed

lemma quiet_records: "quiet s s' \<Longrightarrow> records_step tz (world s) (world s')"
  by (rule records_same) (simp_all add: quiet_def)

lemma not_joined: "sys_inv s \<Longrightarrow> pc s \<noteq> Stopped \<Longrightarrow> phase s \<noteq> Joined"
  by (auto simp: sys_inv_def phase_inv_def)

lemma quiet_pc_step:
  assumes inv: "sys_inv s" and pc: "pc s \<noteq> Stopped" "pc s \<noteq> In_AddCall" "\<And>p. pc s \<noteq> Take_operator p"
  shows "\<exists>s'. operators_step now s = returns () s' \<and> quiet s s' \<and> pc_inv s'"
proof -
  note I = sys_invD(4,5) [OF inv]
  have cv: "\<exists>c. incoming (ops s) = (incoming (ops s))\<lparr>cv_blocking := c\<rparr>"
    by (rule exI [of _ "cv_blocking (incoming (ops s))"]) simp
  have cv1: "\<exists>c. q_block (incoming (ops s)) = (incoming (ops s))\<lparr>cv_blocking := c\<rparr>"
    unfolding q_block_def by blast
  have late: "\<not> late (phase s)" if "continue_loop (ops s)"
    using I(2) that by (auto simp: phase_inv_def late_def)
  show ?thesis
  proof (cases "pc s")
    case (Wait_free p)
    with I(1) cv show ?thesis
      by (cases p) (simp_all add: operators_step_def Run_step_def ts_wait_def quiet_def pc_inv_def
          ts_empty_def)
  next
    case (Wait_calls p)
    with I(1) cv cv1 show ?thesis
      by (cases p) (simp_all add: operators_step_def Run_step_def q_wait_def quiet_def pc_inv_def)
  next
    case Check_loop
    with I(1) cv late show ?thesis
      by (auto simp: operators_step_def Run_step_def quiet_def pc_inv_def free_list_def)
  qed (use pc cv in \<open>auto simp: operators_step_def Run_step_def quiet_def pc_inv_def\<close>)
qed

text \<open>Taking the oldest call out of the queue.\<close>

lemma AddCall_pop_cases:
  "incoming_calls (incoming s) = [] \<Longrightarrow> AddCall_pop (w, s) = returns None
     (log_operators err (''Operators::AddCall(): '' @
        ''IncomingCallsQueue is empty, pop_front() is forbidden'') w, s)"
  "pop w (incoming s) = returns p q \<Longrightarrow>
     AddCall_pop (w, s) = returns (Some p) (w, s\<lparr>incoming := q\<rparr>)"
  "fst (pop w (incoming s)) = Inl (Undefined u) \<Longrightarrow>
     \<exists>st. AddCall_pop (w, s) = raises (Undefined u) st"
  by (auto simp: AddCall_pop_def pop_Nil split: prod.splits)

definition null_at_head :: "queue \<Rightarrow> bool" where
  "null_at_head q \<longleftrightarrow> (case incoming_calls q of (n, None) # _ \<Rightarrow> True | _ \<Rightarrow> False)"

lemma head_cases:
  obtains "incoming_calls q = []" | "null_at_head q"
  | n i rest where "incoming_calls q = (n, Some i) # rest"
  by (cases "incoming_calls q"; cases "snd (hd (incoming_calls q))")
    (auto simp: null_at_head_def split: list.splits option.splits prod.splits)

lemma null_at_head_strip: "null_at_head q \<Longrightarrow> strip q \<noteq> q"
proof
  assume "null_at_head q" "strip q = q"
  then have "filter (\<lambda>(n, p). p \<noteq> None) (incoming_calls q) = incoming_calls q"
    using strip_fields(7) [of q] by simp
  with \<open>null_at_head q\<close> show False
    by (auto simp: null_at_head_def filter_id_conv split: list.splits option.splits prod.splits)
qed

lemma pop_step:
  assumes inv: "sys_inv s" and pc: "pc s = In_AddCall"
  shows "if null_at_head (incoming (ops s))
    then phase s = Awoken \<and> fst (operators_step now s) = Inl (Undefined Null_deref)
    else \<exists>s'. operators_step now s = returns () s' \<and> sys_inv s' \<and> records_step tz (world s) (world s')"
proof -
  note I = sys_invD [OF inv] and nj = not_joined [OF inv]
  let ?q = "incoming (ops s)" and ?w = "world s"
  show ?thesis
  proof (cases rule: head_cases [of ?q])
    case 1
    let ?s = "s\<lparr>world := log_operators err (''Operators::AddCall(): '' @
        ''IncomingCallsQueue is empty, pop_front() is forbidden'') ?w, pc := Wait_free Testing\<rparr>"
    have "operators_step now s = returns () ?s"
      by (simp add: operators_step_def Run_step_def pc AddCall_pop_cases(1) [OF 1])
    moreover have "sys_inv ?s"
    proof (rule quiet_inv [OF inv])
      have "\<exists>c. ?q = ?q\<lparr>cv_blocking := c\<rparr>" by (rule exI [of _ "cv_blocking ?q"]) simp
      then show "quiet s ?s" by (simp add: quiet_def pc)
    qed (use pc nj in \<open>simp_all add: pc_inv_def\<close>)
    moreover have "records_step tz ?w (world ?s)" by (rule records_same) simp_all
    ultimately show ?thesis using 1 by (simp add: null_at_head_def)
  next
    case 2
    then obtain n rest where "incoming_calls ?q = (n, None) # rest"
      by (auto simp: null_at_head_def split: list.splits option.splits)
    from AddCall_pop_cases(3) [OF pop_null_head [OF this]] obtain st where
      "AddCall_pop (?w, ops s) = raises (Undefined Null_deref) st" by blast
    then have "fst (operators_step now s) = Inl (Undefined Null_deref)"
      by (cases st) (simp add: operators_step_def Run_step_def pc)
    moreover have "phase s = Awoken"
      using I(5) null_at_head_strip [OF 2] nj pc by (auto simp: phase_inv_def)
    ultimately show ?thesis using 2 by simp
  next
    case (3 n i rest)
    from pop_strip [OF I(2) 3] obtain q' where q': "pop ?w ?q = returns (Some i) q'"
      "queue_inv ?w (strip q')" "strip ?q = ?q \<longleftrightarrow> strip q' = q'" "waiting ?q = i # waiting q'"
      by blast
    let ?s = "s\<lparr>ops := (ops s)\<lparr>incoming := q'\<rparr>, pc := Take_operator (Some i)\<rparr>"
    have "operators_step now s = returns () ?s"
      by (simp add: operators_step_def Run_step_def pc AddCall_pop_cases(2) [OF q'(1)])
    moreover have "sys_inv ?s"
    proof -
      have "i < length (objects ?w)" using conserved_distinct(2) [OF I(6)] q'(4) by auto
      then have "pc_inv ?s" using I(4) pc by (simp add: pc_inv_def free_list_def)
      moreover have "phase_inv ?s" using I(5) q'(3) nj pc by (auto simp: phase_inv_def)
      moreover have "conserved ?w q' (Take_operator (Some i)) (talks (ops s))"
        using I(6) q'(4) by (simp add: conserved_def pc)
      moreover have "free_list ?s = free_list s" by (simp add: free_list_def)
      ultimately show ?thesis using I(1,3) q'(2) by (simp add: sys_inv_def)
    qed
    moreover have "records_step tz ?w (world ?s)" by (rule records_same) simp_all
    ultimately show ?thesis using 3 by (simp add: null_at_head_def)
  qed
qed

text \<open>Giving it to the operator that has been free longest.\<close>

lemma talks_inv_start:
  assumes "talks_inv w ts (int k # F)" "i < length (objects w')" "operator_id (objects w' ! i) = int k"
    "length (objects w) \<le> length (objects w')" "pending t = [(Some i, False)]"
    "\<And>j. j \<in> set (talking ts) \<Longrightarrow> operator_id (objects w' ! j) = operator_id (objects w ! j)"
  shows "talks_inv w' (ts[k := t]) F"
proof -
  from talks_inv_world [OF assms(1,4,6)] have "talks_inv w' ts (int k # F)" .
  with assms(2,3,5) show ?thesis
    unfolding talks_inv_def by (auto simp: nth_list_update)
qed

lemma AddCall_take_result:
  fixes now
  assumes "deqQueue (free_operators s) = int k # rest" "i < length (objects w)" "k < length (talks s)"
  defines "c \<equiv> SetOperatorResponseData (int k) now (objects w ! i)"
  shows "\<exists>w'. AddCall_take now (Some i) (w, s) = returns () (w', s\<lparr>
      free_operators := (free_operators s)\<lparr>deqQueue := rest\<rparr>,
      talks := (talks s)[k := async_wait (Some i) (expires_after (call_duration c) (talks s ! k))]\<rparr>) \<and>
    objects w' = (objects w)[i := c] \<and> cdr_written w' = cdr_written w \<and> cdr_lines w' = cdr_lines w \<and>
    cdrLog w' = cdrLog w"
  using assms(1-3) by (simp add: AddCall_take_def at_int_def c_def)

lemma free_list_pop:
  assumes "sys_inv s" "free_list s \<noteq> []"
  obtains k d where "deqQueue (free_operators (ops s)) = int k # d" "k < length (talks (ops s))"
    "free_list s = int k # (if late (phase s) then butlast d else d)" "late (phase s) \<longrightarrow> d \<noteq> []"
proof -
  let ?d = "deqQueue (free_operators (ops s))"
  from assms(2) obtain x d where d: "?d = x # d" "late (phase s) \<longrightarrow> d \<noteq> []"
    by (cases ?d) (auto simp: free_list_def Let_def split: if_splits)
  then have f: "free_list s = x # (if late (phase s) then butlast d else d)"
    by (simp add: free_list_def)
  with sys_invD(3) [OF assms(1)] obtain k where "x = int k" "k < length (talks (ops s))"
    by (auto simp: talks_inv_def)
  with d f that show thesis by blast
qed

lemma take_step:
  assumes inv: "sys_inv s" and pc: "pc s = Take_operator p" and now: "0 \<le> now"
  shows "\<exists>s'. operators_step now s = returns () s' \<and> sys_inv s' \<and> records_step tz (world s) (world s')"
proof -
  note I = sys_invD [OF inv] and nj = not_joined [OF inv]
  let ?w = "world s" and ?o = "ops s"
  from I(4) obtain i where i: "p = Some i" "i < length (objects ?w)" "free_list s \<noteq> []"
    by (auto simp: pc_inv_def pc)
  from free_list_pop [OF inv i(3)] obtain k d where k: "deqQueue (free_operators ?o) = int k # d"
    "k < length (talks ?o)" "free_list s = int k # (if late (phase s) then butlast d else d)"
    "late (phase s) \<longrightarrow> d \<noteq> []" .
  let ?c = "SetOperatorResponseData (int k) now (objects ?w ! i)"
  let ?t = "async_wait (Some i) (expires_after (call_duration ?c) (talks ?o ! k))"
  let ?o' = "?o\<lparr>free_operators := (free_operators ?o)\<lparr>deqQueue := d\<rparr>, talks := (talks ?o)[k := ?t]\<rparr>"
  from AddCall_take_result [OF k(1) i(2) k(2), of now] obtain w' where
    st: "AddCall_take now (Some i) (?w, ?o) = returns () (w', ?o')"
    and w': "objects w' = (objects ?w)[i := ?c]" "cdr_written w' = cdr_written ?w"
      "cdrLog w' = cdrLog ?w" "cdr_lines w' = cdr_lines ?w" by blast
  let ?s = "s\<lparr>world := w', ops := ?o', pc := Wait_free Testing\<rparr>"
  have "operators_step now s = returns () ?s"
    by (simp add: operators_step_def Run_step_def pc i(1) st)
  moreover have "sys_inv ?s"
  proof -
    have pend: "pending (talks ?o ! k) = []"
      using I(3) k(2,3) by (auto simp: talks_inv_def)
    then have pt: "pending ?t = [(Some i, False)]"
      by (simp add: async_wait_def expires_after_def mark_cancelled_def)
    have "i \<notin> set (talking (talks ?o))"
      using conserved_distinct(1) [OF I(6)] by (auto simp: pc i(1))
    then have "operator_id (objects w' ! j) = operator_id (objects ?w ! j)"
      if "j \<in> set (talking (talks ?o))" for j
      using that by (cases "j = i") (simp_all add: w'(1))
    from talks_inv_start [OF I(3) [unfolded k(3)] _ _ _ pt this] i(2)
    have "talks_inv w' (talks ?o') (if late (phase s) then butlast d else d)" by (simp add: w'(1))
    moreover have "free_list ?s = (if late (phase s) then butlast d else d)"
      by (simp add: free_list_def)
    ultimately have "talks_inv w' (talks ?o') (free_list ?s)" by simp
    moreover have "phase_inv ?s" using I(5) k(4) nj pc by (auto simp: phase_inv_def)
    moreover have "mset (talking (talks ?o')) = mset (talking (talks ?o)) + {#i#}"
      using talking_update [OF k(2), of ?t] pend pt by simp
    then have "conserved w' (incoming ?o) (Wait_free Testing) (talks ?o')"
      by (rule conserved_started [OF I(6) [unfolded pc i(1)]]) (simp_all add: w'(1,2))
    moreover have "same_numbers ?w w'" using i(2) by (auto simp: same_numbers_def w' nth_list_update)
    then have "queue_inv w' (strip (incoming ?o))" using queue_inv_world I(2) by blast
    moreover have "world_ok w'"
      using I(1) now w' world_ok_nth [OF I(1) i(2)]
      by (auto simp: world_ok_def times_ok_def dest: set_update_subset_insert [THEN subsetD])
    ultimately show ?thesis by (simp add: sys_inv_def pc_inv_def)
  qed
  moreover have "i \<notin> set (cdr_written ?w)"
    using conserved_distinct(1) [OF I(6)] by (auto simp: pc i(1))
  then have "objects w' ! m = objects ?w ! m" if "m \<in> set (cdr_written ?w)" for m
    using that by (cases "m = i") (simp_all add: w'(1))
  then have "records_step tz ?w w'" by (intro records_same) (simp_all add: w'(2,4))
  ultimately show ?thesis by auto
qed

lemma operators_step_result:
  assumes inv: "sys_inv s" and pc: "pc s \<noteq> Stopped" and now: "0 \<le> now"
  shows "if pc s = In_AddCall \<and> null_at_head (incoming (ops s))
    then phase s = Awoken \<and> fst (operators_step now s) = Inl (Undefined Null_deref)
    else \<exists>s'. operators_step now s = returns () s' \<and> sys_inv s' \<and> records_step tz (world s) (world s')"
proof -
  consider "pc s = In_AddCall" | p where "pc s = Take_operator p"
    | "pc s \<noteq> In_AddCall" "\<And>p. pc s \<noteq> Take_operator p" by blast
  then show ?thesis
  proof cases
    case 1
    then show ?thesis using pop_step [OF inv] by simp
  next
    case (2 p)
    then show ?thesis using take_step [OF inv 2 now] by simp
  next
    case 3
    from quiet_pc_step [OF inv pc 3] obtain s' where
      "operators_step now s = returns () s'" "quiet s s'" "pc_inv s'" by blast
    then show ?thesis using quiet_inv [OF inv] not_joined [OF inv pc] quiet_records 3(1) by auto
  qed
qed

section \<open>Spurious wake-ups and the main thread\<close>

lemma spurious_step_inv:
  assumes inv: "sys_inv s" and st: "spurious_step s = Some s'"
  shows "sys_inv s' \<and> records_step tz (world s) (world s')"
proof -
  have cv: "\<exists>c. incoming (ops s) = (incoming (ops s))\<lparr>cv_blocking := c\<rparr>"
    by (rule exI [of _ "cv_blocking (incoming (ops s))"]) simp
  have cv1: "\<exists>c. q_unblock (incoming (ops s)) = (incoming (ops s))\<lparr>cv_blocking := c\<rparr>"
    unfolding q_unblock_def by blast
  have c: "pc s = Wait_free Asleep \<and> s' = s\<lparr>pc := Wait_free Testing,
        ops := (ops s)\<lparr>free_operators := ts_unblock (free_operators (ops s))\<rparr>\<rparr> \<or>
      pc s = Wait_calls Asleep \<and> s' = s\<lparr>pc := Wait_calls Testing,
        ops := (ops s)\<lparr>incoming := q_unblock (incoming (ops s))\<rparr>\<rparr>"
    using st by (auto simp: spurious_step_def split: op_pc.splits wait_pc.splits)
  then have q: "quiet s s'" by (elim disjE conjE) (simp_all add: quiet_def cv cv1)
  moreover have "pc_inv s'"
    using c sys_invD(4) [OF inv] by (elim disjE conjE) (simp_all add: pc_inv_def)
  moreover have "phase s = Joined \<longrightarrow> pc s' = Stopped" using c not_joined [OF inv] by auto
  ultimately show ?thesis using quiet_inv [OF inv] quiet_records by blast
qed

lemma main_inv:
  assumes inv: "sys_inv s" and same: "world s' = world s" "pc s' = pc s" "talks (ops s') = talks (ops s)"
    and free: "free_list s' = free_list s"
      "deqQueue (free_operators (ops s)) \<noteq> [] \<longrightarrow> deqQueue (free_operators (ops s')) \<noteq> []"
    and q: "queue_inv (world s) (strip (incoming (ops s')))"
      "waiting (incoming (ops s')) = waiting (incoming (ops s))"
    and ph: "phase_inv s'"
  shows "sys_inv s'"
proof -
  note I = sys_invD [OF inv]
  have "pc_inv s'" by (rule pc_inv_mono [OF I(4) same(2)]) (simp_all add: same(1) free)
  then show ?thesis
    unfolding sys_inv_def using I q ph by (simp add: same free conserved_def)
qed

lemma queue_inv_next_node:
  assumes "queue_inv w q" "next_node q \<le> n"
  shows "queue_inv w (q\<lparr>next_node := n, cv_blocking := c\<rparr>)"
proof -
  let ?q = "q\<lparr>next_node := n, cv_blocking := c\<rparr>"
  have "callers w ?q = callers w q" "timer_of ?q = timer_of q"
    by (simp_all add: callers_def timer_of_def fun_eq_iff)
  with assms show ?thesis by (auto simp: queue_inv_defs)
qed

lemma awake_facts:
  "strip (awake q) = (strip q)\<lparr>next_node := Suc (next_node q), cv_blocking := cv_blocking q - 1\<rparr>"
  "waiting (awake q) = waiting q"
  by (simp_all add: strip_def awake_def notify_one_def waiting_def)

lemma awake_null: "strip (awake q) \<noteq> awake q"
proof
  assume "strip (awake q) = awake q"
  then have "(next_node q, None) \<in> set (filter (\<lambda>(n, p). p \<noteq> None) (incoming_calls (awake q)))"
    unfolding strip_same by (simp add: awake_def)
  then show False by simp
qed

lemma main_step_inv:
  assumes inv: "sys_inv s" and st: "main_step s = Some s'"
  shows "sys_inv s' \<and> world s' = world s"
proof -
  note I = sys_invD [OF inv]
  have aw: "queue_inv (world s) (strip (awake (incoming (ops s))))"
    unfolding awake_facts by (rule queue_inv_next_node [OF I(2)]) simp
  consider "phase s = Ioc_stopped" "s' = s\<lparr>phase := Flag_cleared, ops := Stop_flag (ops s)\<rparr>"
    | "phase s = Flag_cleared" "s' = s\<lparr>phase := Operator_pushed, ops := Stop_push (ops s)\<rparr>"
    | "phase s = Operator_pushed" "s' = s\<lparr>phase := Awoken, ops := Stop_awake (ops s)\<rparr>"
    | "phase s = Awoken" "pc s = Stopped" "s' = s\<lparr>phase := Joined\<rparr>"
    using st by (auto simp: main_step_def split: phase.splits if_splits)
  then have "sys_inv s'"
  proof cases
    case 1
    show ?thesis
      by (rule main_inv [OF inv])
        (use 1 I in \<open>simp_all add: Stop_flag_def free_list_def late_def phase_inv_def\<close>)
  next
    case 2
    show ?thesis
      by (rule main_inv [OF inv])
        (use 2 I in \<open>simp_all add: Stop_push_def free_list_def late_def phase_inv_def\<close>)
  next
    case 3
    show ?thesis
      by (rule main_inv [OF inv])
        (use 3 I aw in \<open>simp_all add: Stop_awake_def free_list_def late_def phase_inv_def awake_facts(2) awake_null\<close>)
  next
    case 4
    show ?thesis
      by (rule main_inv [OF inv])
        (use 4 I in \<open>simp_all add: free_list_def late_def phase_inv_def\<close>)
  qed
  moreover have "world s' = world s"
    using st by (auto simp: main_step_def split: phase.splits if_splits)
  ultimately show ?thesis by simp
qed

lemma signal_inv:
  assumes inv: "sys_inv s" and ph: "phase s = Running"
  shows "sys_inv (s\<lparr>phase := Ioc_stopped\<rparr>)"
  by (rule main_inv [OF inv])
    (use sys_invD [OF inv] ph in \<open>simp_all add: free_list_def late_def phase_inv_def\<close>)

section \<open>Every reachable state\<close>

definition machine_inv :: "'g sys \<Rightarrow> bool" where
  "machine_inv s \<longleftrightarrow> sys_inv s \<and> queue_extra (incoming (ops s))"

lemma machine_invD: "machine_inv s \<Longrightarrow> sys_inv s" "machine_inv s \<Longrightarrow> queue_extra (incoming (ops s))"
  by (simp_all add: machine_inv_def)

text \<open>The clock readings of the timers are no part of it.\<close>

lemma sys_inv_times [simp]:
  "sys_inv (s\<lparr>wait_ends := f\<rparr>) \<longleftrightarrow> sys_inv s" "sys_inv (s\<lparr>wait_cancelled := f\<rparr>) \<longleftrightarrow> sys_inv s"
  "sys_inv (s\<lparr>talk_ends := g\<rparr>) \<longleftrightarrow> sys_inv s"
  by (simp_all add: sys_inv_def pc_inv_def phase_inv_def free_list_def cong: op_pc.case_cong wait_pc.case_cong)

lemma arm_wait_fields [simp]:
  "world (arm_wait now s s') = world s'" "ops (arm_wait now s s') = ops s'" "pc (arm_wait now s s') = pc s'"
  "phase (arm_wait now s s') = phase s'" "sys_inv (arm_wait now s s') = sys_inv s'"
  by (simp_all add: arm_wait_def Let_def)

lemma thread_waits_fields [simp]:
  "world (thread_waits now s s') = world s'" "ops (thread_waits now s s') = ops s'"
  "pc (thread_waits now s s') = pc s'" "phase (thread_waits now s s') = phase s'"
  "sys_inv (thread_waits now s s') = sys_inv s'"
  by (auto simp: thread_waits_def split: op_pc.split list.split option.split prod.split)

text \<open>What the operators' thread does to the queue.\<close>

lemma AddCall_pop_queue:
  assumes "queue_inv w (strip (incoming o'))" "AddCall_pop (w, o') = returns x (w', o1)"
  shows "incoming o1 = incoming o' \<or> (\<exists>p. pop w (incoming o') = returns p (incoming o1))"
proof (cases rule: head_cases [of "incoming o'"])
  case 1
  from AddCall_pop_cases(1) [OF this, of w] assms(2) show ?thesis by auto
next
  case 2
  then obtain n rest where "incoming_calls (incoming o') = (n, None) # rest"
    by (auto simp: null_at_head_def split: list.splits option.splits)
  from AddCall_pop_cases(3) [OF pop_null_head [OF this], of w] assms(2) show ?thesis by fastforce
next
  case (3 n i rest)
  from pop_strip [OF assms(1) 3] obtain q' where q': "pop w (incoming o') = returns (Some i) q'" by blast
  from AddCall_pop_cases(2) [OF this] assms(2) q' show ?thesis by auto
qed

lemma AddCall_take_queue: "AddCall_take now p (w, o') = returns x (w', o1) \<Longrightarrow> incoming o1 = incoming o'"
  by (auto simp: AddCall_take_def Let_def split: prod.splits sum.splits)

lemma operators_step_queue:
  assumes "operators_step now s = returns () s'" "sys_inv s"
  shows "(\<exists>c. incoming (ops s') = (incoming (ops s))\<lparr>cv_blocking := c\<rparr>) \<or>
    (\<exists>p. pop (world s) (incoming (ops s)) = returns p (incoming (ops s')))"
proof -
  have same: "\<exists>c. q = q\<lparr>cv_blocking := c\<rparr>" for q :: queue by (rule exI [of _ "cv_blocking q"]) simp
  from assms(1) have r: "Run_step now (pc s) (world s, ops s) = returns (pc s') (world s', ops s')"
    by (auto simp: operators_step_def split: prod.splits sum.splits)
  show ?thesis
  proof (cases "pc s")
    case (Wait_free p)
    with r have "incoming (ops s') = incoming (ops s)"
      by (cases p) (auto simp: Run_step_def split: prod.splits dest!: arg_cong [of _ "ops s'" incoming])
    then show ?thesis using same by auto
  next
    case (Wait_calls p)
    have b: "\<exists>c. q_block q = q\<lparr>cv_blocking := c\<rparr>" for q unfolding q_block_def by blast
    from Wait_calls r have "incoming (ops s') = incoming (ops s) \<or> incoming (ops s') = q_block (incoming (ops s))"
      by (cases p) (auto simp: Run_step_def q_wait_def split: if_splits dest!: arg_cong [of _ "ops s'" incoming])
    then show ?thesis using same b by metis
  next
    case In_AddCall
    with r obtain x w' o1 where "AddCall_pop (world s, ops s) = returns x (w', o1)" "ops s' = o1"
      by (auto simp: Run_step_def split: prod.splits sum.splits option.splits)
    with AddCall_pop_queue [OF sys_invD(2) [OF assms(2)]] same show ?thesis by metis
  next
    case (Take_operator p)
    with r same show ?thesis
      by (auto simp: Run_step_def split: prod.splits sum.splits dest!: AddCall_take_queue)
  qed (use r same in \<open>auto simp: Run_step_def\<close>)
qed

lemma queue_extra_cv [simp]: "queue_extra (q\<lparr>cv_blocking := c\<rparr>) \<longleftrightarrow> queue_extra q"
  by (simp add: queue_extra_def cancelled_gone_def nulls_def strip_cv)

lemma queue_extra_popped:
  assumes "queue_extra q" "queue_inv w (strip q)" "pop w q = returns p q'"
  shows "queue_extra q'"
proof -
  obtain n i rest where c: "incoming_calls q = (n, Some i) # rest"
  proof (cases rule: head_cases [of q])
    case 2
    then obtain n rest where "incoming_calls q = (n, None) # rest"
      by (auto simp: null_at_head_def split: list.splits option.splits)
    from pop_null_head [OF this, of w] assms(3) show ?thesis by simp
  qed (use assms(3) that in \<open>auto simp: pop_Nil\<close>)
  from pop_strip [OF assms(2) c] assms(3) have "strip q' = popped w (strip q)" by auto
  moreover have "incoming_calls (strip q) = (n, Some i) # filter (\<lambda>(n, p). p \<noteq> None) rest" by (simp add: c)
  then have "cancelled_gone (popped w (strip q))"
    using cancelled_gone_popped assms(1,2) by (simp add: queue_extra_def)
  moreover have "nulls q' = nulls q" using pop_rest [OF assms(3)] by (simp add: nulls_def c)
  ultimately show ?thesis using assms(1) by (simp add: queue_extra_def)
qed

lemma queue_extra_awake:
  assumes "queue_extra q" "strip q = q"
  shows "queue_extra (awake q)"
proof -
  have "cancelled_gone (strip (awake q))"
    using assms unfolding queue_extra_def cancelled_gone_def awake_facts by fastforce
  moreover have "nulls (awake q) \<le> 1" using assms(2) by (simp add: nulls_strip) (simp add: nulls_def awake_def)
  ultimately show ?thesis by (simp add: queue_extra_def)
qed

lemma main_step_extra:
  assumes inv: "machine_inv s" and st: "main_step s = Some s'"
  shows "queue_extra (incoming (ops s'))"
proof -
  have "phase s = Operator_pushed \<Longrightarrow> strip (incoming (ops s)) = incoming (ops s)"
    using sys_invD(5) [OF machine_invD(1) [OF inv]] by (auto simp: phase_inv_def)
  then show ?thesis
    using st machine_invD(2) [OF inv] queue_extra_awake
    by (auto simp: main_step_def Stop_flag_def Stop_push_def Stop_awake_def split: phase.splits if_splits)
qed

lemma spurious_step_extra:
  "spurious_step s = Some s' \<Longrightarrow> queue_extra (incoming (ops s)) \<Longrightarrow> queue_extra (incoming (ops s'))"
  by (auto simp: spurious_step_def q_unblock_def split: op_pc.splits wait_pc.splits)

lemma sys_step_result:
  assumes inv: "machine_inv s" and p: "permitted e s" and st: "sys_step env e s = Some (returns () s')"
  shows "machine_inv s' \<and> records_step (env_localtime env) (world s) (world s')"
proof (cases e)
  case (Request ip rq now1 now2)
  with p st obtain t where t: "phase s = Running" "0 \<le> now1" "0 \<le> now2"
    "request_step env ip rq now1 now2 s = returns () t" "s' = arm_wait now2 s t"
    by (cases "request_step env ip rq now1 now2 s") (auto split: if_splits)
  with request_step_inv [OF machine_invD(1) [OF inv] t(1-4)] machine_invD(2) [OF inv] show ?thesis
    by (simp add: machine_inv_def)
next
  case (Timer_handler k i ec now)
  with p st have "phase s = Running" "0 \<le> now" "timer_step env k i ec now s = Some (returns () s')"
    "delivers (cancelled_at (timers (incoming (ops s))) k i) (wait_expired k i now s) ec"
    by (simp_all split: if_splits)
  from timer_step_result [OF machine_invD(1) [OF inv] this(1) machine_invD(2) [OF inv] this(2,4,3)] show ?thesis
    by (simp add: machine_inv_def)
next
  case (Talk_handler k i ec now)
  with p st have "phase s = Running" "0 \<le> now" "talk_step env k i ec now s = Some (returns () s')"
    "delivers (cancelled_at (talks (ops s)) k i) (talk_expired k i now s) ec"
    by (simp_all split: if_splits)
  from talk_step_result [OF machine_invD(1) [OF inv] this(1,2,4,3)] machine_invD(2) [OF inv] show ?thesis
    by (simp add: machine_inv_def)
next
  case (Operators_thread now)
  with p st obtain t where t: "pc s \<noteq> Stopped" "0 \<le> now" "operators_step now s = returns () t"
    "s' = thread_waits now s t"
    by (cases "operators_step now s") (auto split: if_splits)
  from operators_step_queue [OF t(3) machine_invD(1) [OF inv]] have "queue_extra (incoming (ops t))"
    using machine_invD(2) [OF inv] queue_extra_popped [OF _ sys_invD(2) [OF machine_invD(1) [OF inv]]] by auto
  with operators_step_result [OF machine_invD(1) [OF inv] t(1,2), of "env_localtime env"] t(3) show ?thesis
    by (auto simp: machine_inv_def t(4) split: if_splits)
next
  case Spurious_wakeup
  with st spurious_step_inv [OF machine_invD(1) [OF inv]] spurious_step_extra machine_invD(2) [OF inv]
  show ?thesis by (auto simp: machine_inv_def)
next
  case Signal
  with st signal_inv [OF machine_invD(1) [OF inv]] machine_invD(2) [OF inv] show ?thesis
    by (auto simp: machine_inv_def intro: records_same split: if_splits)
next
  case Main_thread
  with st main_step_inv [OF machine_invD(1) [OF inv]] main_step_extra [OF inv] show ?thesis
    by (auto simp: machine_inv_def intro: records_same)
qed

lemmas sys_step_inv = sys_step_result [THEN conjunct1]

lemma reachable_inv:
  assumes "reachable env s0 s" "machine_inv s0"
  shows "machine_inv s"
  using assms
proof induction
  case (reach_step s e s')
  then show ?case by (auto elim!: stepE intro: sys_step_inv)
qed simp

lemma records_step_refl [simp]: "records_step tz w w"
  by (simp add: records_step_def)

lemma records_step_trans:
  assumes "records_step tz u v" "records_step tz v w"
  shows "records_step tz u w"
proof -
  from assms(1) obtain ms ls where u: "cdr_written v = cdr_written u @ ms"
    "cdr_lines v = cdr_lines u @ ls" "map (\<lambda>i. cdr_line tz (objects v ! i)) ms = map Inr ls"
    "\<forall>i \<in> set (cdr_written u). objects v ! i = objects u ! i" by (auto simp: records_step_def)
  from assms(2) obtain ns ls' where v: "cdr_written w = cdr_written v @ ns"
    "cdr_lines w = cdr_lines v @ ls'" "map (\<lambda>i. cdr_line tz (objects w ! i)) ns = map Inr ls'"
    "\<forall>i \<in> set (cdr_written v). objects w ! i = objects v ! i" by (auto simp: records_step_def)
  have "map (\<lambda>i. cdr_line tz (objects w ! i)) ms = map Inr ls"
    unfolding u(3) [symmetric] by (rule map_cong) (simp_all add: v(4) u(1))
  then have "map (\<lambda>i. cdr_line tz (objects w ! i)) (ms @ ns) = map Inr (ls @ ls')"
    using v(3) by simp
  moreover have "cdr_written w = cdr_written u @ ms @ ns" "cdr_lines w = cdr_lines u @ ls @ ls'"
    using u v by simp_all
  moreover have "\<forall>i \<in> set (cdr_written u). objects w ! i = objects u ! i" using u v by simp
  ultimately show ?thesis unfolding records_step_def by blast
qed

lemma reachable_records:
  assumes "reachable env s0 s" "machine_inv s0"
  shows "records_step (env_localtime env) (world s0) (world s)"
  using assms
proof induction
  case (reach_step s e s')
  then have "machine_inv s" by (simp add: reachable_inv)
  from reach_step.hyps(2) sys_step_result [OF this] have
    "records_step (env_localtime env) (world s) (world s')" by (auto elim!: stepE)
  with reach_step show ?case using records_step_trans by blast
qed simp

section \<open>Failing steps\<close>

text \<open>
  The ways a permitted event fails: the peer of a request is unknown or its draws do not fit, a
  handler is stale, or the thread takes the null pointer of the shutdown.
\<close>

definition request_fails :: "'g env \<Rightarrow> event \<Rightarrow> 'g sys \<Rightarrow> error \<Rightarrow> bool" where
  "request_fails env e s x \<longleftrightarrow> (\<exists>ip rq now1 now2. e = Request ip rq now1 now2 \<and>
     (ip = Inl x \<or> (x = Undefined Bad_cast \<and> \<not> draws_fit env (rand s))))"

definition handler_fails :: "event \<Rightarrow> 'g sys \<Rightarrow> error \<Rightarrow> bool" where
  "handler_fails e s x \<longleftrightarrow> x = Undefined Invalid_iterator \<and>
     (\<exists>k i now. e = Timer_handler k i Success now \<and> stale_handler k i s)"

definition shutdown_fails :: "event \<Rightarrow> 'g sys \<Rightarrow> error \<Rightarrow> bool" where
  "shutdown_fails e s x \<longleftrightarrow> x = Undefined Null_deref \<and>
     (\<exists>now. e = Operators_thread now) \<and> phase s = Awoken \<and> pc s = In_AddCall \<and>
     null_at_head (incoming (ops s))"

lemma sys_step_failures:
  assumes inv: "machine_inv s" and p: "permitted e s" and st: "sys_step env e s = Some (Inl x, s')"
  shows "request_fails env e s x \<or> handler_fails e s x \<or> shutdown_fails e s x"
proof (cases e)
  case (Request ip rq now1 now2)
  from Request st p obtain t where ph: "phase s = Running" "0 \<le> now1" "0 \<le> now2"
    and rs: "request_step env ip rq now1 now2 s = (Inl x, t)"
    by (cases "request_step env ip rq now1 now2 s") (auto split: if_splits)
  then obtain st' where h: "HandleRequest env ip now1 now2 rq (rand s, world s, incoming (ops s)) = (Inl x, st')"
    by (auto simp: request_step_def split: prod.splits sum.splits)
  from running_queue [OF machine_invD(1) [OF inv] ph(1)] have "queue_inv (world s) (incoming (ops s))" ..
  from HandleRequest_error [OF this sys_invD(1) [OF machine_invD(1) [OF inv]] ph(2,3) h] Request
  show ?thesis by (auto simp: request_fails_def)
next
  case (Timer_handler k i ec now)
  with p st timer_step_result [OF machine_invD(1) [OF inv] _ machine_invD(2) [OF inv], of now k i _ ec env]
  show ?thesis by (fastforce simp: handler_fails_def split: if_splits)
next
  case (Talk_handler k i ec now)
  with p st talk_step_result [OF machine_invD(1) [OF inv], of now k i _ ec env] show ?thesis
    by (fastforce split: if_splits)
next
  case (Operators_thread now)
  with p st obtain t where t: "pc s \<noteq> Stopped" "0 \<le> now" "operators_step now s = (Inl x, t)"
    by (cases "operators_step now s") (auto split: if_splits)
  note res = operators_step_result [OF machine_invD(1) [OF inv] t(1,2), of "env_localtime env"]
  show ?thesis
  proof (cases "pc s = In_AddCall \<and> null_at_head (incoming (ops s))")
    case True
    with res t(3) Operators_thread show ?thesis by (simp add: shutdown_fails_def)
  next
    case False
    with res t(3) show ?thesis by (auto split: if_splits)
  qed
qed (use st in \<open>auto split: if_splits\<close>)

section \<open>The initial state\<close>

lemma Operators_ctor_cases:
  "Operators_ctor n cap w = (if cap = 0 \<or> 100000 < cap then
      raises (Length_error ''cannot create IncomingCallsQueue larger than 100000 size'') w
    else if n < 0 then raises (Length_error ''vector::reserve'') w
    else returns \<lparr>incoming = sum.projr (queue_ctor cap), talks = replicate (nat n) system_timer_ctor,
        free_operators = \<lparr>deqQueue = map int [0..<nat n], cvBlocking = 0\<rparr>, continue_loop = True\<rparr>
      (log_operators info (''Number of operators = '' @ to_string n @
         '', the queue size = '' @ nat_to_string cap) w))"
  by (auto simp: Operators_ctor_def queue_ctor_def operators_loop_result TSQueue_ctor_def)

lemma queue_ctor_timers: "queue_ctor cap = Inr q \<Longrightarrow> t \<in> set (timers q) \<Longrightarrow> pending t = []"
  by (auto simp: queue_ctor_def ctor_loop_result system_timer_ctor_def split: if_splits)

lemma sys_init_inv:
  assumes w: "world_ok w" "objects w = []" "cdr_written w = []"
    and o: "Operators_ctor n cap w0 = returns o' w"
  shows "machine_inv (sys_init r w o')"
proof -
  from o have n: "0 < cap" "cap \<le> 100000" "0 \<le> n"
    and o': "o' = \<lparr>incoming = sum.projr (queue_ctor cap), talks = replicate (nat n) system_timer_ctor,
        free_operators = \<lparr>deqQueue = map int [0..<nat n], cvBlocking = 0\<rparr>, continue_loop = True\<rparr>"
    by (auto simp: Operators_ctor_cases split: if_splits)
  from queue_ctor_ok [OF n(1,2), of w] obtain q where q: "queue_ctor cap = Inr q" "queue_inv w q"
    "incoming_calls q = []" by auto
  have s: "strip q = q" using strip_no_null queue_invD(1) q(2) by blast
  have "talking (replicate m (system_timer_ctor :: shared_ptr system_timer)) = []" for m
    by (simp add: talking_def system_timer_ctor_def)
  then have c: "conserved w q Enter (replicate (nat n) system_timer_ctor)"
    using w(2,3) q(3) by (simp add: conserved_def waiting_def)
  have t: "talks_inv w (replicate (nat n) system_timer_ctor) (map int [0..<nat n])"
    by (auto simp: talks_inv_def distinct_map system_timer_ctor_def lessThan_atLeast0)
  have "sys_inv (sys_init r w o')"
    unfolding sys_inv_def using w(1) q(2) t c s
    by (simp add: sys_init_def o' q(1) free_list_def late_def pc_inv_def phase_inv_def)
  moreover have "queue_extra q"
    using queue_ctor_timers [OF q(1)] q(3) by (auto simp: queue_extra_def cancelled_gone_def nulls_def)
  ultimately show ?thesis by (simp add: machine_inv_def sys_init_def o' q(1))
qed

end
