(* ===== verification/MainCorrect.thy ===== *)
theory MainCorrect
  imports MainProgram CallCentreCorrect
begin

text \<open>
  The state \<^verbatim>\<open>Start\<close> hands to the threads satisfies the invariant of the running program.
\<close>

lemma Operators_ctor_world:
  "Operators_ctor n cap w = returns o' w' \<Longrightarrow>
     objects w' = objects w \<and> cdr_written w' = cdr_written w \<and> cdrLog w' = cdrLog w"
  by (auto simp: Operators_ctor_cases split: if_splits)

lemma Operators_ctor_any_world:
  assumes "Operators_ctor n cap w = returns o' w'" "objects w'' = []" "cdr_written w'' = []"
    "logger_level (cdrLog w'') = info"
  shows "machine_inv (sys_init r w'' o')"
proof -
  have ok: "world_ok w''" using assms(2,4) by (simp add: world_ok_def)
  from assms(1) have "Operators_ctor n cap w'' = returns o' (log_operators info
      (''Number of operators = '' @ to_string n @ '', the queue size = '' @ nat_to_string cap) w'')"
    by (auto simp: Operators_ctor_cases split: if_splits)
  then have "machine_inv (sys_init r (log_operators info (''Number of operators = '' @ to_string n @
      '', the queue size = '' @ nat_to_string cap) w'') o')"
    by (rule sys_init_inv [rotated 3]) (use ok assms(2,3) in \<open>simp_all add: world_ok_def\<close>)
  moreover have "machine_inv (sys_init r w1 o') \<Longrightarrow> objects w1 = objects w'' \<Longrightarrow>
      cdr_written w1 = cdr_written w'' \<Longrightarrow> cdrLog w1 = cdrLog w'' \<Longrightarrow>
      cdr_lines w1 = cdr_lines w'' \<Longrightarrow> machine_inv (sys_init r w'' o')" for w1
    unfolding machine_inv_def
    by (elim conjE, rule conjI, erule quiet_inv)
      (auto simp: quiet_def sys_init_def pc_inv_def intro: exI [of _ "cv_blocking (incoming o')"])
  ultimately show ?thesis by simp
qed

lemma Start_inv:
  assumes "Start sur address port n fn (r, w) = returns x st'" "objects w = []" "cdr_written w = []"
  shows "machine_inv (machine x) \<and> io_threads x = Suc (nat (n - 2))"
proof -
  from assms(1) obtain c where
    c: "ReadConfig_ctor (sur_fl sur) (sur_file sur fn) = Inr c"
    by (auto simp: Start_def split: sum.splits)
  let ?r = "RandGen_Init (rand_gen_erl_shape c) (rand_gen_erl_scale c) (timeout_in_queue_min c)
    (timeout_in_queue_max c) r"
  from assms(1) c obtain w1 o1 w2 l w3 where
    li: "Log_Init (sur_log_error sur) (log_server_level c) (log_operators_level c) w = returns () w1"
    and o1: "Operators_ctor (count_operators c) (incoming_queue_size c) w1 = returns o1 w2"
    and l: "Listener_run (Listener_ctor (sur_acceptor sur (address, port)) w2) = (l, w3)"
    and x: "x = \<lparr>machine = sys_init ?r w3 o1, acceptor = l, io_threads = Suc (spawn (n - 2) 0)\<rparr>"
    by (auto simp: Start_def Let_def split: sum.splits prod.splits)
  from Log_Init_frame [OF li] Operators_ctor_world [OF o1] Listener_start_world [OF l] assms(2,3)
  have "objects w3 = []" "cdr_written w3 = []" "logger_level (cdrLog w3) = info" by auto
  from Operators_ctor_any_world [OF o1 this] show ?thesis by (simp add: x spawn_result)
qed

lemma main_inv_start:
  assumes "main_program sur argv (r, w) = returns (Runs x) st'" "objects w = []" "cdr_written w = []"
  shows "machine_inv (machine x) \<and> (\<exists>t. stoi (argv ! 3) = Inr t \<and> io_threads x = Suc (nat (max 2 t - 2)))"
proof -
  from assms(1) obtain address p t where t: "stoi (argv ! 3) = Inr t" and
    "Start sur address (ushort p) (max 2 t)
       (if length argv = 5 then argv ! 4 else ''config_call_centre.json'') (r, w) = returns x st'"
    by (auto simp: main_program_def split: if_splits sum.splits prod.splits)
  from Start_inv [OF this(2) assms(2,3)] t show ?thesis by simp
qed

lemma world0_empty: "objects world0 = []" "cdr_written world0 = []"
  by (simp_all add: world0_def Let_def)

section \<open>What the program starts with\<close>

lemma Log_Init_levels:
  "Log_Init fe ls lo w = returns () w' \<Longrightarrow> logger_level (serverLog w') = level_of_name ls \<and>
     logger_level (operatorsLog w') = level_of_name lo"
  by (auto simp: Log_Init_def register_logger_def Let_def split: option.splits if_splits)

lemma Operators_ctor_levels:
  "Operators_ctor n cap w = returns o' w' \<Longrightarrow> serverLog w' = serverLog w \<and> operatorsLog w' = operatorsLog w"
  by (auto simp: Operators_ctor_cases log_operators_def split: if_splits)

lemma acceptor_levels:
  "run_acceptor_steps fails xs (l, w) = (l', w') \<Longrightarrow> serverLog w' = serverLog w \<and> operatorsLog w' = operatorsLog w"
  by (induction xs arbitrary: l) (auto simp: log_server_def split: option.splits)

lemma Listener_levels:
  assumes "Listener_run (Listener_ctor fails w) = (l, w')"
  shows "serverLog w' = serverLog w \<and> operatorsLog w' = operatorsLog w"
  using assms acceptor_levels [of fails acceptor_steps]
  by (cases "Listener_ctor fails w") (auto simp: Listener_run_def Listener_ctor_def log_server_def)

text \<open>The machine is set up as the configuration says.\<close>

definition set_up :: "config \<Rightarrow> 'g sys \<Rightarrow> bool" where
  "set_up c s \<longleftrightarrow> phase s = Running \<and> pc s = Enter \<and>
     incoming_calls (incoming (ops s)) = [] \<and> capacity (incoming (ops s)) = incoming_queue_size c \<and>
     length (talks (ops s)) = nat (count_operators c) \<and>
     deqQueue (free_operators (ops s)) = map int [0..<nat (count_operators c)] \<and>
     erlang_dist (rand s) = \<lparr>gd_alpha = rand_gen_erl_shape c, gd_beta = rand_gen_erl_scale c\<rparr> \<and>
     uniform_dist (rand s) = \<lparr>ud_a = timeout_in_queue_min c, ud_b = timeout_in_queue_max c\<rparr> \<and>
     logger_level (serverLog (world s)) = level_of_name (log_server_level c) \<and>
     logger_level (operatorsLog (world s)) = level_of_name (log_operators_level c)"

lemma Start_set_up:
  assumes "Start sur address port n fn (r, w) = returns x st'"
  shows "\<exists>c. ReadConfig_ctor (sur_fl sur) (sur_file sur fn) = Inr c \<and> 0 \<le> count_operators c \<and>
    1 \<le> incoming_queue_size c \<and> incoming_queue_size c \<le> 100000 \<and> set_up c (machine x)"
proof -
  from assms obtain c where
    c: "ReadConfig_ctor (sur_fl sur) (sur_file sur fn) = Inr c"
    by (auto simp: Start_def split: sum.splits)
  let ?r = "RandGen_Init (rand_gen_erl_shape c) (rand_gen_erl_scale c) (timeout_in_queue_min c)
    (timeout_in_queue_max c) r"
  from assms c obtain w1 o1 w2 l w3 where
    li: "Log_Init (sur_log_error sur) (log_server_level c) (log_operators_level c) w = returns () w1"
    and o1: "Operators_ctor (count_operators c) (incoming_queue_size c) w1 = returns o1 w2"
    and l: "Listener_run (Listener_ctor (sur_acceptor sur (address, port)) w2) = (l, w3)"
    and x: "x = \<lparr>machine = sys_init ?r w3 o1, acceptor = l, io_threads = Suc (spawn (n - 2) 0)\<rparr>"
    by (auto simp: Start_def Let_def split: sum.splits prod.splits)
  from o1 have b: "0 \<le> count_operators c" "0 < incoming_queue_size c" "incoming_queue_size c \<le> 100000"
    "o1 = \<lparr>incoming = sum.projr (queue_ctor (incoming_queue_size c)),
       talks = replicate (nat (count_operators c)) system_timer_ctor,
       free_operators = \<lparr>deqQueue = map int [0..<nat (count_operators c)], cvBlocking = 0\<rparr>, continue_loop = True\<rparr>"
    by (auto simp: Operators_ctor_cases split: if_splits)
  from queue_ctor_ok [OF b(2,3)] obtain q where
    "queue_ctor (incoming_queue_size c) = Inr q" "incoming_calls q = []" "capacity q = incoming_queue_size c" by auto
  moreover have "serverLog w3 = serverLog w1" "operatorsLog w3 = operatorsLog w1"
    using Operators_ctor_levels [OF o1] Listener_levels [OF l] by auto
  ultimately have "set_up c (machine x)"
    using Log_Init_levels [OF li] b(4) by (simp add: set_up_def x sys_init_def RandGen_Init_def)
  with c b show ?thesis by auto
qed

lemma main_set_up:
  assumes "main_program sur argv (r, w) = returns (Runs x) st'"
  shows "\<exists>address p t c. sur_address sur (argv ! 1) = Inr address \<and> stoi (argv ! 2) = Inr p \<and>
    stoi (argv ! 3) = Inr t \<and> ReadConfig_ctor (sur_fl sur)
      (sur_file sur (if length argv = 5 then argv ! 4 else ''config_call_centre.json'')) = Inr c \<and>
    0 \<le> count_operators c \<and> 1 \<le> incoming_queue_size c \<and> incoming_queue_size c \<le> 100000 \<and> set_up c (machine x)"
proof -
  from assms obtain address p t where "sur_address sur (argv ! 1) = Inr address" "stoi (argv ! 2) = Inr p"
    "stoi (argv ! 3) = Inr t" and s: "Start sur address (ushort p) (max 2 t)
       (if length argv = 5 then argv ! 4 else ''config_call_centre.json'') (r, w) = returns x st'"
    by (auto simp: main_program_def split: if_splits sum.splits prod.splits)
  with Start_set_up [OF s] show ?thesis by auto
qed

end
