(* ===== verification/Shutdown.thy ===== *)
theory Shutdown
  imports CallCentreCorrect
begin

text \<open>
  What the operators' thread does after \<^verbatim>\<open>Stop\<close>: it returns after a bounded number of its own
  steps or dereferences the null pointer of \<^verbatim>\<open>awake\<close>, unless it is blocked in a wait whose
  notification it has missed; then only a spurious wake-up helps.
\<close>

section \<open>Blocked threads\<close>

definition stuck :: "'g sys \<Rightarrow> bool" where
  "stuck s \<longleftrightarrow> (case pc s of
       Wait_free Blocking \<Rightarrow> True
     | Wait_calls Blocking \<Rightarrow> True
     | Wait_free Asleep \<Rightarrow> 0 < cvBlocking (free_operators (ops s))
     | Wait_calls Asleep \<Rightarrow> 0 < cv_blocking (incoming (ops s))
     | _ \<Rightarrow> False)"

text \<open>How many steps the thread is from its end, once \<^verbatim>\<open>Stop\<close> has been executed.\<close>

fun rank :: "op_pc \<Rightarrow> nat" where
  "rank Stopped = 0"
| "rank Check_loop = 1"
| "rank (Wait_calls Returned) = 2"
| "rank (Wait_calls Testing) = 3"
| "rank (Wait_calls p) = 4"
| "rank (Wait_free Returned) = 4"
| "rank (Wait_free Testing) = 5"
| "rank (Wait_free p) = 6"
| "rank Enter = 6"
| "rank (Take_operator p) = 6"
| "rank In_AddCall = 7"

lemma rank_le: "rank p \<le> 7"
  by (cases p rule: rank.cases) simp_all

lemma rank_0: "rank p = 0 \<Longrightarrow> p = Stopped"
  by (cases p rule: rank.cases) simp_all

text \<open>The part of the state the rank of the next step depends on.\<close>

lemma awoken_facts:
  assumes "sys_inv s" "phase s = Awoken"
  shows "\<not> continue_loop (ops s)" "deqQueue (free_operators (ops s)) \<noteq> []"
    "incoming_calls (incoming (ops s)) \<noteq> []"
proof -
  from sys_invD(5) [OF assms(1)] assms(2)
  show "\<not> continue_loop (ops s)" "deqQueue (free_operators (ops s)) \<noteq> []"
    by (simp_all add: phase_inv_def late_def)
  from sys_invD(5) [OF assms(1)] assms(2) have "strip (incoming (ops s)) \<noteq> incoming (ops s)"
    by (simp add: phase_inv_def)
  then show "incoming_calls (incoming (ops s)) \<noteq> []" by (auto simp: strip_same)
qed

lemma operators_step_phase:
  "operators_step now s = (r, s') \<Longrightarrow> phase s' = phase s"
  by (auto simp: operators_step_def split: prod.splits sum.splits)

lemma operators_step_pc:
  "operators_step now s = returns () s' \<Longrightarrow>
     Run_step now (pc s) (world s, ops s) = returns (pc s') (world s', ops s')"
  by (auto simp: operators_step_def split: prod.splits sum.splits)

lemma awoken_step:
  assumes inv: "sys_inv s" and ph: "phase s = Awoken" and ns: "\<not> stuck s" and pc: "pc s \<noteq> Stopped"
    and st: "operators_step now s = returns () s'"
  shows "rank (pc s') < rank (pc s) \<and> \<not> stuck s'"
proof -
  note f = awoken_facts [OF inv ph]
  obtain p' where p': "pc s' = p'" by simp
  have r: "Run_step now (pc s) (world s, ops s) = returns p' (world s', ops s')"
    using operators_step_pc [OF st] by (simp add: p')
  have "rank p' < rank (pc s) \<and> p' \<in> {Stopped, Check_loop, Wait_calls Returned,
      Wait_calls Testing, Wait_free Returned, Wait_free Testing, Take_operator None} \<union>
      range Take_operator"
  proof (cases "pc s")
    case (Wait_free p)
    with r f ns show ?thesis
      by (cases p) (auto simp: Run_step_def ts_wait_def ts_empty_def stuck_def split: if_splits)
  next
    case (Wait_calls p)
    with r f ns show ?thesis
      by (cases p) (auto simp: Run_step_def q_wait_def q_empty_def stuck_def split: if_splits)
  next
    case In_AddCall
    with r show ?thesis
      by (auto simp: Run_step_def split: prod.splits sum.splits option.splits)
  next
    case (Take_operator p)
    with r show ?thesis by (auto simp: Run_step_def split: prod.splits sum.splits)
  qed (use r f pc in \<open>auto simp: Run_step_def\<close>)
  then show ?thesis by (auto simp: stuck_def p')
qed

text \<open>The thread alone, \<open>n\<close> steps.\<close>

definition thread_steps :: "'g env \<Rightarrow> nat \<Rightarrow> time_point \<Rightarrow> 'g sys \<Rightarrow> (unit, 'g sys) result option" where
  "thread_steps env n now s = sys_run env (replicate n (Operators_thread now)) s"

lemma thread_steps_0: "thread_steps env 0 now s = Some (returns () s)"
  by (simp add: thread_steps_def)

lemma thread_steps_Suc:
  "pc s \<noteq> Stopped \<Longrightarrow> thread_steps env (Suc n) now s = (case operators_step now s of
      (Inl e, s') \<Rightarrow> Some (raises e (thread_waits now s s'))
    | (Inr _, s') \<Rightarrow> thread_steps env n now (thread_waits now s s'))"
  by (auto simp: thread_steps_def split: prod.split sum.split)

lemma stuck_thread_waits [simp]: "stuck (thread_waits now s s') = stuck s'"
  by (simp add: stuck_def cong: op_pc.case_cong wait_pc.case_cong)

lemma thread_stops:
  assumes "sys_inv s" "phase s = Awoken" "\<not> stuck s" "0 \<le> now"
  shows "\<exists>n \<le> rank (pc s). \<exists>r s'. thread_steps env n now s = Some (r, s') \<and>
    (r = Inr () \<and> pc s' = Stopped \<or> r = Inl (Undefined Null_deref))"
  using assms
proof (induction "rank (pc s)" arbitrary: s rule: less_induct)
  case less
  show ?case
  proof (cases "pc s = Stopped")
    case True
    then show ?thesis by (intro exI [of _ 0]) (simp add: thread_steps_0)
  next
    case False
    note res = operators_step_result [OF less.prems(1) False less.prems(4)]
    show ?thesis
    proof (cases "pc s = In_AddCall \<and> null_at_head (incoming (ops s))")
      case True
      with res [of "env_localtime env"] obtain s' where
        "operators_step now s = (Inl (Undefined Null_deref), s')"
        by (cases "operators_step now s") auto
      then have "thread_steps env 1 now s = Some (raises (Undefined Null_deref) (thread_waits now s s'))"
        using thread_steps_Suc [OF False, of env 0 now] by simp
      moreover have "1 \<le> rank (pc s)" using rank_0 False by (metis One_nat_def not_less_eq_eq le_zero_eq)
      ultimately show ?thesis by blast
    next
      case nn: False
      with res [of "env_localtime env"] obtain s' where
        s': "operators_step now s = returns () s'" "sys_inv s'" by auto
      from awoken_step [OF less.prems(1-3) False s'(1)]
      have rk: "rank (pc s') < rank (pc s)" "\<not> stuck s'" by auto
      let ?t = "thread_waits now s s'"
      from less.hyps [of ?t] rk s'(2) less.prems(2,4) operators_step_phase [OF s'(1)]
      obtain n r s'' where n: "n \<le> rank (pc s')" "thread_steps env n now ?t = Some (r, s'')"
        "r = Inr () \<and> pc s'' = Stopped \<or> r = Inl (Undefined Null_deref)" by auto
      then have "thread_steps env (Suc n) now s = Some (r, s'')"
        using thread_steps_Suc [OF False, of env n now] s'(1) by simp
      moreover have "Suc n \<le> rank (pc s)" using n(1) rk(1) by simp
      ultimately show ?thesis using n(3) by blast
    qed
  qed
qed

text \<open>A thread that is asleep and not notified stays asleep: only a spurious wake-up moves it.\<close>

lemma asleep_forever:
  assumes "phase s = Awoken" "pc s = Wait_calls Asleep" "0 < cv_blocking (incoming (ops s))"
    and "sys_step env e s = Some (r, s')" "e \<noteq> Spurious_wakeup"
  shows "r = Inr () \<and> s' = s"
proof -
  have "operators_step now s = returns () s" for now
    using assms(2,3) by (simp add: operators_step_def Run_step_def q_wait_def)
  moreover have "thread_waits now s s = s" for now using assms(2) by (simp add: thread_waits_def)
  ultimately show ?thesis using assms by (cases e) (auto simp: main_step_def)
qed

end
