(* ===== verification/JsonTokens.thy ===== *)
theory JsonTokens
  imports JsonParser
begin

text \<open>
  What the scanner does on well-formed input: white space, structural characters, literals,
  numbers and strings. The grammar of numbers and of the characters of strings is that of RFC 8259,
  over the bytes of UTF-8.
\<close>

section \<open>Reading characters\<close>

text \<open>
  \<open>reading l s buf\<close>: the scanner is inside a token, \<open>s\<close> is left of the input and \<open>buf\<close> is the
  buffer. \<open>at_input l s\<close>: it is between two tokens, or at the start of an input without a byte order
  mark.
\<close>

definition past_bom :: "lexer \<Rightarrow> bool" where
  "past_bom l \<longleftrightarrow> 0 < chars_read_total (position l) \<or>
     \<not> next_unget l \<and> (case ia l of [] \<Rightarrow> True | c # _ \<Rightarrow> c \<noteq> CHR 0xEF)"

definition settled :: "lexer \<Rightarrow> bool" where
  "settled l \<longleftrightarrow> \<not> ignore_comments l \<and> decimal_point_char l = CHR ''.''"

definition reading :: "lexer \<Rightarrow> string \<Rightarrow> string \<Rightarrow> bool" where
  "reading l s buf \<longleftrightarrow> settled l \<and> 0 < chars_read_total (position l) \<and> \<not> next_unget l \<and>
     ia l = s \<and> token_buffer l = buf"

definition at_input :: "lexer \<Rightarrow> string \<Rightarrow> bool" where
  "at_input l s \<longleftrightarrow> settled l \<and> past_bom l \<and> pending_input l = s \<and>
     (next_unget l \<and> current l = eof \<longrightarrow> ia l = [])"

lemma chars_read_get [simp]:
  "chars_read_total (position (get l)) = Suc (chars_read_total (position l))"
  by (simp add: get_def Let_def split: prod.splits option.splits)

lemma chars_read_unget [simp]:
  "chars_read_total (position (unget l)) = chars_read_total (position l) - 1"
  by (simp add: unget_def Let_def)

lemma settled_frame [simp]:
  "settled (get l) = settled l" "settled (unget l) = settled l" "settled (add c l) = settled l"
  "settled (add_current l) = settled l" "settled (reset l) = settled l"
  by (simp_all add: settled_def lexer_frame)

lemma reading_get:
  assumes "reading l (c # s) buf"
  shows "current (get l) = Some c" "reading (get l) s buf"
  using assms by (simp_all add: reading_def lexer_frame get_character_def)

lemma reading_get_end:
  assumes "reading l [] buf"
  shows "current (get l) = eof" "reading (get l) [] buf"
  using assms by (simp_all add: reading_def lexer_frame get_character_def)

lemma reading_current:
  "reading l s buf \<Longrightarrow> current (get l) = Some c \<Longrightarrow> \<exists>s'. s = c # s' \<and> reading (get l) s' buf"
  by (cases s) (simp_all add: reading_get reading_get_end(1))

lemma reading_add:
  assumes "reading l s buf"
  shows "reading (add c l) s (buf @ [c])" "reading (add_current l) s (buf @ [the (current l)])"
    "reading (reset l) s ''''"
  using assms by (simp_all add: reading_def lexer_frame)

lemma reading_add_all: "reading l s buf \<Longrightarrow> reading (add_all cs l) s (buf @ cs)"
proof (induction cs arbitrary: l buf)
  case (Cons c cs)
  from Cons.IH [OF reading_add(1) [OF Cons.prems, of c]] show ?case by (simp add: add_all_def)
qed (simp add: add_all_def)

lemma reading_at_input: "reading l s buf \<Longrightarrow> at_input l s"
  by (simp add: reading_def at_input_def pending_input_def past_bom_def)

lemma at_input_get:
  assumes "at_input l (c # s)"
  shows "current (get l) = Some c \<and> (\<exists>buf. reading (get l) s buf)"
  using assms
  by (auto simp: at_input_def reading_def pending_input_def lexer_frame get_character_def
      split: if_splits option.splits)

lemma at_input_get_end:
  assumes "at_input l []"
  shows "current (get l) = eof \<and> (\<exists>buf. reading (get l) [] buf)"
  using assms
  by (auto simp: at_input_def reading_def pending_input_def lexer_frame get_character_def
      split: if_splits option.splits)

lemma at_input_unget:
  assumes "reading l s buf"
  shows "at_input (unget (get l)) s" "token_buffer (unget (get l)) = buf"
  using assms
  by (cases s; simp add: at_input_def reading_def pending_input_def past_bom_def lexer_frame get_character_def)+

section \<open>White space\<close>

definition whitespace :: "string \<Rightarrow> bool" where
  "whitespace w \<longleftrightarrow> (\<forall>c \<in> set w. is_whitespace (Some c))"

lemma whitespace_simps [simp]:
  "whitespace []" "whitespace (c # w) \<longleftrightarrow> is_whitespace (Some c) \<and> whitespace w"
  "whitespace (v @ w) \<longleftrightarrow> whitespace v \<and> whitespace w"
  by (auto simp: whitespace_def)

lemma skip_whitespace_reading:
  assumes "whitespace w" "\<not> is_whitespace (Some c)" "at_input l (w @ c # s)"
  shows "current (skip_whitespace l) = Some c \<and> (\<exists>buf. reading (skip_whitespace l) s buf)"
  using assms
proof (induction w arbitrary: l)
  case Nil
  with at_input_get [of l c s] show ?case by (auto simp: skip_whitespace.simps [of l] Let_def)
next
  case (Cons d w)
  with at_input_get [of l d "w @ c # s"] reading_at_input show ?case
    by (fastforce simp: skip_whitespace.simps [of l] Let_def)
qed

lemma skip_whitespace_end:
  assumes "whitespace w" "at_input l w"
  shows "current (skip_whitespace l) = eof \<and> (\<exists>buf. reading (skip_whitespace l) [] buf)"
  using assms
proof (induction w arbitrary: l)
  case Nil
  with at_input_get_end [of l] show ?case
    by (auto simp: skip_whitespace.simps [of l] Let_def is_whitespace_def)
next
  case (Cons d w)
  with at_input_get [of l d w] reading_at_input show ?case
    by (fastforce simp: skip_whitespace.simps [of l] Let_def)
qed

lemma get_unget: "\<not> next_unget l \<Longrightarrow> get (unget (get l)) = get l"
proof -
  assume nu: "\<not> next_unget l"
  obtain c sb where c: "get_character (ia l) = (c, sb)" by fastforce
  show ?thesis
    using nu c by (cases c; cases "c = Some (CHR 0x0A)") (simp_all add: get_def unget_def Let_def)
qed

lemma ignore_comments_skip [simp]: "ignore_comments (skip_whitespace l) = ignore_comments l"
  by (induction l rule: skip_whitespace.induct) (simp add: skip_whitespace.simps Let_def lexer_frame)

lemma scan_settled:
  assumes "settled l" "past_bom l"
  shows "scan fl l = scan_token fl (skip_whitespace l)"
proof -
  have sc: "skip_comments (skip_whitespace l) = (True, skip_whitespace l)"
    using assms(1) by (simp add: settled_def skip_comments.simps)
  show ?thesis
  proof (cases "0 < chars_read_total (position l)")
    case True
    with sc show ?thesis by (simp add: scan_def)
  next
    case False
    with assms(2) have nu: "\<not> next_unget l" and c: "current (get l) \<noteq> Some (CHR 0xEF)"
      by (auto simp: past_bom_def lexer_frame get_character_def split: list.splits)
    have "skip_whitespace (unget (get l)) = skip_whitespace l"
      using get_unget [OF nu]
      by (simp add: skip_whitespace.simps [of l] skip_whitespace.simps [of "unget (get l)"])
    with False c sc show ?thesis by (simp add: scan_def skip_bom_def Let_def)
  qed
qed

lemma scan_at:
  assumes "at_input l (w @ c # s)" "whitespace w" "\<not> is_whitespace (Some c)"
  obtains l' buf where "scan fl l = scan_token fl l'" "current l' = Some c" "reading l' s buf"
  using skip_whitespace_reading [OF assms(2,3,1)] scan_settled [of l fl] assms(1)
  by (auto simp: at_input_def)

lemma scan_end:
  assumes "at_input l w" "whitespace w"
  shows "fst (scan fl l) = End_of_input"
  using skip_whitespace_end [OF assms(2,1)] scan_settled [of l fl] assms(1)
  by (auto simp: at_input_def scan_token_def between_def)

section \<open>Structural characters and literals\<close>

definition structural :: "char \<Rightarrow> token_type option" where
  "structural c = map_of [(CHR ''['', Begin_array), (CHR '']'', End_array), (CHR ''{'', Begin_object),
     (CHR ''}'', End_object), (CHR '':'', Name_separator), (CHR '','', Value_separator)] c"

lemma scan_structural:
  assumes "structural c = Some t" "at_input l (w @ c # s)" "whitespace w"
  shows "\<exists>l'. scan fl l = (t, l') \<and> at_input l' s"
proof -
  have "\<not> is_whitespace (Some c)"
    using assms(1) by (auto simp: structural_def is_whitespace_def split: if_splits)
  from scan_at [OF assms(2,3) this] obtain l' buf where
    l': "scan fl l = scan_token fl l'" "current l' = Some c" "reading l' s buf" by blast
  have "scan_token fl l' = (t, l')"
    using assms(1) l'(2) by (auto simp: structural_def scan_token_def split: if_splits)
  with l' reading_at_input show ?thesis by auto
qed

lemma literal_rest_reading:
  "reading l (cs @ s) buf \<Longrightarrow> \<exists>l'. literal_rest cs t l = (t, l') \<and> reading l' s buf"
proof (induction cs arbitrary: l)
  case (Cons c cs)
  with reading_get [of l c "cs @ s" buf] show ?case by (simp add: Let_def)
qed simp

definition literal :: "string \<Rightarrow> token_type option" where
  "literal e = map_of [(''true'', Literal_true), (''false'', Literal_false), (''null'', Literal_null)] e"

lemma scan_literal_text:
  assumes "literal e = Some t" "at_input l (w @ e @ s)" "whitespace w"
  shows "\<exists>l'. scan fl l = (t, l') \<and> at_input l' s"
proof -
  have read: ?thesis if "e = c # cs" "\<not> is_whitespace (Some c)"
    "\<And>l'. current l' = Some c \<Longrightarrow> scan_token fl l' = literal_rest cs t l'" for c cs
  proof -
    from scan_at [of l w c "cs @ s" fl] assms(2,3) that(1,2) obtain l' buf where
      l': "scan fl l = scan_token fl l'" "current l' = Some c" "reading l' (cs @ s) buf" by auto
    with that(3) literal_rest_reading [OF l'(3), of t] reading_at_input show ?thesis by auto
  qed
  from assms(1) consider "e = ''true''" "t = Literal_true" | "e = ''false''" "t = Literal_false"
    | "e = ''null''" "t = Literal_null"
    by (simp add: literal_def split: if_splits)
  then show ?thesis
    by cases (rule read, assumption, simp add: is_whitespace_def,
      simp add: scan_token_def scan_literal_def del: literal_rest.simps)+
qed

section \<open>Numbers\<close>

lemma int_of_char: "(of_char c :: int) = int (of_char c)"
  by (metis of_nat_of_char)

lemma between_digit [simp]: "between 0x30 0x39 (Some c) \<longleftrightarrow> is_digit c"
  by (simp add: between_def is_digit_def int_of_char)

lemma between_eof [simp]: "\<not> between lo hi eof"
  by (simp add: between_def)

definition digits :: "string \<Rightarrow> bool" where
  "digits s \<longleftrightarrow> s \<noteq> [] \<and> (\<forall>c \<in> set s. is_digit c)"

definition whole_part :: "string \<Rightarrow> bool" where
  "whole_part i \<longleftrightarrow> i = ''0'' \<or> digits i \<and> hd i \<noteq> CHR ''0''"

definition fraction_part :: "string \<Rightarrow> bool" where
  "fraction_part f \<longleftrightarrow> f = '''' \<or> (\<exists>ds. f = CHR ''.'' # ds \<and> digits ds)"

definition exponent_part :: "string \<Rightarrow> bool" where
  "exponent_part x \<longleftrightarrow> x = '''' \<or> (\<exists>c sg ds. x = c # sg @ ds \<and> c \<in> {CHR ''e'', CHR ''E''} \<and>
     sg \<in> {'''', ''+'', ''-''} \<and> digits ds)"

text \<open>What may follow a number: nothing that would make it longer.\<close>

definition boundary :: "string \<Rightarrow> bool" where
  "boundary s \<longleftrightarrow> (case s of [] \<Rightarrow> True
     | c # _ \<Rightarrow> \<not> is_digit c \<and> c \<noteq> CHR ''.'' \<and> c \<noteq> CHR ''e'' \<and> c \<noteq> CHR ''E'')"

text \<open>The value of a number token, and the conversion of the text of a number.\<close>

definition token_value :: "token_type \<Rightarrow> lexer \<Rightarrow> json option" where
  "token_value t l = (if t = Value_unsigned then Some (Number_unsigned (value_unsigned l))
     else if t = Value_integer then Some (Number_integer (value_integer l))
     else map_option Number_float (value_float l))"

definition converted :: "(rat \<Rightarrow> rat) \<Rightarrow> token_type \<Rightarrow> string \<Rightarrow> json option" where
  "converted fl t buf =
     (case if t = Value_unsigned then map_option (\<lambda>x. Number_unsigned (word_of_int x)) (strtoull buf)
           else if t = Value_integer then map_option (\<lambda>x. Number_integer (word_of_int x)) (strtoll buf)
           else None of
        Some v \<Rightarrow> Some v
      | None \<Rightarrow> map_option Number_float (strtod fl buf))"

definition scanned :: "(rat \<Rightarrow> rat) \<Rightarrow> token_type \<times> lexer \<Rightarrow> token_type \<Rightarrow> string \<Rightarrow> string \<Rightarrow> bool" where
  "scanned fl r ty buf s \<longleftrightarrow> (case r of (t, l) \<Rightarrow> at_input l s \<and>
     t \<in> {Value_unsigned, Value_integer, Value_float} \<and> token_value t l = converted fl ty buf)"

lemma at_input_fields [simp]:
  "at_input (l\<lparr>value_float := x\<rparr>) s = at_input l s"
  "at_input (l\<lparr>value_unsigned := u\<rparr>) s = at_input l s"
  "at_input (l\<lparr>value_integer := u\<rparr>) s = at_input l s"
  by (simp_all add: at_input_def settled_def past_bom_def)

lemma done_scanned:
  assumes "reading l s buf"
  shows "scanned fl (scan_number_done fl ty (get l)) ty buf s"
  using at_input_unget [OF assms]
  by (auto simp: scanned_def scan_number_done_def scan_float_def Let_def converted_def token_value_def
      split: option.splits)

lemma any2_scanned:
  assumes "reading l (ds @ s) buf" "\<forall>c \<in> set ds. is_digit c" "boundary s"
  shows "scanned fl (scan_number_any2 fl ty l) ty (buf @ ds) s"
  using assms
proof (induction ds arbitrary: l buf)
  case Nil
  with done_scanned [of l s buf fl ty] reading_get [of l] reading_get_end [of l] show ?case
    by (cases s) (auto simp: scan_number_any2.simps [of fl ty l] Let_def boundary_def)
next
  case (Cons d ds)
  note g = reading_get [OF Cons.prems(1) [simplified]]
  from Cons.IH [OF reading_add(2) [OF g(2)]] Cons.prems(2,3) g(1) show ?case
    by (simp add: scan_number_any2.simps [of fl ty l] Let_def)
qed

lemma digits_Cons: "digits ds \<Longrightarrow> \<exists>d ds'. ds = d # ds' \<and> is_digit d \<and> (\<forall>c \<in> set ds'. is_digit c)"
  by (cases ds) (auto simp: digits_def)

lemma sign_scanned:
  assumes "reading l (ds @ s) buf" "digits ds" "boundary s"
  shows "scanned fl (scan_number_sign fl ty l) ty (buf @ ds) s"
proof -
  obtain d ds' where d: "ds = d # ds'" "is_digit d" "\<forall>c \<in> set ds'. is_digit c"
    using digits_Cons [OF assms(2)] by blast
  note g = reading_get [OF assms(1) [unfolded d(1), simplified]]
  from any2_scanned [OF reading_add(2) [OF g(2)] d(3) assms(3), of fl ty] g(1) d(1,2) show ?thesis
    by (simp add: scan_number_sign_def Let_def)
qed

lemma exponent_scanned:
  assumes "reading l (sg @ ds @ s) buf" "sg \<in> {'''', ''+'', ''-''}" "digits ds" "boundary s"
  shows "scanned fl (scan_number_exponent fl l) Value_float (buf @ sg @ ds) s"
proof (cases "sg = ''''")
  case True
  obtain d ds' where d: "ds = d # ds'" "is_digit d" "\<forall>c \<in> set ds'. is_digit c"
    using digits_Cons [OF assms(3)] by blast
  from d(2) have "d \<noteq> CHR ''+''" "d \<noteq> CHR ''-''" by (auto simp: is_digit_def)
  moreover note g = reading_get [OF assms(1) [unfolded d(1) True, simplified]]
  ultimately show ?thesis
    using any2_scanned [OF reading_add(2) [OF g(2)] d(3) assms(4), of fl Value_float] d True
    by (simp add: scan_number_exponent_def Let_def)
next
  case False
  then obtain c where c: "sg = [c]" "c = CHR ''+'' \<or> c = CHR ''-''" using assms(2) by auto
  note g = reading_get [OF assms(1) [unfolded c(1), simplified]]
  from sign_scanned [OF reading_add(2) [OF g(2)] assms(3,4), of fl Value_float] g(1) c show ?thesis
    by (auto simp: scan_number_exponent_def Let_def)
qed

text \<open>A state in which a number may end or go on with an exponent.\<close>

lemma exponent_or_done:
  assumes "reading l (x @ s) buf" "exponent_part x" "boundary s"
  shows "scanned fl (if exponent_char (current (get l)) then scan_number_exponent fl (add_current (get l))
      else scan_number_done fl ty (get l)) (if x = '''' then ty else Value_float) (buf @ x) s \<and>
    \<not> digit_char (current (get l)) \<and> current (get l) \<noteq> Some (CHR ''.'')"
proof (cases "x = ''''")
  case True
  with assms done_scanned [of l s buf fl ty] reading_get [of l] reading_get_end [of l] show ?thesis
    by (cases s) (auto simp: boundary_def)
next
  case False
  with assms(2) obtain c sg ds where x: "x = c # sg @ ds" "c = CHR ''e'' \<or> c = CHR ''E''"
    "sg \<in> {'''', ''+'', ''-''}" "digits ds" by (auto simp: exponent_part_def)
  note g = reading_get [OF assms(1) [unfolded x(1), simplified]]
  have "\<not> is_digit c" using x(2) by (auto simp: is_digit_def)
  with exponent_scanned [of "add_current (get l)" sg ds s "buf @ [c]" fl] reading_add(2) [OF g(2)]
    x g(1) assms(3) show ?thesis by auto
qed

lemma decimal2_scanned:
  assumes "reading l (ds @ x @ s) buf" "\<forall>c \<in> set ds. is_digit c" "exponent_part x" "boundary s"
  shows "scanned fl (scan_number_decimal2 fl Value_float l) Value_float (buf @ ds @ x) s"
  using assms
proof (induction ds arbitrary: l buf)
  case Nil
  with exponent_or_done [of l x s buf fl Value_float] show ?case
    by (simp add: scan_number_decimal2.simps [of fl Value_float l] Let_def split: if_splits)
next
  case (Cons d ds)
  note g = reading_get [OF Cons.prems(1) [simplified]]
  from Cons.IH [OF reading_add(2) [OF g(2)]] Cons.prems(2-4) g(1) show ?case
    by (simp add: scan_number_decimal2.simps [of fl Value_float l] Let_def)
qed

lemma decimal1_scanned:
  assumes "reading l (ds @ x @ s) buf" "digits ds" "exponent_part x" "boundary s"
  shows "scanned fl (scan_number_decimal1 fl l) Value_float (buf @ ds @ x) s"
proof -
  obtain d ds' where d: "ds = d # ds'" "is_digit d" "\<forall>c \<in> set ds'. is_digit c"
    using digits_Cons [OF assms(2)] by blast
  note g = reading_get [OF assms(1) [unfolded d(1), simplified]]
  from decimal2_scanned [OF reading_add(2) [OF g(2)] d(3) assms(3,4), of fl] g(1) d(1,2) show ?thesis
    by (simp add: scan_number_decimal1_def Let_def)
qed

lemma fraction_or_exponent:
  assumes "reading l (f @ x @ s) buf" "fraction_part f" "exponent_part x" "boundary s"
  shows "scanned fl
      (if current (get l) = Some (CHR ''.'')
       then scan_number_decimal1 fl (add (decimal_point_char (get l)) (get l))
       else if exponent_char (current (get l)) then scan_number_exponent fl (add_current (get l))
       else scan_number_done fl ty (get l))
      (if f = '''' \<and> x = '''' then ty else Value_float) (buf @ f @ x) s \<and>
    \<not> digit_char (current (get l))"
proof (cases "f = ''''")
  case True
  with exponent_or_done [of l x s buf fl ty] assms show ?thesis by auto
next
  case False
  with assms(2) obtain ds where f: "f = CHR ''.'' # ds" "digits ds" by (auto simp: fraction_part_def)
  note g = reading_get [OF assms(1) [unfolded f(1), simplified]]
  have "decimal_point_char (get l) = CHR ''.''" using g(2) by (simp add: reading_def settled_def)
  with decimal1_scanned [OF reading_add(1) [OF g(2)] f(2) assms(3,4), of fl "CHR ''.''"] f g(1)
  show ?thesis by (simp add: is_digit_def)
qed

lemma any1_scanned:
  assumes "reading l (ds @ f @ x @ s) buf" "\<forall>c \<in> set ds. is_digit c"
    "fraction_part f" "exponent_part x" "boundary s"
  shows "scanned fl (scan_number_any1 fl ty l) (if f = '''' \<and> x = '''' then ty else Value_float)
    (buf @ ds @ f @ x) s"
  using assms
proof (induction ds arbitrary: l buf)
  case Nil
  with fraction_or_exponent [of l f x s buf fl ty] show ?case
    by (simp add: scan_number_any1.simps [of fl ty l] Let_def)
next
  case (Cons d ds)
  note g = reading_get [OF Cons.prems(1) [simplified]]
  from Cons.IH [OF reading_add(2) [OF g(2)]] Cons.prems(2-5) g(1) show ?case
    by (simp add: scan_number_any1.simps [of fl ty l] Let_def)
qed

definition number_text :: "bool \<Rightarrow> string \<Rightarrow> string \<Rightarrow> string \<Rightarrow> string" where
  "number_text neg i f x = (if neg then ''-'' else '''') @ i @ f @ x"

definition number_token :: "bool \<Rightarrow> string \<Rightarrow> string \<Rightarrow> token_type" where
  "number_token neg f x = (if f = '''' \<and> x = '''' then if neg then Value_integer else Value_unsigned
     else Value_float)"

text \<open>After an optional minus sign: the whole part decides the state.\<close>

lemma whole_scanned:
  assumes "whole_part (c # ds)" "fraction_part f" "exponent_part x" "boundary s"
    "reading l (ds @ f @ x @ s) (buf @ [c])"
  shows "scanned fl (if c = CHR ''0'' then scan_number_zero fl ty l else scan_number_any1 fl ty l)
    (if f = '''' \<and> x = '''' then ty else Value_float) (buf @ c # ds @ f @ x) s"
proof (cases "c = CHR ''0''")
  case True
  then have "ds = ''''" using assms(1) by (auto simp: whole_part_def)
  with fraction_or_exponent [of l f x s "buf @ [c]" fl ty] assms True show ?thesis
    by (simp add: scan_number_zero_def Let_def)
next
  case False
  then have "\<forall>d \<in> set ds. is_digit d" using assms(1) by (auto simp: whole_part_def digits_def)
  with any1_scanned [OF assms(5) this assms(2-4), of fl ty] False show ?thesis by simp
qed

lemma whole_part_Cons:
  "whole_part i \<Longrightarrow> \<exists>c ds. i = c # ds \<and> is_digit c \<and>
     (c \<noteq> CHR ''0'' \<longrightarrow> between 0x31 0x39 (Some c))"
proof -
  assume w: "whole_part i"
  then obtain c ds where i: "i = c # ds" "is_digit c"
    by (cases i) (auto simp: whole_part_def digits_def is_digit_def)
  have "c = CHR ''0'' \<or> (of_char c :: nat) \<noteq> 48"
    using of_char_eq_iff [of c "CHR ''0''", where 'a = nat] by auto
  with i show ?thesis by (auto simp: between_def is_digit_def int_of_char)
qed

lemma scan_number_text:
  assumes "at_input l (w @ number_text neg i f x @ s)" "whitespace w" "whole_part i"
    "fraction_part f" "exponent_part x" "boundary s"
  shows "scanned fl (scan fl l) (number_token neg f x) (number_text neg i f x) s"
proof -
  obtain c ds where i: "i = c # ds" "is_digit c" "c \<noteq> CHR ''0'' \<longrightarrow> between 0x31 0x39 (Some c)"
    using whole_part_Cons [OF assms(3)] by blast
  let ?h = "if neg then CHR ''-'' else c"
  have h: "\<not> is_whitespace (Some ?h)" "?h = CHR ''-'' \<or> is_digit ?h"
    using i(2) by (auto simp: is_whitespace_def is_digit_def)
  let ?rest = "(if neg then c # ds else ds) @ f @ x @ s"
  have "number_text neg i f x @ s = ?h # ?rest" using i(1) by (simp add: number_text_def)
  with scan_at [of l w ?h ?rest fl] assms(1,2) h(1) obtain l' buf where
    l': "scan fl l = scan_token fl l'" "current l' = Some ?h" "reading l' ?rest buf" by auto
  have d: "d \<noteq> CHR ''[''" "d \<noteq> CHR '']''" "d \<noteq> CHR ''{''" "d \<noteq> CHR ''}''" "d \<noteq> CHR '':''"
    "d \<noteq> CHR '',''" "d \<noteq> CHR ''t''" "d \<noteq> CHR ''f''" "d \<noteq> CHR ''n''" "d \<noteq> CHR 0x22"
    if "d = CHR ''-'' \<or> is_digit d" for d
    using that by (auto simp: is_digit_def)
  have "scan_token fl l' = scan_number fl l'"
    using l'(2) h(2) d [OF h(2)] by (simp add: scan_token_def)
  moreover have "scanned fl (scan_number fl l') (number_token neg f x) (number_text neg i f x) s"
  proof (cases neg)
    case False
    have "reading (add_current (reset l')) (ds @ f @ x @ s) ('''' @ [c])"
      using reading_add(2) [OF reading_add(3) [OF l'(3)]] l'(2) False by (simp add: lexer_frame)
    from whole_scanned [OF assms(3) [unfolded i(1)] assms(4-6) this, of fl Value_unsigned]
    show ?thesis using l'(2) False i(1,2)
      by (auto simp: scan_number_def Let_def lexer_frame number_text_def number_token_def is_digit_def)
  next
    case True
    let ?l = "add_current (reset l')"
    have r: "reading ?l (c # ds @ f @ x @ s) ''-''"
      using reading_add(2) [OF reading_add(3) [OF l'(3)]] l'(2) True by (simp add: lexer_frame)
    note g = reading_get [OF r]
    have "reading (add_current (get ?l)) (ds @ f @ x @ s) (''-'' @ [c])"
      using reading_add(2) [OF g(2)] g(1) by simp
    from whole_scanned [OF assms(3) [unfolded i(1)] assms(4-6) this, of fl Value_integer]
    show ?thesis using l'(2) True i(1,3) g(1)
      by (auto simp: scan_number_def scan_number_minus_def Let_def lexer_frame number_text_def
          number_token_def)
  qed
  ultimately show ?thesis using l'(1) by simp
qed

text \<open>Which integers keep their type.\<close>

lemma digits_value_nat: "digits_value (nat_to_string n) = int n"
proof -
  have tw: "takeWhile is_digit (nat_to_string n) = nat_to_string n" for n
    by (simp add: takeWhile_eq_all_conv nat_to_string_digits)
  have d: "of_char (digit k) - 48 = int (k mod 10)" for k
    by (simp add: int_of_char)
  have "foldl (\<lambda>n c. 10 * n + (of_char c - 0x30)) 0 (nat_to_string n) = int n"
  proof (induction n rule: nat_to_string.induct)
    case (1 n)
    show ?case
    proof (cases "n < 10")
      case True
      then show ?thesis by (simp add: nat_to_string.simps [of n] d)
    next
      case False
      then have "nat_to_string n = nat_to_string (n div 10) @ [digit n]"
        by (simp add: nat_to_string.simps [of n])
      with 1 False show ?thesis by (simp add: d zdiv_int zmod_int)
    qed
  qed
  then show ?thesis by (simp add: digits_value_def tw)
qed


lemma nat_to_string_whole: "whole_part (nat_to_string n)"
proof (induction n rule: nat_to_string.induct)
  case (1 n)
  have ds: "digits (nat_to_string n)" for n
    by (simp add: digits_def nat_to_string_digits)
  show ?case
  proof (cases "n < 10")
    case True
    have "digit n \<noteq> CHR ''0'' \<or> n = 0"
      using of_char_digit [of n] True by (cases "digit n = CHR ''0''") auto
    moreover have "digit 0 = CHR ''0''"
      using of_char_eq_iff [of "digit 0" "CHR ''0''", where 'a = nat] by simp
    ultimately show ?thesis using True ds [of n]
      by (auto simp: whole_part_def nat_to_string.simps [of n])
  next
    case False
    then have n: "nat_to_string n = nat_to_string (n div 10) @ [digit n]"
      by (simp add: nat_to_string.simps [of n])
    from False have "nat_to_string (n div 10) \<noteq> ''0''"
      using digits_value_nat [of "n div 10"] by (auto simp: digits_value_def is_digit_def)
    with 1 [OF False] ds [of n] n show ?thesis by (auto simp: whole_part_def)
  qed
qed

text \<open>Printed integers of 64 bits keep their type and value.\<close>

lemma converted_unsigned:
  "converted fl Value_unsigned (nat_to_string (unat u)) = Some (Number_unsigned u)"
  using unsigned_less [of u, where 'a = int]
  by (simp add: converted_def strtoull_def digits_value_nat)

lemma converted_integer:
  assumes "sint i < 0"
  shows "converted fl Value_integer (CHR ''-'' # nat_to_string (nat (- sint i))) = Some (Number_integer i)"
proof -
  have "- (2 ^ 63) \<le> sint i" using sint_ge [of i] by simp
  moreover have "digits_value (nat_to_string (nat (- sint i))) = - sint i"
    using assms by (simp add: digits_value_nat)
  ultimately show ?thesis using assms by (simp add: converted_def strtoll_def sign_of_def Let_def)
qed

end
