(* ===== verification/JsonStrings.thy ===== *)
theory JsonStrings
  imports JsonTokens
begin

text \<open>
  The contents of strings: the bytes of a code point and the ranges the scanner checks agree with
  UTF-8, and scanning a string accepts exactly the characters and escapes of the grammar and decodes
  them.
\<close>

section \<open>Code points and their bytes\<close>

text \<open>A scalar value of Unicode: a code point that is not a surrogate.\<close>

definition scalar :: "int \<Rightarrow> bool" where
  "scalar cp \<longleftrightarrow> 0 \<le> cp \<and> cp \<le> 0x10FFFF \<and> \<not> (0xD800 \<le> cp \<and> cp \<le> 0xDFFF)"

lemma or_low_bits:
  fixes m x :: int
  assumes "take_bit k m = 0" "0 \<le> x" "x < 2 ^ k"
  shows "m OR x = m + x"
proof -
  have "take_bit k x = x" using assms(2,3) by (simp add: take_bit_int_eq_self)
  then have "m AND x = take_bit k m AND x"
    by (metis (no_types, lifting) and.assoc and.commute take_bit_eq_mask)
  with assms(1) have "m AND x = 0" by simp
  then show ?thesis by (metis add_0 plus_and_or)
qed

lemma low_six: "(x :: int) AND 0x3F = x mod 64"
  using take_bit_eq_mask [of 6 x] by (simp add: take_bit_eq_mod mask_eq_exp_minus_1)

lemma continuation: "(0x80 :: int) OR (x AND 0x3F) = 0x80 + x mod 64"
  using or_low_bits [of 6 "0x80" "x mod 64"] by (simp add: low_six take_bit_eq_mod)

lemma lead_bytes:
  fixes cp :: int
  assumes "0 \<le> cp"
  shows "cp \<le> 0x7FF \<Longrightarrow> 0xC0 OR drop_bit 6 cp = 0xC0 + cp div 64"
    "cp \<le> 0xFFFF \<Longrightarrow> 0xE0 OR drop_bit 12 cp = 0xE0 + cp div 4096"
    "cp \<le> 0x10FFFF \<Longrightarrow> 0xF0 OR drop_bit 18 cp = 0xF0 + cp div 262144"
  using assms or_low_bits [of 5 "0xC0" "cp div 64"] or_low_bits [of 4 "0xE0" "cp div 4096"]
    or_low_bits [of 3 "0xF0" "cp div 262144"]
  by (simp_all add: drop_bit_eq_div take_bit_eq_mod)

text \<open>The bytes by arithmetic.\<close>

lemma codepoint_bytes_eq:
  assumes "0 \<le> cp" "cp \<le> 0x10FFFF"
  shows "codepoint_bytes cp =
    (if cp < 0x80 then [char_of cp]
     else if cp \<le> 0x7FF then [char_of (0xC0 + cp div 64), char_of (0x80 + cp mod 64)]
     else if cp \<le> 0xFFFF then
       [char_of (0xE0 + cp div 4096), char_of (0x80 + cp div 64 mod 64), char_of (0x80 + cp mod 64)]
     else
       [char_of (0xF0 + cp div 262144), char_of (0x80 + cp div 4096 mod 64),
        char_of (0x80 + cp div 64 mod 64), char_of (0x80 + cp mod 64)])"
  using assms lead_bytes [OF assms(1)]
  by (simp add: codepoint_bytes_def continuation drop_bit_eq_div)

lemma of_char_of_int: "0 \<le> n \<Longrightarrow> n < 256 \<Longrightarrow> (of_char (char_of n) :: int) = n"
  by simp

lemma between_char_of: "0 \<le> n \<Longrightarrow> n < 256 \<Longrightarrow> between lo hi (Some (char_of n)) \<longleftrightarrow> lo \<le> n \<and> n \<le> hi"
  by (simp add: between_def)

lemma of_char_bounds: "0 \<le> (of_char c :: int)" "(of_char c :: int) < 256"
  by (simp_all add: int_of_char)

definition in_ranges :: "(int \<times> int) list \<Rightarrow> string \<Rightarrow> bool" where
  "in_ranges rs bs \<longleftrightarrow> list_all2 (\<lambda>(lo, hi) b. between lo hi (Some b)) rs bs"

lemma in_ranges_simps [simp]:
  "in_ranges [] bs \<longleftrightarrow> bs = []"
  "in_ranges ((lo, hi) # rs) bs \<longleftrightarrow> (\<exists>b cs. bs = b # cs \<and> between lo hi (Some b) \<and> in_ranges rs cs)"
  by (auto simp: in_ranges_def list_all2_Cons1)

text \<open>The bytes of a scalar value above the ASCII characters are in the ranges of their first byte.\<close>

lemma codepoint_in_ranges:
  assumes "scalar cp" "0x80 \<le> cp"
  obtains b bs rs where "codepoint_bytes cp = b # bs" "utf8_tail (Some b) = Some rs" "in_ranges rs bs"
    "0x80 \<le> (of_char b :: int)"
proof -
  have cp: "0 \<le> cp" "cp \<le> 0x10FFFF" using assms by (simp_all add: scalar_def)
  have m: "0 \<le> x mod 64" "x mod 64 < 64" for x :: int by simp_all
  note bt = between_char_of
  consider "cp \<le> 0x7FF" | "0x7FF < cp" "cp \<le> 0xFFFF" | "0xFFFF < cp" by linarith
  then show ?thesis
  proof cases
    case 1
    with assms(2) have "2 \<le> cp div 64" "cp div 64 < 32" by linarith+
    with 1 assms(2) m [of cp] show ?thesis
      by (intro that [of "char_of (0xC0 + cp div 64)" "[char_of (0x80 + cp mod 64)]" "[(0x80, 0xBF)]"])
        (simp_all add: codepoint_bytes_eq [OF cp] utf8_tail_def bt)
  next
    case 2
    let ?a = "cp div 4096" and ?b = "cp div 64 mod 64"
    have a: "0 \<le> ?a" "?a < 16" using 2 by linarith+
    have q: "cp div 64 = 64 * ?a + ?b"
      by (simp add: zdiv_zmult2_eq [of 64 cp 64, simplified])
    have "32 \<le> cp div 64" using 2 by linarith
    with q have b0: "?a = 0 \<Longrightarrow> 32 \<le> ?b" by linarith
    have b13: "?b < 32" if "?a = 13"
    proof -
      from that have "cp < 0xE000" by linarith
      with assms(1) have "cp < 0xD800" by (simp add: scalar_def)
      then have "cp div 64 < 864" by linarith
      with q that show ?thesis by linarith
    qed
    define rs :: "(int \<times> int) list" where "rs = (if ?a = 0 then [(0xA0, 0xBF), (0x80, 0xBF)]
      else if ?a = 13 then [(0x80, 0x9F), (0x80, 0xBF)] else [(0x80, 0xBF), (0x80, 0xBF)])"
    from 2 a have "utf8_tail (Some (char_of (0xE0 + ?a))) = Some rs"
      by (auto simp: utf8_tail_def bt rs_def)
    moreover have "in_ranges rs [char_of (0x80 + ?b), char_of (0x80 + cp mod 64)]"
      using b0 b13 m [of cp] m [of "cp div 64"] by (auto simp: rs_def bt)
    ultimately show ?thesis using 2 assms(2) a
      by (intro that [of "char_of (0xE0 + ?a)"]) (simp_all add: codepoint_bytes_eq [OF cp])
  next
    case 3
    let ?a = "cp div 262144" and ?b = "cp div 4096 mod 64"
    have a: "0 \<le> ?a" "?a \<le> 4" using 3 cp by linarith+
    have q: "cp div 4096 = 64 * ?a + ?b"
      by (simp add: zdiv_zmult2_eq [of 64 cp 4096, simplified])
    have "16 \<le> cp div 4096" "cp div 4096 < 272" using 3 cp by linarith+
    with q have b0: "?a = 0 \<Longrightarrow> 16 \<le> ?b" and b4: "?a = 4 \<Longrightarrow> ?b < 16" by linarith+
    define rs :: "(int \<times> int) list" where "rs = (if ?a = 0 then [(0x90, 0xBF), (0x80, 0xBF), (0x80, 0xBF)]
      else if ?a = 4 then [(0x80, 0x8F), (0x80, 0xBF), (0x80, 0xBF)]
      else [(0x80, 0xBF), (0x80, 0xBF), (0x80, 0xBF)])"
    from 3 a have "utf8_tail (Some (char_of (0xF0 + ?a))) = Some rs"
      by (auto simp: utf8_tail_def bt rs_def)
    moreover have "in_ranges rs [char_of (0x80 + ?b), char_of (0x80 + cp div 64 mod 64),
        char_of (0x80 + cp mod 64)]"
      using b0 b4 m [of cp] m [of "cp div 64"] m [of "cp div 4096"] by (auto simp: rs_def bt)
    ultimately show ?thesis using 3 assms(2) a
      by (intro that [of "char_of (0xF0 + ?a)"]) (simp_all add: codepoint_bytes_eq [OF cp])
  qed
qed

text \<open>And every sequence of bytes in the ranges is the encoding of a scalar value.\<close>

lemma base64:
  assumes "0 \<le> z" "z < 64"
  shows "((w :: int) * 64 + z) div 64 = w" "(w * 64 + z) mod 64 = z"
  using assms by simp_all

lemma base64_twice:
  assumes "0 \<le> y" "y < 64" "0 \<le> z" "z < 64"
  shows "(((x :: int) * 64 + y) * 64 + z) div 4096 = x"
proof -
  have "((x * 64 + y) * 64 + z) div 4096 = ((x * 64 + y) * 64 + z) div 64 div 64"
    by (simp add: zdiv_zmult2_eq [of 64 _ 64, simplified])
  with assms show ?thesis by (simp add: base64)
qed

lemma base64_thrice:
  assumes "0 \<le> y" "y < 64" "0 \<le> z" "z < 64" "0 \<le> u" "u < 64"
  shows "((((x :: int) * 64 + y) * 64 + z) * 64 + u) div 262144 = x"
proof -
  have "(((x * 64 + y) * 64 + z) * 64 + u) div 262144 = (((x * 64 + y) * 64 + z) * 64 + u) div 64 div 4096"
    by (simp add: zdiv_zmult2_eq [of 4096 _ 64, simplified])
  with assms show ?thesis by (simp add: base64 base64_twice)
qed

lemma between_offset:
  assumes "between lo hi (Some c)"
  shows "lo \<le> (of_char c :: int) \<and> (of_char c :: int) \<le> hi \<and> char_of (of_char c :: int) = c"
  using assms by (simp add: between_def)

lemma offsets2:
  fixes x y :: int
  assumes "0xC2 \<le> x" "x \<le> 0xDF" "0x80 \<le> y" "y \<le> 0xBF"
  shows "0x80 \<le> (x - 0xC0) * 64 + (y - 0x80) \<and> (x - 0xC0) * 64 + (y - 0x80) \<le> 0x7FF"
  using assms by simp

lemma offsets3:
  fixes x y :: int
  assumes "0xE0 \<le> x" "0x80 \<le> y" "x = 0xE0 \<longrightarrow> 0xA0 \<le> y"
  shows "32 \<le> (x - 0xE0) * 64 + (y - 0x80)"
proof (cases "x = 0xE0")
  case False
  with assms(1) have "0xE1 \<le> x" by simp
  with assms(2) show ?thesis by simp
qed (use assms in simp)

lemma offsets4:
  fixes x y :: int
  assumes "0xF0 \<le> x" "x \<le> 0xF4" "0x80 \<le> y" "y \<le> 0xBF" "x = 0xF0 \<longrightarrow> 0x90 \<le> y"
    "x = 0xF4 \<longrightarrow> y \<le> 0x8F"
  shows "16 \<le> (x - 0xF0) * 64 + (y - 0x80) \<and> (x - 0xF0) * 64 + (y - 0x80) \<le> 271"
proof -
  from assms(1,2) consider "x = 0xF0" | "x = 0xF4" | "0xF1 \<le> x" "x \<le> 0xF3" by linarith
  then show ?thesis by cases (use assms in simp_all)
qed

lemma unscaled_bounds:
  fixes w z :: int
  assumes "0 \<le> z" "z < 64" "lo * 64 \<le> w * 64 + z" "w * 64 + z \<le> hi * 64 + 63"
  shows "lo \<le> w \<and> w \<le> hi"
  using assms by linarith

lemma surrogate_offsets:
  fixes x y z :: int
  assumes "0 \<le> y" "y < 64" "0 \<le> z" "z < 64" "0xD800 \<le> (x * 64 + y) * 64 + z"
    "(x * 64 + y) * 64 + z \<le> 0xDFFF"
  shows "x = 13 \<and> 32 \<le> y"
proof -
  have "864 \<le> x * 64 + y" "x * 64 + y \<le> 895"
    using unscaled_bounds [OF assms(3,4), of 864 "x * 64 + y" 895] assms(5,6) by simp_all
  moreover from this have "x = 13" using unscaled_bounds [OF assms(1,2), of 13 x 13] by simp
  ultimately show ?thesis by simp
qed

lemma scaled_bounds:
  fixes w z :: int
  assumes "0 \<le> z" "z < 64" "lo \<le> w" "w \<le> hi"
  shows "lo * 64 \<le> w * 64 + z \<and> w * 64 + z \<le> hi * 64 + 63"
  using assms by simp

lemma two_bytes:
  assumes "0xC2 \<le> (of_char b :: int)" "(of_char b :: int) \<le> 0xDF" "between 0x80 0xBF (Some c)"
  shows "\<exists>cp. scalar cp \<and> 0x80 \<le> cp \<and> codepoint_bytes cp = [b, c]"
proof -
  let ?x = "of_char b - 0xC0 :: int" and ?y = "of_char c - 0x80 :: int"
  let ?cp = "?x * 64 + ?y"
  note c = between_offset [OF assms(3)]
  have r: "0x80 \<le> ?cp" "?cp \<le> 0x7FF" using offsets2 [OF assms(1,2)] c by blast+
  have "?cp div 64 = ?x" "?cp mod 64 = ?y" using base64 [of ?y ?x] c by simp_all
  with r have "codepoint_bytes ?cp = [b, c]" by (simp add: codepoint_bytes_eq)
  with r show ?thesis by (intro exI [of _ ?cp]) (simp add: scalar_def)
qed

lemma three_bytes:
  assumes "0xE0 \<le> (of_char b :: int)" "(of_char b :: int) \<le> 0xEF" "between 0x80 0xBF (Some c)"
    "between 0x80 0xBF (Some d)" "of_char b = (0xE0 :: int) \<longrightarrow> 0xA0 \<le> (of_char c :: int)"
    "of_char b = (0xED :: int) \<longrightarrow> (of_char c :: int) \<le> 0x9F"
  shows "\<exists>cp. scalar cp \<and> 0x80 \<le> cp \<and> codepoint_bytes cp = [b, c, d]"
proof -
  let ?x = "of_char b - 0xE0 :: int" and ?y = "of_char c - 0x80 :: int" and ?z = "of_char d - 0x80 :: int"
  let ?cp = "(?x * 64 + ?y) * 64 + ?z"
  note c = between_offset [OF assms(3)] and d = between_offset [OF assms(4)]
  have y: "0 \<le> ?y" "?y < 64" "0 \<le> ?z" "?z < 64" using c d by linarith+
  have w: "32 \<le> ?x * 64 + ?y" using offsets3 [OF assms(1) _ assms(5)] c by blast
  have s: "\<not> (0xD800 \<le> ?cp \<and> ?cp \<le> 0xDFFF)"
  proof
    assume "0xD800 \<le> ?cp \<and> ?cp \<le> 0xDFFF"
    with surrogate_offsets [OF y] have "?x = 13" "32 \<le> ?y" by blast+
    with assms(6) show False by simp
  qed
  have "?x * 64 + ?y \<le> 15 * 64 + 63"
    using scaled_bounds [OF y(1,2), of 0 ?x 15] assms(1,2) by simp
  with scaled_bounds [OF y(3,4) w, of 1023] have r: "0x800 \<le> ?cp" "?cp \<le> 0xFFFF" by simp_all
  have "?cp div 4096 = ?x" "?cp div 64 = ?x * 64 + ?y" "(?x * 64 + ?y) mod 64 = ?y" "?cp mod 64 = ?z"
    using base64_twice [OF y] base64 [OF y(3,4), of "?x * 64 + ?y"] base64 [OF y(1,2), of ?x]
    by blast+
  with r c d have "codepoint_bytes ?cp = [b, c, d]" by (simp add: codepoint_bytes_eq)
  with r s show ?thesis by (intro exI [of _ ?cp]) (simp add: scalar_def)
qed

lemma four_bytes:
  assumes "0xF0 \<le> (of_char b :: int)" "(of_char b :: int) \<le> 0xF4" "between 0x80 0xBF (Some c)"
    "between 0x80 0xBF (Some d)" "between 0x80 0xBF (Some e)"
    "of_char b = (0xF0 :: int) \<longrightarrow> 0x90 \<le> (of_char c :: int)"
    "of_char b = (0xF4 :: int) \<longrightarrow> (of_char c :: int) \<le> 0x8F"
  shows "\<exists>cp. scalar cp \<and> 0x80 \<le> cp \<and> codepoint_bytes cp = [b, c, d, e]"
proof -
  let ?x = "of_char b - 0xF0 :: int" and ?y = "of_char c - 0x80 :: int"
    and ?z = "of_char d - 0x80 :: int" and ?u = "of_char e - 0x80 :: int"
  let ?w = "?x * 64 + ?y"
  let ?cp = "(?w * 64 + ?z) * 64 + ?u"
  note c = between_offset [OF assms(3)] and d = between_offset [OF assms(4)]
    and e = between_offset [OF assms(5)]
  have y: "0 \<le> ?y" "?y < 64" "0 \<le> ?z" "?z < 64" "0 \<le> ?u" "?u < 64" using c d e by linarith+
  have w: "16 \<le> ?w" "?w \<le> 271" using offsets4 [OF assms(1,2) _ _ assms(6,7)] c by blast+
  have r: "0x10000 \<le> ?cp" "?cp \<le> 0x10FFFF" 
    using scaled_bounds [OF y(5,6), of "16 * 64" "?w * 64 + ?z" "271 * 64 + 63"]
      scaled_bounds [OF y(3,4) w] by simp_all
  have "?cp div 262144 = ?x" "?cp div 4096 = ?w" "?cp div 64 = ?w * 64 + ?z" "?cp mod 64 = ?u"
    "?w mod 64 = ?y" "(?w * 64 + ?z) mod 64 = ?z"
    using base64_thrice [OF y] base64_twice [OF y(3-6)] base64 [OF y(5,6), of "?w * 64 + ?z"]
      base64 [OF y(1,2), of ?x] base64 [OF y(3,4), of ?w] by blast+
  with r c d e have "codepoint_bytes ?cp = [b, c, d, e]" by (simp add: codepoint_bytes_eq)
  with r show ?thesis by (intro exI [of _ ?cp]) (simp add: scalar_def)
qed

lemma between_mono: "between lo hi c \<Longrightarrow> lo' \<le> lo \<Longrightarrow> hi \<le> hi' \<Longrightarrow> between lo' hi' c"
  by (auto simp: between_def split: option.splits)

lemma in_ranges_codepoint:
  assumes "utf8_tail (Some b) = Some rs" "in_ranges rs bs"
  shows "\<exists>cp. scalar cp \<and> 0x80 \<le> cp \<and> codepoint_bytes cp = b # bs"
proof -
  have two: ?thesis if "between 0xC2 0xDF (Some b)" "rs = [(0x80, 0xBF)]"
    using that assms(2) two_bytes [of b] by (auto simp: between_def)
  have three: ?thesis
    if "between 0xE0 0xEF (Some b)" "rs = [(lo, hi), (0x80, 0xBF)]" "0x80 \<le> lo" "hi \<le> 0xBF"
      "of_char b = (0xE0 :: int) \<longrightarrow> 0xA0 \<le> lo" "of_char b = (0xED :: int) \<longrightarrow> hi \<le> 0x9F" for lo hi
  proof -
    from assms(2) that(2) obtain c d where bs: "bs = [c, d]" "between lo hi (Some c)"
      "between 0x80 0xBF (Some d)" by auto
    from between_mono [OF bs(2) that(3,4)] three_bytes [of b c d] bs that(1,5,6) show ?thesis
      by (auto simp: between_def)
  qed
  have four: ?thesis
    if "between 0xF0 0xF4 (Some b)" "rs = [(lo, hi), (0x80, 0xBF), (0x80, 0xBF)]" "0x80 \<le> lo"
      "hi \<le> 0xBF" "of_char b = (0xF0 :: int) \<longrightarrow> 0x90 \<le> lo" "of_char b = (0xF4 :: int) \<longrightarrow> hi \<le> 0x8F"
      for lo hi
  proof -
    from assms(2) that(2) obtain c d e where bs: "bs = [c, d, e]" "between lo hi (Some c)"
      "between 0x80 0xBF (Some d)" "between 0x80 0xBF (Some e)" by auto
    from between_mono [OF bs(2) that(3,4)] four_bytes [of b c d e] bs that(1,5,6) show ?thesis
      by (auto simp: between_def)
  qed
  show ?thesis
    using assms(1) two three [where lo = "0x80" and hi = "0xBF"] three [where lo = "0xA0" and hi = "0xBF"]
      three [where lo = "0x80" and hi = "0x9F"] four [where lo = "0x80" and hi = "0xBF"]
      four [where lo = "0x90" and hi = "0xBF"] four [where lo = "0x80" and hi = "0x8F"]
    by (auto simp: utf8_tail_def between_def split: if_splits)
qed

section \<open>The characters of a string\<close>

text \<open>
  \<open>json_char e d\<close>: the text \<open>e\<close> is one character or escape of a string and stands for the bytes
  \<open>d\<close>.
\<close>

definition hex4_value :: "string \<Rightarrow> int option" where
  "hex4_value h = (case map (\<lambda>c. hex_digit (Some c)) h of
       [Some a, Some b, Some c, Some d] \<Rightarrow> Some (a * 4096 + b * 256 + c * 16 + d)
     | _ \<Rightarrow> None)"

definition short_escapes :: "(char \<times> char) list" where
  "short_escapes = [(CHR 0x22, CHR 0x22), (CHR 0x5C, CHR 0x5C), (CHR ''/'', CHR ''/''),
     (CHR ''b'', CHR 0x08), (CHR ''f'', CHR 0x0C), (CHR ''n'', CHR 0x0A), (CHR ''r'', CHR 0x0D),
     (CHR ''t'', CHR 0x09)]"

definition plain :: "char \<Rightarrow> bool" where
  "plain c \<longleftrightarrow> 0x20 \<le> (of_char c :: int) \<and> (of_char c :: int) < 0x80 \<and> c \<noteq> CHR 0x22 \<and> c \<noteq> CHR 0x5C"

definition high_surrogate :: "int \<Rightarrow> bool" where
  "high_surrogate cp \<longleftrightarrow> 0xD800 \<le> cp \<and> cp \<le> 0xDBFF"

definition low_surrogate_value :: "int \<Rightarrow> bool" where
  "low_surrogate_value cp \<longleftrightarrow> 0xDC00 \<le> cp \<and> cp \<le> 0xDFFF"

inductive json_char :: "string \<Rightarrow> string \<Rightarrow> bool" where
  plain: "plain c \<Longrightarrow> json_char [c] [c]"
| encoded: "scalar cp \<Longrightarrow> 0x80 \<le> cp \<Longrightarrow> json_char (codepoint_bytes cp) (codepoint_bytes cp)"
| short: "(x, y) \<in> set short_escapes \<Longrightarrow> json_char [CHR 0x5C, x] [y]"
| unicode: "hex4_value h = Some cp \<Longrightarrow> scalar cp \<Longrightarrow>
    json_char (CHR 0x5C # CHR ''u'' # h) (codepoint_bytes cp)"
| surrogates: "hex4_value h1 = Some hi \<Longrightarrow> high_surrogate hi \<Longrightarrow>
    hex4_value h2 = Some lo \<Longrightarrow> low_surrogate_value lo \<Longrightarrow>
    json_char (CHR 0x5C # CHR ''u'' # h1 @ CHR 0x5C # CHR ''u'' # h2)
      (codepoint_bytes (0x10000 + (hi - 0xD800) * 0x400 + (lo - 0xDC00)))"

inductive json_chars :: "string \<Rightarrow> string \<Rightarrow> bool" where
  Nil: "json_chars '''' ''''"
| Cons: "json_char e d \<Longrightarrow> json_chars e' d' \<Longrightarrow> json_chars (e @ e') (d @ d')"

lemma hex_digit_range: "hex_digit c = Some d \<Longrightarrow> 0 \<le> d \<and> d < 16"
  by (auto simp: hex_digit_def between_def Let_def split: if_splits option.splits)

lemma hex4_value_Some:
  "hex4_value h = Some v \<longleftrightarrow> (\<exists>a b c d x y z u. h = [a, b, c, d] \<and> hex_digit (Some a) = Some x \<and>
     hex_digit (Some b) = Some y \<and> hex_digit (Some c) = Some z \<and> hex_digit (Some d) = Some u \<and>
     v = x * 4096 + y * 256 + z * 16 + u)"
  by (auto simp: hex4_value_def split: list.splits option.splits)

lemma hex4_value_range: "hex4_value h = Some v \<Longrightarrow> 0 \<le> v \<and> v \<le> 0xFFFF"
  by (fastforce simp: hex4_value_Some dest!: hex_digit_range)

text \<open>One hexadecimal digit; \<open>None\<close> for the end of the input and other characters.\<close>

lemma reading_hex_digit:
  assumes "reading l s buf"
  shows "(case s of [] \<Rightarrow> hex_digit (current (get l)) = None
     | c # s' \<Rightarrow> current (get l) = Some c \<and> reading (get l) s' buf)"
  using assms reading_get [of l] reading_get_end [of l]
  by (cases s) (auto simp: hex_digit_def between_def)

lemma get_codepoint_loop_reading:
  assumes "reading l s buf" "get_codepoint_loop fs v l = (Some w, l')"
  shows "\<exists>h s'. s = h @ s' \<and> length h = length fs \<and> reading l' s' buf \<and>
    (\<exists>ds. map (\<lambda>c. hex_digit (Some c)) h = map Some ds \<and>
       w = v + sum_list (map2 (\<lambda>f d. push_bit f d) fs ds))"
  using assms
proof (induction fs arbitrary: l s v)
  case (Cons f fs)
  from Cons.prems(2) obtain d where d: "hex_digit (current (get l)) = Some d"
    "get_codepoint_loop fs (v + push_bit f d) (get l) = (Some w, l')"
    by (auto simp: Let_def split: option.splits)
  with reading_hex_digit [OF Cons.prems(1)] obtain c s' where
    s: "s = c # s'" "current (get l) = Some c" "reading (get l) s' buf"
    by (cases s) auto
  from Cons.IH [OF s(3) d(2)] obtain h s'' ds where
    "s' = h @ s''" "length h = length fs" "reading l' s'' buf"
    "map (\<lambda>c. hex_digit (Some c)) h = map Some ds"
    "w = v + push_bit f d + sum_list (map2 (\<lambda>f d. push_bit f d) fs ds)" by blast
  with s d(1) show ?case
    by (intro exI [of _ "c # h"] exI [of _ s'']) (auto intro!: exI [of _ "d # ds"])
qed auto

lemma get_codepoint_Some:
  assumes "reading l s buf" "get_codepoint l = (Some v, l')"
  shows "\<exists>h s'. s = h @ s' \<and> hex4_value h = Some v \<and> reading l' s' buf"
proof -
  from get_codepoint_loop_reading [OF assms(1), of "[12, 8, 4, 0]" 0 v l'] assms(2)
  obtain h s' ds where h: "s = h @ s'" "length h = 4" "reading l' s' buf"
    "map (\<lambda>c. hex_digit (Some c)) h = map Some ds"
    "v = sum_list (map2 (\<lambda>f d. push_bit f d) [12, 8, 4, 0] ds)"
    by (auto simp: get_codepoint_def)
  from h(2) obtain a b c d where "h = [a, b, c, d]"
    by (auto simp: numeral_eq_Suc length_Suc_conv)
  moreover from this h(4) obtain x y z u where "ds = [x, y, z, u]"
    by (auto simp: Cons_eq_map_conv)
  ultimately have "hex4_value h = Some v"
    using h(4,5) by (simp add: hex4_value_Some push_bit_eq_mult)
  with h show ?thesis by blast
qed

lemma get_codepoint_digits:
  assumes "reading l (h @ s) buf" "hex4_value h = Some v"
  shows "\<exists>l'. get_codepoint l = (Some v, l') \<and> reading l' s buf"
proof -
  from assms(2) obtain a b c d x y z u where h: "h = [a, b, c, d]" "hex_digit (Some a) = Some x"
    "hex_digit (Some b) = Some y" "hex_digit (Some c) = Some z" "hex_digit (Some d) = Some u"
    "v = x * 4096 + y * 256 + z * 16 + u" by (auto simp: hex4_value_Some)
  note r1 = reading_get [OF assms(1) [unfolded h(1), simplified]]
  note r2 = reading_get [OF r1(2)]
  note r3 = reading_get [OF r2(2)]
  note r4 = reading_get [OF r3(2)]
  show ?thesis
    using r1(1) r2(1) r3(1) r4 h(2-6)
    by (simp add: get_codepoint_def Let_def push_bit_eq_mult)
qed

section \<open>One pass of the loop\<close>

lemma bytes_in_range_accepts:
  assumes "reading l (bs @ s) buf" "in_ranges rs bs"
  shows "\<exists>l'. bytes_in_range rs l = (True, l') \<and> reading l' s (buf @ bs)"
  using assms
proof (induction rs arbitrary: l bs buf)
  case (Cons r rs)
  obtain lo hi where r: "r = (lo, hi)" by fastforce
  with Cons.prems(2) obtain b cs where b: "bs = b # cs" "between lo hi (Some b)" "in_ranges rs cs" by auto
  note g = reading_get [OF Cons.prems(1) [unfolded b(1), simplified]]
  from Cons.IH [OF reading_add(2) [OF g(2)] b(3)] b r g(1) show ?case by (simp add: Let_def)
qed simp

lemma bytes_in_range_sound:
  assumes "reading l s buf" "bytes_in_range rs l = (True, l')"
  shows "\<exists>bs s'. s = bs @ s' \<and> in_ranges rs bs \<and> reading l' s' (buf @ bs)"
  using assms
proof (induction rs arbitrary: l s buf)
  case (Cons r rs)
  obtain lo hi where r: "r = (lo, hi)" by fastforce
  with Cons.prems(2) have b: "between lo hi (current (get l))"
    "bytes_in_range rs (add_current (get l)) = (True, l')" by (auto simp: Let_def split: if_splits)
  then obtain c s' where s: "s = c # s'"
    using reading_get_end [of l buf] Cons.prems(1) by (cases s) auto
  note g = reading_get [OF Cons.prems(1) [unfolded s]]
  from Cons.IH [OF reading_add(2) [OF g(2)] b(2)] obtain bs s'' where
    "s' = bs @ s''" "in_ranges rs bs" "reading l' s'' ((buf @ [c]) @ bs)" using g(1) by auto
  with b(1) g(1) r s show ?case by (intro exI [of _ "c # bs"] exI [of _ s'']) auto
qed auto

lemma short_escape_char:
  "(x, y) \<in> set short_escapes \<Longrightarrow> current (get l) = Some x \<Longrightarrow> scan_escape l = (None, add y (get l))"
  by (auto simp: short_escapes_def scan_escape_def Let_def)

lemma scan_escape_cases:
  "scan_escape l = (None, l') \<Longrightarrow>
     (\<exists>x y. (x, y) \<in> set short_escapes \<and> current (get l) = Some x \<and> l' = add y (get l)) \<or>
     (current (get l) = Some (CHR ''u'') \<and> unicode_escape (get l) = (None, l'))"
  by (auto simp: short_escapes_def scan_escape_def Let_def fail_string_def split: if_splits)

lemma surrogate_sum:
  "push_bit 10 hi + lo - 0x35FDC00 = (0x10000 + (hi - 0xD800) * 0x400 + (lo - 0xDC00) :: int)"
  by (simp add: push_bit_eq_mult)

lemma unicode_escape_scalar:
  assumes "reading l (h @ s) buf" "hex4_value h = Some cp" "scalar cp"
  shows "\<exists>l'. unicode_escape l = (None, l') \<and> reading l' s (buf @ codepoint_bytes cp)"
proof -
  obtain l' where l': "get_codepoint l = (Some cp, l')" "reading l' s buf"
    using get_codepoint_digits [OF assms(1,2)] by blast
  with reading_add_all [OF l'(2)] assms(3) show ?thesis
    by (auto simp: unicode_escape_def scalar_def)
qed

lemma unicode_escape_pair:
  assumes "reading l (h1 @ CHR 0x5C # CHR ''u'' # h2 @ s) buf" "hex4_value h1 = Some hi"
    "high_surrogate hi" "hex4_value h2 = Some lo" "low_surrogate_value lo"
  shows "\<exists>l'. unicode_escape l = (None, l') \<and> reading l' s
    (buf @ codepoint_bytes (0x10000 + (hi - 0xD800) * 0x400 + (lo - 0xDC00)))"
proof -
  obtain l1 where l1: "get_codepoint l = (Some hi, l1)" "reading l1 (CHR 0x5C # CHR ''u'' # h2 @ s) buf"
    using get_codepoint_digits [OF assms(1,2)] by blast
  note g1 = reading_get [OF l1(2)]
  note g2 = reading_get [OF g1(2)]
  obtain l2 where l2: "get_codepoint (get (get l1)) = (Some lo, l2)" "reading l2 s buf"
    using get_codepoint_digits [OF g2(2) assms(4)] by blast
  from l1(1) l2(1) g1(1) g2(1) assms(3,5) reading_add_all [OF l2(2)] show ?thesis
    by (simp add: unicode_escape_def low_surrogate_def Let_def high_surrogate_def
        low_surrogate_value_def surrogate_sum)
qed

lemma unicode_escape_sound:
  assumes "reading l s buf" "unicode_escape l = (None, l')"
  shows "\<exists>e d s'. s = e @ s' \<and> json_char (CHR 0x5C # CHR ''u'' # e) d \<and> reading l' s' (buf @ d)"
proof -
  from assms(2) obtain cp l1 where l1: "get_codepoint l = (Some cp, l1)"
    by (auto simp: unicode_escape_def fail_string_def split: prod.splits option.splits)
  with get_codepoint_Some [OF assms(1)] obtain h1 s1 where
    h1: "s = h1 @ s1" "hex4_value h1 = Some cp" "reading l1 s1 buf" by blast
  show ?thesis
  proof (cases "high_surrogate cp")
    case False
    then have cp: "scalar cp" "l' = add_all (codepoint_bytes cp) l1"
      using assms(2) l1 hex4_value_range [OF h1(2)]
      by (auto simp: unicode_escape_def high_surrogate_def scalar_def fail_string_def split: if_splits)
    with h1 reading_add_all [OF h1(3)] unicode show ?thesis by blast
  next
    case True
    then have low: "low_surrogate cp l1 = (None, l')"
      using assms(2) l1 by (simp add: unicode_escape_def high_surrogate_def)
    then have c: "current (get l1) = Some (CHR 0x5C)" "current (get (get l1)) = Some (CHR ''u'')"
      by (auto simp: low_surrogate_def Let_def fail_string_def split: if_splits)
    obtain s2 where s2: "s1 = CHR 0x5C # s2" "reading (get l1) s2 buf"
      using reading_current [OF h1(3) c(1)] by blast
    obtain s3 where s3: "s2 = CHR ''u'' # s3" "reading (get (get l1)) s3 buf"
      using reading_current [OF s2(2) c(2)] by blast
    from low c obtain lo l2 where l2: "get_codepoint (get (get l1)) = (Some lo, l2)"
      "low_surrogate_value lo" "l' = add_all (codepoint_bytes (push_bit 10 cp + lo - 0x35FDC00)) l2"
      by (auto simp: low_surrogate_def Let_def fail_string_def low_surrogate_value_def
          split: prod.splits option.splits if_splits)
    with get_codepoint_Some [OF s3(2)] obtain h2 s4 where
      h2: "s3 = h2 @ s4" "hex4_value h2 = Some lo" "reading l2 s4 buf" by blast
    have "s = (h1 @ CHR 0x5C # CHR ''u'' # h2) @ s4" using h1(1) s2(1) s3(1) h2(1) by simp
    with surrogates [OF h1(2) True h2(2) l2(2)] reading_add_all [OF h2(3)] l2(3) show ?thesis
      unfolding surrogate_sum by blast
  qed
qed

lemma ascii_not_tail: "(of_char c :: int) < 0x80 \<Longrightarrow> utf8_tail (Some c) = None"
  by (simp add: utf8_tail_def between_def)

lemma quote_chars: "(of_char (CHR 0x22) :: int) = 0x22" "(of_char (CHR 0x5C) :: int) = 0x5C"
  by simp_all

text \<open>A pass that goes on has read one character of the grammar.\<close>

lemma string_step_accepts:
  assumes "json_char e d" "reading l (e @ s) buf"
  shows "\<exists>l'. scan_string_step l = (None, l') \<and> reading l' s (buf @ d)"
  using assms
proof cases
  case (plain c)
  note g = reading_get [OF assms(2) [unfolded plain(1), simplified]]
  with plain reading_add(2) [OF g(2)] show ?thesis
    by (simp add: scan_string_step_def Let_def plain_def)
next
  case (encoded cp)
  obtain b bs rs where b: "codepoint_bytes cp = b # bs" "utf8_tail (Some b) = Some rs" "in_ranges rs bs"
    "0x80 \<le> (of_char b :: int)" using codepoint_in_ranges [OF encoded(3,4)] by blast
  note g = reading_get [OF assms(2) [unfolded encoded(1) b(1), simplified]]
  obtain l' where l': "bytes_in_range rs (add_current (get l)) = (True, l')"
    "reading l' s ((buf @ [b]) @ bs)"
    using bytes_in_range_accepts [OF reading_add(2) [OF g(2)] b(3)] g(1) by auto
  have "b \<noteq> CHR 0x22" "b \<noteq> CHR 0x5C" using b(4) by auto
  with l' b g(1) encoded(2) show ?thesis
    by (simp add: scan_string_step_def Let_def scan_utf8_def next_byte_in_range_def)
next
  case (short x y)
  note g = reading_get [OF assms(2) [unfolded short(1), simplified]]
  note g2 = reading_get [OF g(2)]
  from short_escape_char [OF short(3) g2(1)] g(1) reading_add(1) [OF g2(2)] short(2) show ?thesis
    by (simp add: scan_string_step_def Let_def)
next
  case (unicode h cp)
  note g = reading_get [OF assms(2) [unfolded unicode(1), simplified]]
  note g2 = reading_get [OF g(2)]
  from unicode_escape_scalar [OF g2(2) unicode(3,4)] g(1) g2(1) unicode(2) show ?thesis
    by (auto simp: scan_string_step_def scan_escape_def Let_def)
next
  case (surrogates h1 hi h2 lo)
  note g = reading_get [OF assms(2) [unfolded surrogates(1), simplified]]
  note g2 = reading_get [OF g(2)]
  from unicode_escape_pair [OF g2(2) surrogates(3-6)] g(1) g2(1) surrogates(2) show ?thesis
    by (auto simp: scan_string_step_def scan_escape_def Let_def)
qed


lemma scan_utf8_sound:
  assumes "reading l s buf" "current l = Some c" "scan_utf8 l = (None, l')"
  shows "\<exists>cp bs s'. s = bs @ s' \<and> scalar cp \<and> 0x80 \<le> cp \<and> codepoint_bytes cp = c # bs \<and>
    reading l' s' (buf @ c # bs)"
proof -
  from assms(2,3) obtain rs where rs: "utf8_tail (Some c) = Some rs"
    "bytes_in_range rs (add_current l) = (True, l')"
    by (auto simp: scan_utf8_def next_byte_in_range_def fail_string_def
        split: option.splits prod.splits bool.splits)
  from bytes_in_range_sound [OF reading_add(2) [OF assms(1)] rs(2)] obtain bs s' where
    "s = bs @ s'" "in_ranges rs bs" "reading l' s' (buf @ c # bs)" using assms(2) by auto
  with in_ranges_codepoint [OF rs(1)] show ?thesis by blast
qed

lemma string_step_sound:
  assumes "reading l s buf" "scan_string_step l = (None, l')"
  shows "\<exists>e d s'. s = e @ s' \<and> json_char e d \<and> reading l' s' (buf @ d)"
proof -
  from assms(2) obtain c where c: "current (get l) = Some c"
    by (auto simp: scan_string_step_def Let_def fail_string_def split: option.splits)
  obtain s1 where s1: "s = c # s1" "reading (get l) s1 buf"
    using reading_current [OF assms(1) c] by blast
  have nq: "c \<noteq> CHR 0x22" using assms(2) by (auto simp: scan_string_step_def Let_def c)
  consider (esc) "c = CHR 0x5C" "scan_escape (get l) = (None, l')"
    | (plain) "plain c" "l' = add_current (get l)"
    | (utf8) "scan_utf8 (get l) = (None, l')"
  proof (cases "c = CHR 0x5C")
    case True
    with assms(2) esc show ?thesis by (simp add: scan_string_step_def Let_def c)
  next
    case False
    with assms(2) nq have ge: "\<not> (of_char c :: int) < 0x10" "\<not> (of_char c :: int) < 0x20"
      by (simp_all add: scan_string_step_def Let_def c fail_string_def split: if_splits)
    show ?thesis
    proof (cases "(of_char c :: int) < 0x80")
      case True
      with assms(2) nq False ge plain show ?thesis by (simp add: scan_string_step_def Let_def c plain_def)
    next
      case False
      with assms(2) nq \<open>c \<noteq> CHR 0x5C\<close> ge utf8 show ?thesis by (simp add: scan_string_step_def Let_def c)
    qed
  qed
  then show ?thesis
  proof cases
    case plain
    with reading_add(2) [OF s1(2)] c have "reading l' s1 (buf @ [c])" by simp
    moreover have "s = [c] @ s1" using s1(1) by simp
    ultimately show ?thesis using json_char.plain [OF plain(1)] by blast
  next
    case utf8
    from scan_utf8_sound [OF s1(2) c utf8] obtain cp bs s' where
      "s1 = bs @ s'" "scalar cp" "0x80 \<le> cp" "codepoint_bytes cp = c # bs" "reading l' s' (buf @ c # bs)"
      by blast
    moreover from this s1(1) have "s = (c # bs) @ s'" by simp
    ultimately show ?thesis using encoded [of cp] by metis
  next
    case esc
    from scan_escape_cases [OF esc(2)] show ?thesis
    proof (elim disjE exE conjE)
      fix x y assume xy: "(x, y) \<in> set short_escapes" "current (get (get l)) = Some x"
        "l' = add y (get (get l))"
      obtain s2 where "s1 = x # s2" "reading (get (get l)) s2 buf"
        using reading_current [OF s1(2) xy(2)] by blast
      with s1(1) esc(1) have "s = [CHR 0x5C, x] @ s2" by simp
      moreover have "reading l' s2 (buf @ [y])"
        using reading_add(1) \<open>reading (get (get l)) s2 buf\<close> xy(3) by simp
      ultimately show ?thesis using short [OF xy(1)] by blast
    next
      assume u: "current (get (get l)) = Some (CHR ''u'')" "unicode_escape (get (get l)) = (None, l')"
      obtain s2 where s2: "s1 = CHR ''u'' # s2" "reading (get (get l)) s2 buf"
        using reading_current [OF s1(2) u(1)] by blast
      from unicode_escape_sound [OF s2(2) u(2)] s1(1) s2(1) esc(1) show ?thesis
        by (metis append_Cons)
    qed
  qed
qed

lemma string_step_quote:
  assumes "reading l s buf" "scan_string_step l = (Some t, l')"
  shows "t = Parse_error \<or> t = Value_string \<and> (\<exists>s'. s = CHR 0x22 # s' \<and> l' = get l \<and> reading l' s' buf)"
proof (cases "current (get l) = Some (CHR 0x22)")
  case True
  with assms reading_current [OF assms(1) True] show ?thesis
    by (auto simp: scan_string_step_def Let_def)
next
  case False
  have "fst (unicode_escape l) \<in> {None, Some Parse_error}" for l
    by (auto simp: unicode_escape_def low_surrogate_def fail_string_def Let_def
        split: prod.splits option.splits)
  then have "fst (scan_escape l) \<in> {None, Some Parse_error}" for l
    by (auto simp: scan_escape_def Let_def fail_string_def)
  then have "scan_escape l = (Some u, l') \<Longrightarrow> u = Parse_error" for u l l'
    by (metis empty_iff fst_conv insert_iff option.distinct(1) option.inject)
  with False assms(2) show ?thesis
    by (auto simp: scan_string_step_def Let_def fail_string_def scan_utf8_def
        split: option.splits if_splits prod.splits bool.splits)
qed

section \<open>Whole strings\<close>

lemma string_loop_accepts:
  assumes "json_chars e d" "reading l (e @ CHR 0x22 # s) buf"
  shows "\<exists>l'. scan_string_loop l = (Value_string, l') \<and> reading l' s (buf @ d)"
  using assms
proof (induction arbitrary: l buf rule: json_chars.induct)
  case Nil
  note g = reading_get [OF Nil [simplified]]
  then have "scan_string_step l = (Some Value_string, get l)"
    by (simp add: scan_string_step_def Let_def)
  with g show ?case by (simp add: scan_string_loop.simps [of l])
next
  case (Cons e d e' d')
  from string_step_accepts [OF Cons.hyps(1), of l "e' @ CHR 0x22 # s" buf] Cons.prems obtain l1 where
    l1: "scan_string_step l = (None, l1)" "reading l1 (e' @ CHR 0x22 # s) (buf @ d)" by auto
  from Cons.IH [OF l1(2)] l1(1) show ?case by (simp add: scan_string_loop.simps [of l])
qed

lemma string_loop_sound:
  assumes "reading l s buf" "scan_string_loop l = (t, l')"
  shows "t = Parse_error \<or> t = Value_string \<and> (\<exists>e d s'. s = e @ CHR 0x22 # s' \<and> json_chars e d \<and>
    reading l' s' (buf @ d))"
  using assms
proof (induction l arbitrary: s buf rule: scan_string_loop.induct)
  case (1 l)
  obtain o' l1 where step: "scan_string_step l = (o', l1)" by fastforce
  show ?case
  proof (cases o')
    case (Some u)
    with step "1.prems"(2) have t: "u = t" "l1 = l'" by (simp_all add: scan_string_loop.simps [of l])
    from string_step_quote [OF "1.prems"(1), of u l1] step Some t json_chars.Nil show ?thesis
      by (metis append_Nil append_Nil2)
  next
    case None
    from string_step_sound [OF "1.prems"(1)] step None obtain e d s' where
      e: "s = e @ s'" "json_char e d" "reading l1 s' (buf @ d)" by blast
    have "scan_string_loop l1 = (t, l')"
      using "1.prems"(2) step None by (simp add: scan_string_loop.simps [of l])
    from "1.IH" [OF step [symmetric] None e(3) this] show ?thesis
    proof (elim disjE conjE exE)
      fix e2 d2 s2 assume "t = Value_string" "s' = e2 @ CHR 0x22 # s2" "json_chars e2 d2"
        "reading l' s2 ((buf @ d) @ d2)"
      with e(1) json_chars.Cons [OF e(2)] show ?thesis by (metis append.assoc)
    qed simp
  qed
qed

lemma scan_string_text:
  assumes "json_chars e d" "at_input l (w @ CHR 0x22 # e @ CHR 0x22 # s)" "whitespace w"
  shows "\<exists>l'. scan fl l = (Value_string, l') \<and> at_input l' s \<and> token_buffer l' = d"
proof -
  have "\<not> is_whitespace (Some (CHR 0x22))" by (simp add: is_whitespace_def)
  with scan_at [of l w "CHR 0x22" "e @ CHR 0x22 # s" fl] assms(2,3) obtain l' buf where
    l': "scan fl l = scan_token fl l'" "current l' = Some (CHR 0x22)"
    "reading l' (e @ CHR 0x22 # s) buf" by auto
  from string_loop_accepts [OF assms(1) reading_add(3) [OF l'(3)]] obtain l2 where
    l2: "scan_string_loop (reset l') = (Value_string, l2)" "reading l2 s d" by auto
  have "scan_token fl l' = scan_string l'" using l'(2) by (simp add: scan_token_def)
  with l' l2 reading_at_input [OF l2(2)] show ?thesis
    by (auto simp: scan_string_def reading_def)
qed

end
