(* ===== verification/JsonText.thy ===== *)
theory JsonText
  imports JsonStrings
begin

text \<open>
  JSON texts as an inductive grammar over bytes, with the value each text denotes, and the proof
  that the loop of the parser reads every text of the grammar and reports its value as events.
\<close>

section \<open>The grammar\<close>

text \<open>
  The value of a text keeps the members of an object as they are written, also when a name comes
  twice; \<open>normalize\<close> keeps the last one of them, in the place of the first.
\<close>

inductive json_number :: "(rat \<Rightarrow> rat) \<Rightarrow> string \<Rightarrow> json \<Rightarrow> bool" for fl where
  number: "whole_part i \<Longrightarrow> fraction_part f \<Longrightarrow> exponent_part x \<Longrightarrow>
    converted fl (number_token neg f x) (number_text neg i f x) = Some v \<Longrightarrow>
    json_number fl (number_text neg i f x) v"

inductive json_value :: "(rat \<Rightarrow> rat) \<Rightarrow> string \<Rightarrow> json \<Rightarrow> bool"
  and json_elements :: "(rat \<Rightarrow> rat) \<Rightarrow> string \<Rightarrow> json list \<Rightarrow> bool"
  and json_members :: "(rat \<Rightarrow> rat) \<Rightarrow> string \<Rightarrow> (string \<times> json) list \<Rightarrow> bool" for fl where
  null: "json_value fl ''null'' Null"
| true: "json_value fl ''true'' (Boolean True)"
| false: "json_value fl ''false'' (Boolean False)"
| number: "json_number fl e v \<Longrightarrow> json_value fl e v"
| string: "json_chars e d \<Longrightarrow> json_value fl (CHR 0x22 # e @ [CHR 0x22]) (String d)"
| empty_array: "whitespace w \<Longrightarrow> json_value fl (CHR ''['' # w @ '']'') (Array [])"
| array: "json_elements fl e vs \<Longrightarrow> json_value fl (CHR ''['' # e @ '']'') (Array vs)"
| empty_object: "whitespace w \<Longrightarrow> json_value fl (CHR ''{'' # w @ ''}'') (Object [])"
| object: "json_members fl e ms \<Longrightarrow> json_value fl (CHR ''{'' # e @ ''}'') (Object ms)"
| element: "whitespace w \<Longrightarrow> json_value fl e v \<Longrightarrow> whitespace w' \<Longrightarrow>
    json_elements fl (w @ e @ w') [v]"
| elements: "whitespace w \<Longrightarrow> json_value fl e v \<Longrightarrow> whitespace w' \<Longrightarrow> json_elements fl es vs \<Longrightarrow>
    json_elements fl (w @ e @ w' @ CHR '','' # es) (v # vs)"
| member: "whitespace w \<Longrightarrow> json_chars k n \<Longrightarrow> whitespace w' \<Longrightarrow> whitespace w'' \<Longrightarrow>
    json_value fl e v \<Longrightarrow> whitespace w''' \<Longrightarrow>
    json_members fl (w @ CHR 0x22 # k @ CHR 0x22 # w' @ CHR '':'' # w'' @ e @ w''') [(n, v)]"
| members: "whitespace w \<Longrightarrow> json_chars k n \<Longrightarrow> whitespace w' \<Longrightarrow> whitespace w'' \<Longrightarrow>
    json_value fl e v \<Longrightarrow> whitespace w''' \<Longrightarrow> json_members fl es ms \<Longrightarrow>
    json_members fl (w @ CHR 0x22 # k @ CHR 0x22 # w' @ CHR '':'' # w'' @ e @ w''' @ CHR '','' # es)
      ((n, v) # ms)"

section \<open>Events\<close>

text \<open>The events of a value, which stop when the handler refuses one or throws.\<close>

definition andthen :: "(bool, 's) result \<Rightarrow> ('s \<Rightarrow> (bool, 's) result) \<Rightarrow> (bool, 's) result" where
  "andthen r k = (case r of (Inl e, s) \<Rightarrow> raises e s | (Inr b, s) \<Rightarrow> if b then k s else returns False s)"

lemma andthen_simps [simp]:
  "andthen (returns True s) k = k s" "andthen (returns False s) k = returns False s"
  "andthen (raises e s) k = raises e s"
  by (simp_all add: andthen_def)

lemma andthen_True: "andthen r k = returns True s' \<longleftrightarrow> (\<exists>s. r = returns True s \<and> k s = returns True s')"
  by (auto simp: andthen_def split: prod.splits sum.splits if_splits)

function emit :: "'s sax \<Rightarrow> json \<Rightarrow> 's \<Rightarrow> (bool, 's) result"
  and emit_elements :: "'s sax \<Rightarrow> json list \<Rightarrow> 's \<Rightarrow> (bool, 's) result"
  and emit_members :: "'s sax \<Rightarrow> (string \<times> json) list \<Rightarrow> 's \<Rightarrow> (bool, 's) result" where
  "emit sx Null s = JsonSax.null sx s"
| "emit sx (Boolean b) s = boolean sx b s"
| "emit sx (Number_integer i) s = number_integer sx i s"
| "emit sx (Number_unsigned u) s = number_unsigned sx u s"
| "emit sx (Number_float x) s = number_float sx x '''' s"
| "emit sx (String d) s = string_value sx d s"
| "emit sx (Array vs) s = andthen (start_array sx s) (\<lambda>s. andthen (emit_elements sx vs s) (end_array sx))"
| "emit sx (Object ms) s = andthen (start_object sx s) (\<lambda>s. andthen (emit_members sx ms s) (end_object sx))"
| "emit sx Discarded s = returns False s"
| "emit_elements sx [] s = returns True s"
| "emit_elements sx (v # vs) s = andthen (emit sx v s) (emit_elements sx vs)"
| "emit_members sx [] s = returns True s"
| "emit_members sx ((k, v) # ms) s = andthen (key sx k s) (\<lambda>s. andthen (emit sx v s) (emit_members sx ms))"
  by pat_completeness auto
termination
  by (relation "measure (\<lambda>x. case x of Inl (sx, v, s) \<Rightarrow> size v
     | Inr (Inl (sx, vs, s)) \<Rightarrow> size_list size vs
     | Inr (Inr (sx, ms, s)) \<Rightarrow> size_list (size_prod (\<lambda>k. 0) size) ms)") auto

text \<open>
  A floating point number comes with its text, which neither handler of the library looks at.
\<close>

definition ignores_number_text :: "'s sax \<Rightarrow> bool" where
  "ignores_number_text sx \<longleftrightarrow> (\<forall>x t t'. number_float sx x t = number_float sx x t')"

section \<open>Passes of the loop\<close>

lemma loop_value:
  "parse_value fl sx states p s = (Evaluate, states', p', s') \<Longrightarrow>
     sax_parse_loop fl sx False states p s = sax_parse_loop fl sx True states' p' s'"
  by (simp add: sax_parse_loop.simps [of fl sx False states p s]
      sax_parse_loop.simps [of fl sx True states' p' s'] value_part_def)

lemma loop_continue:
  "parse_value fl sx states p s = (Continue, states', p', s') \<Longrightarrow>
     sax_parse_loop fl sx False states p s = sax_parse_loop fl sx False states' p' s'"
  by (simp add: sax_parse_loop.simps [of fl sx False states p s] value_part_def)

lemma loop_state:
  "evaluate_state fl sx states p s = (Continue, states', p', s') \<Longrightarrow>
     sax_parse_loop fl sx True states p s = sax_parse_loop fl sx False states' p' s'"
  "evaluate_state fl sx states p s = (Evaluate, states', p', s') \<Longrightarrow>
     sax_parse_loop fl sx True states p s = sax_parse_loop fl sx True states' p' s'"
  by (simp_all add: sax_parse_loop.simps [of fl sx True states p s] value_part_def)

lemma unless_refused_True [simp]: "unless_refused (returns True s) states p k = k s"
  by (simp add: unless_refused_def)

text \<open>The next token of a parser whose scanner is between two tokens.\<close>

lemma get_token_eq:
  "scan fl (m_lexer p) = (t, l) \<Longrightarrow> last_token (get_token fl p) = t \<and> m_lexer (get_token fl p) = l"
  by (simp add: get_token_def)

lemma next_structural:
  assumes "at_input (m_lexer p) (w @ c # s)" "whitespace w" "structural c = Some t"
  shows "last_token (get_token fl p) = t \<and> at_input (m_lexer (get_token fl p)) s"
  using scan_structural [OF assms(3,1,2), of fl] get_token_eq [of fl p] by auto

lemma structural_chars [simp]:
  "structural (CHR ''['') = Some Begin_array" "structural (CHR '']'') = Some End_array"
  "structural (CHR ''{'') = Some Begin_object" "structural (CHR ''}'') = Some End_object"
  "structural (CHR '':'') = Some Name_separator" "structural (CHR '','') = Some Value_separator"
  by (simp_all add: structural_def)

lemma next_string:
  assumes "at_input (m_lexer p) (w @ CHR 0x22 # e @ CHR 0x22 # s)" "whitespace w" "json_chars e d"
  shows "last_token (get_token fl p) = Value_string \<and> at_input (m_lexer (get_token fl p)) s \<and>
    token_buffer (m_lexer (get_token fl p)) = d"
  using scan_string_text [OF assms(3,1,2), of fl] get_token_eq [of fl p] by auto

lemma next_literal:
  assumes "at_input (m_lexer p) (w @ e @ s)" "whitespace w" "literal e = Some t"
  shows "last_token (get_token fl p) = t \<and> at_input (m_lexer (get_token fl p)) s"
  using scan_literal_text [OF assms(3,1,2), of fl] get_token_eq [of fl p] by auto

lemma next_number:
  assumes "at_input (m_lexer p) (w @ e @ s)" "whitespace w" "json_number fl e v" "boundary s"
  shows "last_token (get_token fl p) \<in> {Value_unsigned, Value_integer, Value_float} \<and>
    at_input (m_lexer (get_token fl p)) s \<and>
    token_value (last_token (get_token fl p)) (m_lexer (get_token fl p)) = Some v"
  using assms(3)
proof cases
  case (number i f x neg)
  with scan_number_text [of "m_lexer p" w neg i f x s fl] assms get_token_eq [of fl p] show ?thesis
    by (cases "scan fl (m_lexer p)") (simp add: scanned_def)
qed

lemma boundary_simps [simp]:
  "boundary []" "boundary (CHR '','' # s)" "boundary (CHR '']'' # s)" "boundary (CHR ''}'' # s)"
  by (simp_all add: boundary_def is_digit_def)

lemma boundary_whitespace: "whitespace w \<Longrightarrow> boundary s \<Longrightarrow> boundary (w @ s)"
  by (cases w) (auto simp: boundary_def is_whitespace_def is_digit_def)

section \<open>The parser reads the texts of the grammar\<close>

text \<open>
  What reading a value, the elements of an array and the members of an object does. The state
  afterwards is the one in which the parser looks at the structure around the value.
\<close>

definition reads_value :: "(rat \<Rightarrow> rat) \<Rightarrow> 's sax \<Rightarrow> string \<Rightarrow> json \<Rightarrow> bool" where
  "reads_value fl sx e v \<longleftrightarrow> (\<forall>p w rest states s s'. at_input (m_lexer p) (w @ e @ rest) \<longrightarrow>
     whitespace w \<longrightarrow> boundary rest \<longrightarrow> emit sx v s = returns True s' \<longrightarrow>
     last_token (get_token fl p) \<noteq> End_array \<and>
     (\<exists>p'. at_input (m_lexer p') rest \<and> sax_parse_loop fl sx False states (get_token fl p) s =
        sax_parse_loop fl sx True states p' s'))"

definition reads_elements :: "(rat \<Rightarrow> rat) \<Rightarrow> 's sax \<Rightarrow> string \<Rightarrow> json list \<Rightarrow> bool" where
  "reads_elements fl sx e vs \<longleftrightarrow> (\<forall>p rest states s s1 s'.
     at_input (m_lexer p) (e @ CHR '']'' # rest) \<longrightarrow> emit_elements sx vs s = returns True s1 \<longrightarrow>
     end_array sx s1 = returns True s' \<longrightarrow> last_token (get_token fl p) \<noteq> End_array \<and>
     (\<exists>p'. at_input (m_lexer p') rest \<and> sax_parse_loop fl sx False (True # states) (get_token fl p) s =
        sax_parse_loop fl sx True states p' s'))"

definition reads_members :: "(rat \<Rightarrow> rat) \<Rightarrow> 's sax \<Rightarrow> string \<Rightarrow> (string \<times> json) list \<Rightarrow> bool" where
  "reads_members fl sx e ms \<longleftrightarrow> (\<forall>p rest states states0 s s1 s'.
     at_input (m_lexer p) (e @ CHR ''}'' # rest) \<longrightarrow> emit_members sx ms s = returns True s1 \<longrightarrow>
     end_object sx s1 = returns True s' \<longrightarrow> last_token (get_token fl p) \<noteq> End_object \<and>
     (\<exists>p' p2 s2. at_input (m_lexer p') rest \<and>
        parse_key fl sx (False # states) states0 (get_token fl p) s = (Continue, False # states, p2, s2) \<and>
        sax_parse_loop fl sx False (False # states) p2 s2 = sax_parse_loop fl sx True states p' s'))"

lemmas reads_defs = reads_value_def reads_elements_def reads_members_def

lemma reads_scalar:
  assumes "\<And>p w rest. at_input (m_lexer p) (w @ e @ rest) \<Longrightarrow> whitespace w \<Longrightarrow> boundary rest \<Longrightarrow>
      at_input (m_lexer (get_token fl p)) rest \<and> last_token (get_token fl p) \<noteq> End_array \<and>
      (\<forall>states s. parse_value fl sx states (get_token fl p) s =
         parse_scalar (emit sx v s) states (get_token fl p))"
  shows "reads_value fl sx e v"
  unfolding reads_value_def
proof (intro allI impI)
  fix p :: parser and w rest states s s'
  assume a: "at_input (m_lexer p) (w @ e @ rest)" "whitespace w" "boundary rest"
    "emit sx v s = returns True s'"
  note r = assms [OF a(1-3)]
  with a(4) have "parse_value fl sx states (get_token fl p) s = (Evaluate, states, get_token fl p, s')"
    by (simp add: parse_scalar_def)
  from loop_value [OF this] r show "last_token (get_token fl p) \<noteq> End_array \<and>
     (\<exists>p'. at_input (m_lexer p') rest \<and> sax_parse_loop fl sx False states (get_token fl p) s =
        sax_parse_loop fl sx True states p' s')" by blast
qed

lemma reads_null: "reads_value fl sx ''null'' Null"
proof (rule reads_scalar)
  fix p :: parser and w rest assume "at_input (m_lexer p) (w @ ''null'' @ rest)" "whitespace w"
  from next_literal [OF this, of Literal_null fl]
  show "at_input (m_lexer (get_token fl p)) rest \<and> last_token (get_token fl p) \<noteq> End_array \<and>
      (\<forall>states s. parse_value fl sx states (get_token fl p) s =
         parse_scalar (emit sx Null s) states (get_token fl p))"
    by (simp add: literal_def parse_value_def)
qed

lemma reads_boolean: "reads_value fl sx (if b then ''true'' else ''false'') (Boolean b)"
proof (rule reads_scalar)
  fix p :: parser and w rest assume "at_input (m_lexer p) (w @ (if b then ''true'' else ''false'') @ rest)" "whitespace w"
  from next_literal [OF this, of "if b then Literal_true else Literal_false" fl]
  show "at_input (m_lexer (get_token fl p)) rest \<and> last_token (get_token fl p) \<noteq> End_array \<and>
      (\<forall>states s. parse_value fl sx states (get_token fl p) s =
         parse_scalar (emit sx (Boolean b) s) states (get_token fl p))"
    by (cases b) (simp_all add: literal_def parse_value_def)
qed

lemma reads_string:
  assumes "json_chars e d"
  shows "reads_value fl sx (CHR 0x22 # e @ [CHR 0x22]) (String d)"
proof (rule reads_scalar)
  fix p :: parser and w rest assume "at_input (m_lexer p) (w @ (CHR 0x22 # e @ [CHR 0x22]) @ rest)" "whitespace w"
  with next_string [of p w e rest d fl] assms
  show "at_input (m_lexer (get_token fl p)) rest \<and> last_token (get_token fl p) \<noteq> End_array \<and>
      (\<forall>states s. parse_value fl sx states (get_token fl p) s =
         parse_scalar (emit sx (String d) s) states (get_token fl p))"
    by (simp add: parse_value_def)
qed

lemma reads_number:
  assumes "json_number fl e v" "ignores_number_text sx"
  shows "reads_value fl sx e v"
proof (rule reads_scalar)
  fix p :: parser and w rest
  assume a: "at_input (m_lexer p) (w @ e @ rest)" "whitespace w" "boundary rest"
  let ?p = "get_token fl p"
  from next_number [OF a(1,2) assms(1) a(3)] have
    t: "last_token ?p \<in> {Value_unsigned, Value_integer, Value_float}" and r: "at_input (m_lexer ?p) rest"
    and v: "token_value (last_token ?p) (m_lexer ?p) = Some v" by auto
  have "number_float sx x (token_buffer (m_lexer ?p)) = number_float sx x ''''" for x
    using assms(2) unfolding ignores_number_text_def by blast
  with t v have "parse_value fl sx states ?p s = parse_scalar (emit sx v s) states ?p" for states s
    by (auto simp: parse_value_def token_value_def parse_float_def parse_scalar_def)
  with t r show "at_input (m_lexer ?p) rest \<and> last_token ?p \<noteq> End_array \<and>
      (\<forall>states s. parse_value fl sx states ?p s = parse_scalar (emit sx v s) states ?p)" by auto
qed

lemma array_end:
  assumes "at_input (m_lexer p) (w @ CHR '']'' # rest)" "whitespace w" "end_array sx s = returns True s'"
  shows "\<exists>p'. at_input (m_lexer p') rest \<and>
    sax_parse_loop fl sx True (True # states) p s = sax_parse_loop fl sx True states p' s'"
proof -
  note t = next_structural [OF assms(1,2) structural_chars(2), of fl]
  with assms(3) have "evaluate_state fl sx (True # states) p s = (Evaluate, states, get_token fl p, s')"
    by (simp add: evaluate_state_def array_state_def)
  from loop_state(2) [OF this] t show ?thesis by blast
qed

lemma array_comma:
  assumes "at_input (m_lexer p) (w @ CHR '','' # rest)" "whitespace w"
  shows "\<exists>p'. at_input (m_lexer p') rest \<and>
    sax_parse_loop fl sx True (True # states) p s = sax_parse_loop fl sx False (True # states) (get_token fl p') s"
proof -
  note t = next_structural [OF assms structural_chars(6), of fl]
  then have "evaluate_state fl sx (True # states) p s =
      (Continue, True # states, get_token fl (get_token fl p), s)"
    by (simp add: evaluate_state_def array_state_def)
  from loop_state(1) [OF this] t show ?thesis by blast
qed

lemma object_end:
  assumes "at_input (m_lexer p) (w @ CHR ''}'' # rest)" "whitespace w" "end_object sx s = returns True s'"
  shows "\<exists>p'. at_input (m_lexer p') rest \<and>
    sax_parse_loop fl sx True (False # states) p s = sax_parse_loop fl sx True states p' s'"
proof -
  note t = next_structural [OF assms(1,2) structural_chars(4), of fl]
  with assms(3) have "evaluate_state fl sx (False # states) p s = (Evaluate, states, get_token fl p, s')"
    by (simp add: evaluate_state_def object_state_def)
  from loop_state(2) [OF this] t show ?thesis by blast
qed

lemma object_comma:
  assumes "at_input (m_lexer p) (w @ CHR '','' # rest)" "whitespace w"
  shows "\<exists>p'. at_input (m_lexer p') rest \<and>
    (\<forall>p2 s2. parse_key fl sx (False # states) (False # states) (get_token fl p') s =
        (Continue, False # states, p2, s2) \<longrightarrow>
      sax_parse_loop fl sx True (False # states) p s = sax_parse_loop fl sx False (False # states) p2 s2)"
proof -
  note t = next_structural [OF assms structural_chars(6), of fl]
  then have "evaluate_state fl sx (False # states) p s =
      parse_key fl sx (False # states) (False # states) (get_token fl (get_token fl p)) s"
    by (simp add: evaluate_state_def object_state_def)
  with t loop_state(1) show ?thesis by metis
qed

lemma reads_empty_array:
  assumes "whitespace w"
  shows "reads_value fl sx (CHR ''['' # w @ '']'') (Array [])"
  unfolding reads_value_def
proof (intro allI impI)
  fix p :: parser and w1 rest states s s'
  assume a: "at_input (m_lexer p) (w1 @ (CHR ''['' # w @ '']'') @ rest)" "whitespace w1"
    "emit sx (Array []) s = returns True s'"
  let ?p = "get_token fl p"
  from a(1,2) next_structural [of p w1 "CHR ''[''" "w @ CHR '']'' # rest" _ fl] have
    t: "last_token ?p = Begin_array" "at_input (m_lexer ?p) (w @ CHR '']'' # rest)" by simp_all
  note t2 = next_structural [OF t(2) assms structural_chars(2), of fl]
  from a(3) obtain s1 where "start_array sx s = returns True s1" "end_array sx s1 = returns True s'"
    by (auto simp: andthen_True)
  with t(1) t2 have "parse_value fl sx states ?p s = (Evaluate, states, get_token fl ?p, s')"
    by (simp add: parse_value_def parse_begin_array_def)
  from loop_value [OF this] t t2 show "last_token ?p \<noteq> End_array \<and>
     (\<exists>p'. at_input (m_lexer p') rest \<and> sax_parse_loop fl sx False states ?p s =
        sax_parse_loop fl sx True states p' s')" by auto
qed

lemma reads_array:
  assumes "reads_elements fl sx e vs"
  shows "reads_value fl sx (CHR ''['' # e @ '']'') (Array vs)"
  unfolding reads_value_def
proof (intro allI impI)
  fix p :: parser and w1 rest states s s'
  assume a: "at_input (m_lexer p) (w1 @ (CHR ''['' # e @ '']'') @ rest)" "whitespace w1"
    "emit sx (Array vs) s = returns True s'"
  let ?p = "get_token fl p"
  from a(1,2) next_structural [of p w1 "CHR ''[''" "e @ CHR '']'' # rest" _ fl] have
    t: "last_token ?p = Begin_array" "at_input (m_lexer ?p) (e @ CHR '']'' # rest)" by simp_all
  from a(3) obtain s1 s2 where ev: "start_array sx s = returns True s1"
    "emit_elements sx vs s1 = returns True s2" "end_array sx s2 = returns True s'"
    by (auto simp: andthen_True)
  from assms t(2) ev(2,3) obtain p' where n: "last_token (get_token fl ?p) \<noteq> End_array"
    "at_input (m_lexer p') rest" "sax_parse_loop fl sx False (True # states) (get_token fl ?p) s1 =
      sax_parse_loop fl sx True states p' s'" unfolding reads_elements_def by metis
  have "parse_value fl sx states ?p s = (Continue, True # states, get_token fl ?p, s1)"
    using t(1) n(1) ev(1) by (simp add: parse_value_def parse_begin_array_def)
  from loop_continue [OF this] t n show "last_token ?p \<noteq> End_array \<and>
     (\<exists>p'. at_input (m_lexer p') rest \<and> sax_parse_loop fl sx False states ?p s =
        sax_parse_loop fl sx True states p' s')" by auto
qed

lemma reads_empty_object:
  assumes "whitespace w"
  shows "reads_value fl sx (CHR ''{'' # w @ ''}'') (Object [])"
  unfolding reads_value_def
proof (intro allI impI)
  fix p :: parser and w1 rest states s s'
  assume a: "at_input (m_lexer p) (w1 @ (CHR ''{'' # w @ ''}'') @ rest)" "whitespace w1"
    "emit sx (Object []) s = returns True s'"
  let ?p = "get_token fl p"
  from a(1,2) next_structural [of p w1 "CHR ''{''" "w @ CHR ''}'' # rest" _ fl] have
    t: "last_token ?p = Begin_object" "at_input (m_lexer ?p) (w @ CHR ''}'' # rest)" by simp_all
  note t2 = next_structural [OF t(2) assms structural_chars(4), of fl]
  from a(3) obtain s1 where "start_object sx s = returns True s1" "end_object sx s1 = returns True s'"
    by (auto simp: andthen_True)
  with t(1) t2 have "parse_value fl sx states ?p s = (Evaluate, states, get_token fl ?p, s')"
    by (simp add: parse_value_def parse_begin_object_def)
  from loop_value [OF this] t t2 show "last_token ?p \<noteq> End_array \<and>
     (\<exists>p'. at_input (m_lexer p') rest \<and> sax_parse_loop fl sx False states ?p s =
        sax_parse_loop fl sx True states p' s')" by auto
qed

lemma reads_object:
  assumes "reads_members fl sx e ms"
  shows "reads_value fl sx (CHR ''{'' # e @ ''}'') (Object ms)"
  unfolding reads_value_def
proof (intro allI impI)
  fix p :: parser and w1 rest states s s'
  assume a: "at_input (m_lexer p) (w1 @ (CHR ''{'' # e @ ''}'') @ rest)" "whitespace w1"
    "emit sx (Object ms) s = returns True s'"
  let ?p = "get_token fl p"
  from a(1,2) next_structural [of p w1 "CHR ''{''" "e @ CHR ''}'' # rest" _ fl] have
    t: "last_token ?p = Begin_object" "at_input (m_lexer ?p) (e @ CHR ''}'' # rest)" by simp_all
  from a(3) obtain s1 s2 where ev: "start_object sx s = returns True s1"
    "emit_members sx ms s1 = returns True s2" "end_object sx s2 = returns True s'"
    by (auto simp: andthen_True)
  from assms t(2) ev(2,3) obtain p' p2 s3 where n: "last_token (get_token fl ?p) \<noteq> End_object"
    "at_input (m_lexer p') rest"
    "parse_key fl sx (False # states) states (get_token fl ?p) s1 = (Continue, False # states, p2, s3)"
    "sax_parse_loop fl sx False (False # states) p2 s3 = sax_parse_loop fl sx True states p' s'"
    unfolding reads_members_def by metis
  have "parse_value fl sx states ?p s = (Continue, False # states, p2, s3)"
    using t(1) n(1,3) ev(1) by (simp add: parse_value_def parse_begin_object_def)
  from loop_continue [OF this] t n show "last_token ?p \<noteq> End_array \<and>
     (\<exists>p'. at_input (m_lexer p') rest \<and> sax_parse_loop fl sx False states ?p s =
        sax_parse_loop fl sx True states p' s')" by auto
qed

lemma reads_element:
  assumes "whitespace w" "reads_value fl sx e v" "whitespace w'"
  shows "reads_elements fl sx (w @ e @ w') [v]"
  unfolding reads_elements_def
proof (intro allI impI)
  fix p :: parser and rest states s s1 s'
  assume a: "at_input (m_lexer p) ((w @ e @ w') @ CHR '']'' # rest)"
    "emit_elements sx [v] s = returns True s1" "end_array sx s1 = returns True s'"
  have "at_input (m_lexer p) (w @ e @ w' @ CHR '']'' # rest)" "boundary (w' @ CHR '']'' # rest)"
    "emit sx v s = returns True s1"
    using a(1,2) boundary_whitespace [OF assms(3)] by (auto simp: andthen_True)
  with assms(1,2) obtain p1 where p1: "last_token (get_token fl p) \<noteq> End_array"
    "at_input (m_lexer p1) (w' @ CHR '']'' # rest)"
    "sax_parse_loop fl sx False (True # states) (get_token fl p) s = sax_parse_loop fl sx True (True # states) p1 s1"
    unfolding reads_value_def by metis
  with array_end [OF p1(2) assms(3) a(3), of fl states]
  show "last_token (get_token fl p) \<noteq> End_array \<and>
     (\<exists>p'. at_input (m_lexer p') rest \<and> sax_parse_loop fl sx False (True # states) (get_token fl p) s =
        sax_parse_loop fl sx True states p' s')" by auto
qed

lemma reads_more_elements:
  assumes "whitespace w" "reads_value fl sx e v" "whitespace w'" "reads_elements fl sx es vs"
  shows "reads_elements fl sx (w @ e @ w' @ CHR '','' # es) (v # vs)"
  unfolding reads_elements_def
proof (intro allI impI)
  fix p :: parser and rest states s s1 s'
  assume a: "at_input (m_lexer p) ((w @ e @ w' @ CHR '','' # es) @ CHR '']'' # rest)"
    "emit_elements sx (v # vs) s = returns True s1" "end_array sx s1 = returns True s'"
  from a(2) obtain s2 where ev: "emit sx v s = returns True s2" "emit_elements sx vs s2 = returns True s1"
    by (auto simp: andthen_True)
  have "at_input (m_lexer p) (w @ e @ w' @ CHR '','' # es @ CHR '']'' # rest)"
    "boundary (w' @ CHR '','' # es @ CHR '']'' # rest)"
    using a(1) boundary_whitespace [OF assms(3)] by auto
  with assms(1,2) ev(1) obtain p1 where p1: "last_token (get_token fl p) \<noteq> End_array"
    "at_input (m_lexer p1) (w' @ CHR '','' # es @ CHR '']'' # rest)"
    "sax_parse_loop fl sx False (True # states) (get_token fl p) s = sax_parse_loop fl sx True (True # states) p1 s2"
    unfolding reads_value_def by metis
  from array_comma [OF p1(2) assms(3), of fl sx states s2] obtain p2 where
    p2: "at_input (m_lexer p2) (es @ CHR '']'' # rest)" "sax_parse_loop fl sx True (True # states) p1 s2 =
      sax_parse_loop fl sx False (True # states) (get_token fl p2) s2" by blast
  from assms(4) p2(1) ev(2) a(3) obtain p3 where "at_input (m_lexer p3) rest"
    "sax_parse_loop fl sx False (True # states) (get_token fl p2) s2 = sax_parse_loop fl sx True states p3 s'"
    unfolding reads_elements_def by metis
  with p1 p2 show "last_token (get_token fl p) \<noteq> End_array \<and>
     (\<exists>p'. at_input (m_lexer p') rest \<and> sax_parse_loop fl sx False (True # states) (get_token fl p) s =
        sax_parse_loop fl sx True states p' s')" by auto
qed

text \<open>A member up to the end of its value.\<close>

lemma reads_one_member:
  assumes "whitespace w" "json_chars k n" "whitespace w'" "whitespace w''" "reads_value fl sx e v"
    "boundary rest" "at_input (m_lexer p) (w @ CHR 0x22 # k @ CHR 0x22 # w' @ CHR '':'' # w'' @ e @ rest)"
    "key sx n s = returns True s1" "emit sx v s1 = returns True s2"
  shows "last_token (get_token fl p) \<noteq> End_object \<and> (\<exists>p2 p3. at_input (m_lexer p3) rest \<and>
    parse_key fl sx (False # states) states0 (get_token fl p) s = (Continue, False # states, p2, s1) \<and>
    sax_parse_loop fl sx False (False # states) p2 s1 = sax_parse_loop fl sx True (False # states) p3 s2)"
proof -
  let ?p1 = "get_token fl p"
  have k: "last_token ?p1 = Value_string" "token_buffer (m_lexer ?p1) = n"
    "at_input (m_lexer ?p1) (w' @ CHR '':'' # w'' @ e @ rest)"
    using next_string [OF assms(7,1,2), of fl] by auto
  note c = next_structural [OF k(3) assms(3) structural_chars(5), of fl]
  from assms(5) c assms(4,6,9) obtain p3 where p3: "at_input (m_lexer p3) rest"
    "sax_parse_loop fl sx False (False # states) (get_token fl (get_token fl ?p1)) s1 =
      sax_parse_loop fl sx True (False # states) p3 s2" unfolding reads_value_def by metis
  have "parse_key fl sx (False # states) states0 ?p1 s =
      (Continue, False # states, get_token fl (get_token fl ?p1), s1)"
    using k c assms(8) by (simp add: parse_key_def)
  with p3 k show ?thesis by auto
qed

lemma reads_member:
  assumes "whitespace w" "json_chars k n" "whitespace w'" "whitespace w''" "reads_value fl sx e v"
    "whitespace w'''"
  shows "reads_members fl sx (w @ CHR 0x22 # k @ CHR 0x22 # w' @ CHR '':'' # w'' @ e @ w''') [(n, v)]"
  unfolding reads_members_def
proof (intro allI impI)
  fix p :: parser and rest states states0 s s1 s'
  assume a: "at_input (m_lexer p) ((w @ CHR 0x22 # k @ CHR 0x22 # w' @ CHR '':'' # w'' @ e @ w''') @ CHR ''}'' # rest)"
    "emit_members sx [(n, v)] s = returns True s1" "end_object sx s1 = returns True s'"
  from a(2) obtain s2 where ev: "key sx n s = returns True s2" "emit sx v s2 = returns True s1"
    by (auto simp: andthen_True)
  have "at_input (m_lexer p) (w @ CHR 0x22 # k @ CHR 0x22 # w' @ CHR '':'' # w'' @ e @ w''' @ CHR ''}'' # rest)"
    "boundary (w''' @ CHR ''}'' # rest)"
    using a(1) boundary_whitespace [OF assms(6)] by auto
  from reads_one_member [OF assms(1-5) this(2,1) ev, of states states0] obtain p2 p3 where
    p: "last_token (get_token fl p) \<noteq> End_object" "at_input (m_lexer p3) (w''' @ CHR ''}'' # rest)"
    "parse_key fl sx (False # states) states0 (get_token fl p) s = (Continue, False # states, p2, s2)"
    "sax_parse_loop fl sx False (False # states) p2 s2 = sax_parse_loop fl sx True (False # states) p3 s1"
    by blast
  from object_end [OF p(2) assms(6) a(3), of fl states] p show
    "last_token (get_token fl p) \<noteq> End_object \<and> (\<exists>p' p2 s2. at_input (m_lexer p') rest \<and>
        parse_key fl sx (False # states) states0 (get_token fl p) s = (Continue, False # states, p2, s2) \<and>
        sax_parse_loop fl sx False (False # states) p2 s2 = sax_parse_loop fl sx True states p' s')"
    by metis
qed

lemma reads_more_members:
  assumes "whitespace w" "json_chars k n" "whitespace w'" "whitespace w''" "reads_value fl sx e v"
    "whitespace w'''" "reads_members fl sx es ms"
  shows "reads_members fl sx
    (w @ CHR 0x22 # k @ CHR 0x22 # w' @ CHR '':'' # w'' @ e @ w''' @ CHR '','' # es) ((n, v) # ms)"
  unfolding reads_members_def
proof (intro allI impI)
  fix p :: parser and rest states states0 s s1 s'
  assume a: "at_input (m_lexer p)
      ((w @ CHR 0x22 # k @ CHR 0x22 # w' @ CHR '':'' # w'' @ e @ w''' @ CHR '','' # es) @ CHR ''}'' # rest)"
    "emit_members sx ((n, v) # ms) s = returns True s1" "end_object sx s1 = returns True s'"
  from a(2) obtain s2 s3 where ev: "key sx n s = returns True s2" "emit sx v s2 = returns True s3"
    "emit_members sx ms s3 = returns True s1" by (auto simp: andthen_True)
  have "at_input (m_lexer p) (w @ CHR 0x22 # k @ CHR 0x22 # w' @ CHR '':'' # w'' @ e @
      w''' @ CHR '','' # es @ CHR ''}'' # rest)"
    "boundary (w''' @ CHR '','' # es @ CHR ''}'' # rest)"
    using a(1) boundary_whitespace [OF assms(6)] by auto
  from reads_one_member [OF assms(1-5) this(2,1) ev(1,2), of states states0] obtain p2 p3 where
    p: "last_token (get_token fl p) \<noteq> End_object" "at_input (m_lexer p3) (w''' @ CHR '','' # es @ CHR ''}'' # rest)"
    "parse_key fl sx (False # states) states0 (get_token fl p) s = (Continue, False # states, p2, s2)"
    "sax_parse_loop fl sx False (False # states) p2 s2 = sax_parse_loop fl sx True (False # states) p3 s3"
    by blast
  from object_comma [OF p(2) assms(6), of fl sx states s3] obtain p4 where
    p4: "at_input (m_lexer p4) (es @ CHR ''}'' # rest)"
    "\<forall>p2 s2. parse_key fl sx (False # states) (False # states) (get_token fl p4) s3 =
        (Continue, False # states, p2, s2) \<longrightarrow>
      sax_parse_loop fl sx True (False # states) p3 s3 = sax_parse_loop fl sx False (False # states) p2 s2"
    by blast
  from assms(7) p4(1) ev(3) a(3) obtain p5 p6 s6 where p5: "at_input (m_lexer p5) rest"
    "parse_key fl sx (False # states) (False # states) (get_token fl p4) s3 = (Continue, False # states, p6, s6)"
    "sax_parse_loop fl sx False (False # states) p6 s6 = sax_parse_loop fl sx True states p5 s'"
    unfolding reads_members_def by metis
  with p p4(2) show "last_token (get_token fl p) \<noteq> End_object \<and>
      (\<exists>p' p2 s2. at_input (m_lexer p') rest \<and>
        parse_key fl sx (False # states) states0 (get_token fl p) s = (Continue, False # states, p2, s2) \<and>
        sax_parse_loop fl sx False (False # states) p2 s2 = sax_parse_loop fl sx True states p' s')"
    by metis
qed

theorem grammar_is_read:
  assumes "ignores_number_text sx"
  shows "json_value fl e v \<Longrightarrow> reads_value fl sx e v"
    "json_elements fl es vs \<Longrightarrow> reads_elements fl sx es vs"
    "json_members fl ms xs \<Longrightarrow> reads_members fl sx ms xs"
proof (induction rule: json_value_json_elements_json_members.inducts)
  case true
  show ?case using reads_boolean [of fl sx True] by simp
next
  case false
  show ?case using reads_boolean [of fl sx False] by simp
qed (blast intro: reads_null reads_number [OF _ assms] reads_string reads_empty_array reads_array
    reads_empty_object reads_object reads_element reads_more_elements reads_member reads_more_members)+

end
