(* ===== verification/JsonBuilder.thy ===== *)
theory JsonBuilder
  imports JsonText
begin

text \<open>
  \<^verbatim>\<open>json_sax_dom_parser\<close> builds the value of the text: writing through its references composes,
  the events of a value put the value at the place the builder is at, and parsing a text of the
  grammar returns its value. The acceptor accepts the text.
\<close>

section \<open>References\<close>

lemma obj_update_twice [simp]: "obj_update k v (obj_update k v' ms) = obj_update k v ms"
  by (induction ms) auto

lemma json_at_append:
  "json_at (r @ q) j = (case json_at r j of None \<Rightarrow> None | Some x \<Rightarrow> json_at q x)"
  by (induction r j rule: json_at.induct) (auto split: option.splits)

lemma json_update_append: "json_update (r @ q) f j = json_update r (json_update q f) j"
  by (induction r "json_update q f" j rule: json_update.induct) auto

lemma json_update_update: "json_update r f (json_update r g j) = json_update r (f \<circ> g) j"
proof (induction r g j rule: json_update.induct)
  case (2 n r g vs)
  then show ?case by (cases "n < length vs") (auto simp: list_update_beyond)
qed auto

lemma json_at_update:
  "json_at r j = Some x \<Longrightarrow> json_at r (json_update r f j) = Some (f x)"
  by (induction r f j rule: json_update.induct)
    (auto simp: JsonValue.member_def split: option.splits if_splits)

lemma json_update_cong:
  "json_at r j = Some x \<Longrightarrow> f x = g x \<Longrightarrow> json_update r f j = json_update r g j"
  by (induction r f j rule: json_update.induct)
    (auto simp: JsonValue.member_def split: option.splits if_splits)

lemma json_update_id: "json_at r j = Some x \<Longrightarrow> json_update r (\<lambda>j. j) j = j"
proof (induction r j rule: json_at.induct)
  case (3 k r ms)
  have "map_of ms k = Some v \<Longrightarrow> obj_update k v ms = ms" for v
    by (induction ms) auto
  with 3 show ?case by (auto simp: JsonValue.member_def split: option.splits)
qed (auto split: if_splits)

section \<open>The place of the next value\<close>

text \<open>
  The reference to the next value, and the root as a function of this value.
\<close>

definition place :: "dom_parser \<Rightarrow> (ref \<times> (json \<Rightarrow> json)) option" where
  "place d = (case ref_stack d of
       [] \<Rightarrow> Some ([], \<lambda>v. v)
     | r # rs \<Rightarrow> (case json_at r (root d) of
          Some (Array vs) \<Rightarrow> Some (r @ [Index (length vs)], \<lambda>v. json_update r (\<lambda>j. Array (vs @ [v])) (root d))
        | Some (Object ms) \<Rightarrow> (case object_element d of
             Some e \<Rightarrow> if json_at e (root d) = None then None else Some (e, \<lambda>v. json_update e (\<lambda>j. v) (root d))
           | None \<Rightarrow> None)
        | _ \<Rightarrow> None))"

lemma handle_value_place:
  "place d = Some (r, f) \<Longrightarrow> handle_value v d = returns r (d\<lparr>root := f v\<rparr>)"
  by (auto simp: place_def handle_value_def split: list.splits option.splits json.splits if_splits)

lemma place_at:
  assumes "place d = Some (r, f)"
  shows "json_at r (f v) = Some v" "json_update r g (f v) = f (g v)"
proof -
  consider "r = []" "f = (\<lambda>v. v)"
    | q vs where "json_at q (root d) = Some (Array vs)" "r = q @ [Index (length vs)]"
        "f = (\<lambda>v. json_update q (\<lambda>j. Array (vs @ [v])) (root d))"
    | x where "json_at r (root d) = Some x" "f = (\<lambda>v. json_update r (\<lambda>j. v) (root d))"
    using assms by (auto simp: place_def split: list.splits option.splits json.splits if_splits)
  then have "json_at r (f v) = Some v \<and> json_update r g (f v) = f (g v)"
  proof cases
    case 2
    then show ?thesis
      by (simp add: json_at_append json_at_update json_update_append json_update_update comp_def)
  next
    case 3
    then show ?thesis by (simp add: json_at_update json_update_update comp_def)
  qed simp
  then show "json_at r (f v) = Some v" "json_update r g (f v) = f (g v)" by auto
qed

section \<open>The events of a value build it\<close>

fun normalize :: "json \<Rightarrow> json" where
  "normalize (Array vs) = Array (map normalize vs)"
| "normalize (Object ms) = Object (fold (\<lambda>(k, v). obj_update k v) (map (\<lambda>(k, v). (k, normalize v)) ms) [])"
| "normalize v = v"

fun proper :: "json \<Rightarrow> bool" where
  "proper (Array vs) \<longleftrightarrow> (\<forall>v \<in> set vs. proper v)"
| "proper (Object ms) \<longleftrightarrow> (\<forall>(k, v) \<in> set ms. proper v)"
| "proper Discarded \<longleftrightarrow> False"
| "proper v \<longleftrightarrow> True"

definition builds :: "json \<Rightarrow> bool" where
  "builds v \<longleftrightarrow> (\<forall>d r f. place d = Some (r, f) \<longrightarrow>
     (\<exists>oe. emit json_sax_dom_parser v d =
        returns True (d\<lparr>root := f (normalize v), object_element := oe\<rparr>)))"

lemma builds_scalar:
  assumes "\<And>d. emit json_sax_dom_parser v d = dom_value v d" "normalize v = v"
  shows "builds v"
  unfolding builds_def
proof (intro allI impI)
  fix d r f assume "place d = Some (r, f)"
  from handle_value_place [OF this, of v] assms show
    "\<exists>oe. emit json_sax_dom_parser v d = returns True (d\<lparr>root := f (normalize v), object_element := oe\<rparr>)"
    by (intro exI [of _ "object_element d"]) (simp add: dom_value_def)
qed

lemma builds_elements:
  assumes "\<And>v. v \<in> set vs \<Longrightarrow> builds v" "ref_stack d = r # rs" "json_at r (root d) = Some (Array us)"
  shows "\<exists>oe. emit_elements json_sax_dom_parser vs d = returns True
    (d\<lparr>root := json_update r (\<lambda>j. Array (us @ map normalize vs)) (root d), object_element := oe\<rparr>)"
  using assms
proof (induction vs arbitrary: d us)
  case Nil
  have "json_update r (\<lambda>j. Array us) (root d) = root d"
    using json_update_cong [OF Nil(3), of "\<lambda>j. Array us" "\<lambda>j. j"] json_update_id [OF Nil(3)] by simp
  then show ?case by (intro exI [of _ "object_element d"]) simp
next
  case (Cons v vs)
  have pl: "place d = Some (r @ [Index (length us)], \<lambda>v. json_update r (\<lambda>j. Array (us @ [v])) (root d))"
    using Cons.prems(2,3) by (simp add: place_def)
  from Cons.prems(1) [of v] pl obtain oe where e: "emit json_sax_dom_parser v d = returns True
      (d\<lparr>root := json_update r (\<lambda>j. Array (us @ [normalize v])) (root d), object_element := oe\<rparr>)"
    (is "_ = returns True ?d")
    unfolding builds_def by fastforce
  have at: "json_at r (root ?d) = Some (Array (us @ [normalize v]))"
    using json_at_update [OF Cons.prems(3)] by simp
  from Cons.IH [of ?d "us @ [normalize v]"] Cons.prems(1,2) at e show ?case
    by (auto simp: json_update_update comp_def)
qed

lemma builds_members:
  assumes "\<And>k v. (k, v) \<in> set ms \<Longrightarrow> builds v" "ref_stack d = r # rs"
    "json_at r (root d) = Some (Object us)"
  shows "\<exists>oe. emit_members json_sax_dom_parser ms d = returns True
    (d\<lparr>root := json_update r (\<lambda>j. Object (fold (\<lambda>(k, v). obj_update k v)
        (map (\<lambda>(k, v). (k, normalize v)) ms) us)) (root d), object_element := oe\<rparr>)"
  using assms
proof (induction ms arbitrary: d us)
  case Nil
  have "json_update r (\<lambda>j. Object us) (root d) = root d"
    using json_update_cong [OF Nil(3), of "\<lambda>j. Object us" "\<lambda>j. j"] json_update_id [OF Nil(3)] by simp
  then show ?case by (intro exI [of _ "object_element d"]) simp
next
  case (Cons m ms)
  obtain k v where m: "m = (k, v)" by (cases m)
  let ?w = "obj_update k (member k us) us"
  let ?root = "json_update r (\<lambda>j. Object ?w) (root d)"
  let ?d = "d\<lparr>object_element := Some (r @ [Key k]), root := ?root\<rparr>"
  have at: "json_at r ?root = Some (Object ?w)"
    using json_at_update [OF Cons.prems(3)] by simp
  have key: "key json_sax_dom_parser k d = returns True ?d"
    using Cons.prems(2,3) by (simp add: json_sax_dom_parser_def dom_key_def)
  have "place ?d = Some (r @ [Key k], \<lambda>v. json_update (r @ [Key k]) (\<lambda>j. v) ?root)"
    using Cons.prems(2) at by (simp add: place_def json_at_append)
  moreover have "json_update (r @ [Key k]) (\<lambda>j. normalize v) ?root =
      json_update r (\<lambda>j. Object (obj_update k (normalize v) us)) (root d)"
    by (simp add: json_update_append json_update_update comp_def)
  ultimately obtain oe where e: "emit json_sax_dom_parser v ?d = returns True
      (d\<lparr>root := json_update r (\<lambda>j. Object (obj_update k (normalize v) us)) (root d), object_element := oe\<rparr>)"
    (is "_ = returns True ?d'")
    using Cons.prems(1) [of k v] unfolding builds_def m by fastforce
  have "json_at r (root ?d') = Some (Object (obj_update k (normalize v) us))"
    using json_at_update [OF Cons.prems(3)] by simp
  from Cons.IH [of ?d' "obj_update k (normalize v) us"] this Cons.prems(1,2) key e show ?case
    by (auto simp: m json_update_update comp_def)
qed

text \<open>A container is started at its place, filled there, and taken from the stack.\<close>

lemma builds_started:
  assumes "place d = Some (r, f)"
  shows "dom_start c d = returns True (d\<lparr>root := f c, ref_stack := r # ref_stack d\<rparr>)"
  using handle_value_place [OF assms] by (simp add: dom_start_def)

lemma builds_array:
  assumes "\<And>v. v \<in> set vs \<Longrightarrow> builds v"
  shows "builds (Array vs)"
  unfolding builds_def
proof (intro allI impI)
  fix d r f assume p: "place d = Some (r, f)"
  let ?d = "d\<lparr>root := f (Array []), ref_stack := r # ref_stack d\<rparr>"
  have s: "start_array json_sax_dom_parser d = returns True ?d"
    using builds_started [OF p] by (simp add: json_sax_dom_parser_def dom_start_array_def)
  from builds_elements [of vs ?d r "ref_stack d" "[]"] assms place_at [OF p] obtain oe where
    e: "emit_elements json_sax_dom_parser vs ?d =
      returns True (?d\<lparr>root := f (Array (map normalize vs)), object_element := oe\<rparr>)" by auto
  have "end_array json_sax_dom_parser (?d\<lparr>root := f (Array (map normalize vs)), object_element := oe\<rparr>) =
      returns True (d\<lparr>root := f (Array (map normalize vs)), object_element := oe\<rparr>)"
    using place_at [OF p] by (simp add: json_sax_dom_parser_def dom_end_array_def)
  with s e show "\<exists>oe. emit json_sax_dom_parser (Array vs) d =
      returns True (d\<lparr>root := f (normalize (Array vs)), object_element := oe\<rparr>)"
    by (intro exI [of _ oe]) simp
qed

lemma builds_object:
  assumes "\<And>k v. (k, v) \<in> set ms \<Longrightarrow> builds v"
  shows "builds (Object ms)"
  unfolding builds_def
proof (intro allI impI)
  fix d r f assume p: "place d = Some (r, f)"
  let ?d = "d\<lparr>root := f (Object []), ref_stack := r # ref_stack d\<rparr>"
  let ?o = "normalize (Object ms)"
  have s: "start_object json_sax_dom_parser d = returns True ?d"
    using builds_started [OF p] by (simp add: json_sax_dom_parser_def dom_start_object_def)
  from builds_members [of ms ?d r "ref_stack d" "[]"] assms place_at [OF p] obtain oe where
    e: "emit_members json_sax_dom_parser ms ?d = returns True (?d\<lparr>root := f ?o, object_element := oe\<rparr>)"
    by auto
  have "end_object json_sax_dom_parser (?d\<lparr>root := f ?o, object_element := oe\<rparr>) =
      returns True (d\<lparr>root := f ?o, object_element := oe\<rparr>)"
    using place_at [OF p] by (simp add: json_sax_dom_parser_def dom_end_object_def)
  with s e show "\<exists>oe. emit json_sax_dom_parser (Object ms) d =
      returns True (d\<lparr>root := f (normalize (Object ms)), object_element := oe\<rparr>)"
    by (intro exI [of _ oe]) simp
qed

lemma proper_builds: "proper v \<Longrightarrow> builds v"
proof (induction v rule: proper.induct)
  case (1 vs)
  then show ?case by (intro builds_array) simp
next
  case (2 ms)
  then show ?case by (intro builds_object) fastforce
qed (simp_all add: builds_scalar json_sax_dom_parser_def)

lemma dom_ignores_number_text: "ignores_number_text json_sax_dom_parser"
  by (simp add: ignores_number_text_def json_sax_dom_parser_def)

lemma acceptor_ignores_number_text: "ignores_number_text json_sax_acceptor"
  by (simp add: ignores_number_text_def json_sax_acceptor_def)

lemma acceptor_emits:
  "proper v \<Longrightarrow> emit json_sax_acceptor v () = returns True ()"
  "\<forall>v \<in> set vs. proper v \<Longrightarrow> emit_elements json_sax_acceptor vs () = returns True ()"
  "\<forall>(k, v) \<in> set ms. proper v \<Longrightarrow> emit_members json_sax_acceptor ms () = returns True ()"
proof (induction json_sax_acceptor v "()" and json_sax_acceptor vs "()" and json_sax_acceptor ms "()"
    rule: emit_emit_elements_emit_members.induct)
qed (simp_all add: json_sax_acceptor_def)


end
