(* ===== verification/JsonCorrect.thy ===== *)
theory JsonCorrect
  imports JsonBuilder
begin

text \<open>
  Whole texts: \<^verbatim>\<open>json::parse\<close> returns the value of every text of the grammar, with or without a
  byte order mark, the acceptor accepts it, and a text without a value is the error 101.
\<close>

section \<open>The values of texts\<close>

lemma json_number_proper: "json_number fl e v \<Longrightarrow> proper v"
  by (erule json_number.cases) (auto simp: converted_def split: option.splits if_splits)

lemma json_value_proper:
  "json_value fl e v \<Longrightarrow> proper v"
  "json_elements fl es vs \<Longrightarrow> \<forall>v \<in> set vs. proper v"
  "json_members fl ms xs \<Longrightarrow> \<forall>(k, v) \<in> set xs. proper v"
  by (induction rule: json_value_json_elements_json_members.inducts)
    (auto simp: json_number_proper)

section \<open>The first token\<close>

definition byte_order_mark :: string where
  "byte_order_mark = [CHR 0xEF, CHR 0xBB, CHR 0xBF]"

lemma at_input_lexer_ctor:
  "(case s of [] \<Rightarrow> True | c # _ \<Rightarrow> c \<noteq> CHR 0xEF) \<Longrightarrow> at_input (lexer_ctor s False) s"
  by (auto simp: at_input_def lexer_ctor_def settled_def past_bom_def pending_input_def)

lemma skip_bom_reading:
  "\<exists>l. skip_bom (lexer_ctor (byte_order_mark @ s) False) = (True, l) \<and> at_input l s \<and>
     0 < chars_read_total (position l)"
  by (auto simp: skip_bom_def byte_order_mark_def lexer_ctor_def get_def get_character_def Let_def
      at_input_def settled_def past_bom_def pending_input_def)

lemma scan_after_bom:
  "\<exists>l. scan fl (lexer_ctor (byte_order_mark @ s) False) = scan fl l \<and> at_input l s"
proof -
  from skip_bom_reading [of s] obtain l where
    l: "skip_bom (lexer_ctor (byte_order_mark @ s) False) = (True, l)" "at_input l s"
      "0 < chars_read_total (position l)" by blast
  moreover have "chars_read_total (position (lexer_ctor (byte_order_mark @ s) False)) = 0"
    by (simp add: lexer_ctor_def)
  ultimately have "scan fl (lexer_ctor (byte_order_mark @ s) False) = scan fl l"
    by (simp add: scan_def)
  with l(2) show ?thesis by blast
qed

definition may_follow_bom :: "string \<Rightarrow> string \<Rightarrow> bool" where
  "may_follow_bom bom s \<longleftrightarrow>
     bom = byte_order_mark \<or> bom = '''' \<and> (case s of [] \<Rightarrow> True | c # _ \<Rightarrow> c \<noteq> CHR 0xEF)"

text \<open>A text of the grammar does not begin with the first byte of a byte order mark.\<close>

lemma value_first_byte:
  assumes "json_value fl e v"
  shows "\<exists>c cs. e = c # cs \<and> c \<noteq> CHR 0xEF"
  using assms
proof cases
  case number
  then show ?thesis
  proof cases
    case (number i f x neg)
    with whole_part_Cons [of i] show ?thesis by (auto simp: number_text_def is_digit_def)
  qed
qed auto

lemma may_follow_value:
  assumes "json_value fl e v" "whitespace w"
  shows "may_follow_bom [] (w @ e @ w')"
  using value_first_byte [OF assms(1)] assms(2)
  by (cases w) (auto simp: may_follow_bom_def is_whitespace_def)

lemma parser_ctor_at:
  assumes "may_follow_bom bom s"
  obtains p where "parser_ctor fl False (bom @ s) = get_token fl p" "at_input (m_lexer p) s"
proof -
  from assms consider "bom = byte_order_mark" | "bom = ''''" "at_input (lexer_ctor s False) s"
    using at_input_lexer_ctor by (auto simp: may_follow_bom_def)
  then show thesis
  proof cases
    case 1
    from scan_after_bom [of fl s] obtain l where
      l: "scan fl (lexer_ctor (byte_order_mark @ s) False) = scan fl l" "at_input l s" by blast
    show thesis
      by (rule that [of "\<lparr>last_token = Uninitialized, m_lexer = l\<rparr>"])
        (use l 1 in \<open>simp_all add: parser_ctor_def get_token_def split: prod.splits\<close>)
  next
    case 2
    show thesis
      by (rule that [of "\<lparr>last_token = Uninitialized, m_lexer = lexer_ctor s False\<rparr>"])
        (use 2 in \<open>simp_all add: parser_ctor_def\<close>)
  qed
qed

section \<open>Whole texts\<close>

text \<open>The loop at the top level reads the value and stops before the white space that follows.\<close>

lemma internal_reads:
  assumes "ignores_number_text sx" "json_value fl e v" "whitespace w" "whitespace w'"
    "at_input (m_lexer p) (w @ e @ w')" "emit sx v s = returns True s'"
  obtains p' where "sax_parse_internal fl sx (get_token fl p) s = (Inr True, p', s')"
    "last_token (get_token fl p') = End_of_input"
proof -
  have b: "boundary w'" using boundary_whitespace [OF assms(4), of "[]"] by simp
  from grammar_is_read(1) [OF assms(1,2)] assms(3,5,6) b obtain p' where
    p': "at_input (m_lexer p') w'" "sax_parse_loop fl sx False [] (get_token fl p) s =
      sax_parse_loop fl sx True [] p' s'" unfolding reads_value_def by metis
  have "sax_parse_loop fl sx True [] p' s' = (Inr True, p', s')"
    by (simp add: sax_parse_loop.simps [of fl sx True] value_part_def evaluate_state_def)
  moreover have "last_token (get_token fl p') = End_of_input"
    using scan_end [OF p'(1) assms(4), of fl] by (cases "scan fl (m_lexer p')") (simp add: get_token_def)
  ultimately show thesis using that p'(2) by (simp add: sax_parse_internal_def)
qed

lemma place_root: "place (dom_parser_ctor r allow) = Some ([], \<lambda>v. v)"
  by (simp add: place_def dom_parser_ctor_def)

lemma parse_reads_value:
  assumes "json_value fl e v" "whitespace w" "whitespace w'" "may_follow_bom bom (w @ e @ w')"
  shows "json_parse fl (bom @ w @ e @ w') = Inr (normalize v)"
proof -
  let ?d = "dom_parser_ctor Null True"
  from parser_ctor_at [OF assms(4)] obtain p where
    p: "parser_ctor fl False (bom @ w @ e @ w') = get_token fl p" "at_input (m_lexer p) (w @ e @ w')"
    by blast
  from proper_builds [OF json_value_proper(1) [OF assms(1)]] place_root [of Null True] obtain oe where
    d: "emit json_sax_dom_parser v ?d = returns True (?d\<lparr>root := normalize v, object_element := oe\<rparr>)"
    unfolding builds_def by blast
  from internal_reads [OF dom_ignores_number_text assms(1-3) p(2) d] obtain p' where
    "sax_parse_internal fl json_sax_dom_parser (get_token fl p) ?d =
       (Inr True, p', ?d\<lparr>root := normalize v, object_element := oe\<rparr>)"
    "last_token (get_token fl p') = End_of_input" by blast
  with p(1) show ?thesis
    by (simp add: json_parse_def parser_parse_def dom_parser_ctor_def)
qed

lemma accept_reads_value:
  assumes "json_value fl e v" "whitespace w" "whitespace w'" "may_follow_bom bom (w @ e @ w')"
  shows "accept fl True (parser_ctor fl False (bom @ w @ e @ w')) = returns True ()"
proof -
  from parser_ctor_at [OF assms(4)] obtain p where
    p: "parser_ctor fl False (bom @ w @ e @ w') = get_token fl p" "at_input (m_lexer p) (w @ e @ w')"
    by blast
  from internal_reads [OF acceptor_ignores_number_text assms(1-3) p(2)
      acceptor_emits(1) [OF json_value_proper(1) [OF assms(1)]]] obtain p' where
    "sax_parse_internal fl json_sax_acceptor (get_token fl p) () = (Inr True, p', ())"
    "last_token (get_token fl p') = End_of_input" by blast
  with p(1) show ?thesis by (simp add: accept_def sax_parse_def)
qed

section \<open>A text without a value\<close>

lemma scan_blank:
  assumes "at_input l w" "whitespace w"
  shows "scan fl l = (End_of_input, skip_whitespace l)"
  using skip_whitespace_end [OF assms(2,1)] scan_settled [of l fl] assms(1)
  by (auto simp: at_input_def scan_token_def between_def)

text \<open>
  The error of the parser at its first token, when this is the end of the input.
\<close>

definition first_error :: "parser \<Rightarrow> error" where
  "first_error p = parse_error_create 101 (position (m_lexer p))
     (if chars_read_total (position (m_lexer p)) = 1
      then ''attempting to parse an empty input; check that your input string or stream contains the expected JSON''
      else exception_message Literal_or_value ''value'' p)"

lemma loop_end_of_input:
  assumes "last_token p = End_of_input" "errored d = False" "allow_exceptions d"
  shows "sax_parse_loop fl json_sax_dom_parser False [] p d =
    (Inl (first_error p), p, d\<lparr>errored := True\<rparr>)"
proof -
  have "parse_error json_sax_dom_parser = dom_parse_error" by (simp add: json_sax_dom_parser_def)
  with assms have "parse_value fl json_sax_dom_parser [] p d =
      (Finished (Inl (first_error p)), [], p, d\<lparr>errored := True\<rparr>)"
    by (simp add: parse_value_def parse_end_of_input_def syntax_error_def finish_def report_def
        dom_parse_error_def first_error_def Let_def)
  then show ?thesis
    by (simp add: sax_parse_loop.simps [of fl json_sax_dom_parser False] value_part_def)
qed

lemma parse_blank:
  assumes "whitespace w" "may_follow_bom bom w"
  shows "json_parse fl (bom @ w) = Inl (first_error (parser_ctor fl False (bom @ w)))"
proof -
  from parser_ctor_at [OF assms(2)] obtain p where
    p: "parser_ctor fl False (bom @ w) = get_token fl p" "at_input (m_lexer p) w" by blast
  have t: "last_token (get_token fl p) = End_of_input"
    using scan_blank [OF p(2) assms(1), of fl] by (simp add: get_token_def)
  have "sax_parse_internal fl json_sax_dom_parser (get_token fl p) (dom_parser_ctor Null True) =
      (Inl (first_error (get_token fl p)), get_token fl p, (dom_parser_ctor Null True)\<lparr>errored := True\<rparr>)"
    unfolding sax_parse_internal_def
    by (rule loop_end_of_input [OF t]) (simp_all add: dom_parser_ctor_def)
  with p(1) show ?thesis by (simp add: json_parse_def parser_parse_def)
qed

text \<open>The position of the error is one past the end of the text.\<close>

lemma skip_whitespace_count:
  assumes "whitespace w" "at_input l w"
  shows "chars_read_total (position (skip_whitespace l)) = chars_read_total (position l) + length w + 1"
  using assms
proof (induction w arbitrary: l)
  case Nil
  with at_input_get_end [of l] show ?case
    by (auto simp: skip_whitespace.simps [of l] Let_def is_whitespace_def)
next
  case (Cons d w)
  with at_input_get [of l d w] reading_at_input show ?case
    by (fastforce simp: skip_whitespace.simps [of l] Let_def)
qed

lemma parser_ctor_blank:
  assumes "whitespace w" "may_follow_bom bom w"
  shows "last_token (parser_ctor fl False (bom @ w)) = End_of_input"
    "chars_read_total (position (m_lexer (parser_ctor fl False (bom @ w)))) = length (bom @ w) + 1"
proof -
  from assms(2) consider "bom = byte_order_mark" | "bom = []" "at_input (lexer_ctor w False) w"
    using at_input_lexer_ctor by (auto simp: may_follow_bom_def)
  then have "\<exists>l. scan fl (lexer_ctor (bom @ w) False) = scan fl l \<and> at_input l w \<and>
      chars_read_total (position l) = length bom"
  proof cases
    case 1
    let ?l = "snd (skip_bom (lexer_ctor (byte_order_mark @ w) False))"
    from skip_bom_reading [of w] have s: "skip_bom (lexer_ctor (byte_order_mark @ w) False) = (True, ?l)"
      "at_input ?l w" "0 < chars_read_total (position ?l)" by auto
    have n: "chars_read_total (position ?l) = 3"
      by (simp add: skip_bom_def byte_order_mark_def lexer_ctor_def get_def get_character_def Let_def)
    have "chars_read_total (position (lexer_ctor (byte_order_mark @ w) False)) = 0"
      by (simp add: lexer_ctor_def)
    with s have "scan fl (lexer_ctor (byte_order_mark @ w) False) = scan fl ?l"
      by (simp add: scan_def)
    with s(2) n 1 show ?thesis by (intro exI [of _ ?l]) (simp add: byte_order_mark_def)
  next
    case 2
    then show ?thesis by (intro exI [of _ "lexer_ctor w False"]) (simp add: lexer_ctor_def)
  qed
  then obtain l where l: "scan fl (lexer_ctor (bom @ w) False) = scan fl l" "at_input l w"
    "chars_read_total (position l) = length bom" by blast
  from l(1,3) scan_blank [OF l(2) assms(1), of fl] skip_whitespace_count [OF assms(1) l(2)]
  show "last_token (parser_ctor fl False (bom @ w)) = End_of_input"
    "chars_read_total (position (m_lexer (parser_ctor fl False (bom @ w)))) = length (bom @ w) + 1"
    by (simp_all add: parser_ctor_def get_token_def)
qed

end
