(* ===== verification/JsonLayout.thy ===== *)
theory JsonLayout
  imports JsonCorrect
begin

text \<open>
  Texts laid out the way the serializer and people write them: members and elements one after the
  other with the same white space, plain strings, and integers. They are texts of the grammar.
\<close>

section \<open>Lists of members and of elements\<close>

fun members_text :: "string \<Rightarrow> string \<Rightarrow> (string \<times> string) list \<Rightarrow> string" where
  "members_text w sp [] = ''''"
| "members_text w sp [(k, e)] = w @ CHR 0x22 # k @ CHR 0x22 # CHR '':'' # sp @ e"
| "members_text w sp ((k, e) # m # ms) =
     w @ CHR 0x22 # k @ CHR 0x22 # CHR '':'' # sp @ e @ CHR '','' # members_text w sp (m # ms)"

fun elements_text :: "string \<Rightarrow> string list \<Rightarrow> string" where
  "elements_text w [] = ''''"
| "elements_text w [e] = w @ e"
| "elements_text w (e # e' # es) = w @ e @ CHR '','' # elements_text w (e' # es)"

definition object_text :: "string \<Rightarrow> string \<Rightarrow> string \<Rightarrow> (string \<times> string) list \<Rightarrow> string" where
  "object_text w sp w' ms = CHR ''{'' # members_text w sp ms @ w' @ ''}''"

definition array_text :: "string \<Rightarrow> string \<Rightarrow> string list \<Rightarrow> string" where
  "array_text w w' es = CHR ''['' # elements_text w es @ w' @ '']''"

lemma members_text_members:
  assumes "list_all2 (\<lambda>(k, e) (n, v). json_chars k n \<and> json_value fl e v) ms xs" "ms \<noteq> []"
    "whitespace w" "whitespace sp" "whitespace w'"
  shows "json_members fl (members_text w sp ms @ w') xs"
  using assms(1,2)
proof (induction rule: list_all2_induct)
  case (Cons m ms x xs)
  obtain k e n v where mx: "m = (k, e)" "x = (n, v)" by (cases m, cases x)
  with Cons.hyps have h: "json_chars k n" "json_value fl e v" by auto
  show ?case
  proof (cases ms)
    case Nil
    with Cons.hyps member [OF assms(3) h(1) _ assms(4) h(2) assms(5), of "[]"] show ?thesis
      by (simp add: mx)
  next
    case (Cons m' ms')
    with Cons.IH members [OF assms(3) h(1) _ assms(4) h(2), of "[]" "[]" "members_text w sp ms @ w'"]
    show ?thesis by (cases m') (simp add: mx)
  qed
qed simp

lemma elements_text_elements:
  assumes "list_all2 (json_value fl) es vs" "es \<noteq> []" "whitespace w" "whitespace w'"
  shows "json_elements fl (elements_text w es @ w') vs"
  using assms(1,2)
proof (induction rule: list_all2_induct)
  case (Cons e es v vs)
  show ?case
  proof (cases es)
    case Nil
    with Cons.hyps element [OF assms(3) Cons.hyps(1) assms(4)] show ?thesis by simp
  next
    case (Cons e' es')
    with Cons.IH elements [OF assms(3) Cons.hyps(1), of "[]" "elements_text w es @ w'"]
    show ?thesis by simp
  qed
qed simp

lemma object_text_value:
  assumes "list_all2 (\<lambda>(k, e) (n, v). json_chars k n \<and> json_value fl e v) ms xs" "ms \<noteq> []"
    "whitespace w" "whitespace sp" "whitespace w'"
  shows "json_value fl (object_text w sp w' ms) (Object xs)"
  using object [OF members_text_members [OF assms]] by (simp add: object_text_def)

lemma array_text_value:
  assumes "list_all2 (json_value fl) es vs" "es \<noteq> []" "whitespace w" "whitespace w'"
  shows "json_value fl (array_text w w' es) (Array vs)"
  using array [OF elements_text_elements [OF assms]] by (simp add: array_text_def)

section \<open>Plain strings and integers\<close>

lemma plain_chars: "\<forall>c \<in> set s. plain c \<Longrightarrow> json_chars s s"
proof (induction s)
  case (Cons c s)
  then show ?case using json_chars.Cons [OF json_char.plain [of c], of s s] by simp
qed (simp add: json_chars.Nil)

lemma plain_string_value:
  "\<forall>c \<in> set s. plain c \<Longrightarrow> json_value fl (CHR 0x22 # s @ [CHR 0x22]) (String s)"
  by (rule string [OF plain_chars])

lemma unsigned_value: "json_value fl (nat_to_string (unat u)) (Number_unsigned u)"
  using json_number.number [OF nat_to_string_whole, of "[]" "[]" fl False "unat u" "Number_unsigned u"]
  by (intro json_value_json_elements_json_members.number)
    (simp add: fraction_part_def exponent_part_def number_token_def number_text_def converted_unsigned)

lemma integer_value:
  assumes "sint i < 0"
  shows "json_value fl (CHR ''-'' # nat_to_string (nat (- sint i))) (Number_integer i)"
  using json_number.number [OF nat_to_string_whole, of "[]" "[]" fl True "nat (- sint i)" "Number_integer i"]
  by (intro json_value_json_elements_json_members.number)
    (simp add: fraction_part_def exponent_part_def number_token_def number_text_def converted_integer [OF assms])

lemma unsigned_values:
  "json_value fl (nat_to_string n) (Number_unsigned (of_nat n))" if "n < 2 ^ 64"
  using unsigned_value [of fl "of_nat n :: 64 word"] that by (simp add: unat_of_nat)

end
