(* ===== verification/Scenario.thy ===== *)
theory Scenario
  imports MainCorrect Shutdown JsonLayout
begin

text \<open>
  A concrete configuration (one operator, a queue for one call) and some runs of it, evaluated in
  the kernel: a call that is served, a call about to be taken, two runs in which a wake-up is lost,
  and a shutdown.
\<close>

section \<open>Surroundings\<close>

definition demo_time :: "int \<Rightarrow> tm" where
  "demo_time t = \<lparr>tm_sec = 0, tm_min = 0, tm_hour = 0, tm_mday = 1, tm_mon = 0, tm_year = 123\<rparr>"

text \<open>A draw of each distribution is its mean.\<close>

definition demo_env :: "nat env" where
  "demo_env = \<lparr>env_fl = (\<lambda>x. x), env_gamma = (\<lambda>d g. (gd_alpha d * gd_beta d, Suc g)),
     env_uniform = (\<lambda>d g. ((ud_a d + ud_b d) / 2, Suc g)),
     env_localtime = demo_time, env_version = ''Beast''\<rparr>"

definition demo_config :: json where
  "demo_config = Object [(''count_operators'', Number_unsigned 1),
     (''incoming_queue_size'', Number_unsigned 1),
     (''rand_call_duration'', Object [(''rand_gen_erl_shape'', Number_unsigned 100),
        (''rand_gen_erl_scale'', Number_unsigned 1)]),
     (''rand_timeout_in_queue'', Object [(''rand_uniform_min'', Number_unsigned 20),
        (''rand_uniform_max'', Number_unsigned 50)]),
     (''log'', Object [(''server_level'', String ''off''), (''operators_level'', String ''off'')])]"

text \<open>The text of the file, printed without white space.\<close>

definition demo_string :: "string \<Rightarrow> string" where
  "demo_string s = CHR 0x22 # s @ [CHR 0x22]"

definition demo_object :: "(string \<times> string) list \<Rightarrow> string" where
  "demo_object ms = object_text '''' '''' '''' ms"

definition demo_text :: string where
  "demo_text = demo_object [(''count_operators'', ''1''), (''incoming_queue_size'', ''1''),
     (''rand_call_duration'', demo_object [(''rand_gen_erl_shape'', ''100''), (''rand_gen_erl_scale'', ''1'')]),
     (''rand_timeout_in_queue'', demo_object [(''rand_uniform_min'', ''20''), (''rand_uniform_max'', ''50'')]),
     (''log'', demo_object [(''server_level'', demo_string ''off''), (''operators_level'', demo_string ''off'')])]"

lemma demo_digits:
  "nat_to_string 1 = ''1''" "nat_to_string 100 = ''100''" "nat_to_string 20 = ''20''"
  "nat_to_string 50 = ''50''"
  by code_simp+

lemma demo_numbers:
  "json_value fl ''1'' (Number_unsigned 1)" "json_value fl ''100'' (Number_unsigned 100)"
  "json_value fl ''20'' (Number_unsigned 20)" "json_value fl ''50'' (Number_unsigned 50)"
  using unsigned_value [of fl 1] unsigned_value [of fl 100] unsigned_value [of fl 20] unsigned_value [of fl 50]
  by (simp_all add: demo_digits demo_digits(1) [unfolded One_nat_def])

lemma demo_string_value: "\<forall>c \<in> set s. plain c \<Longrightarrow> json_value fl (demo_string s) (String s)"
  unfolding demo_string_def by (rule plain_string_value)

lemma demo_object_value:
  "list_all2 (\<lambda>(k, e) (n, v). k = n \<and> (\<forall>c \<in> set k. plain c) \<and> json_value fl e v) ms xs \<Longrightarrow> ms \<noteq> [] \<Longrightarrow>
     json_value fl (demo_object ms) (Object xs)"
  unfolding demo_object_def
  by (rule object_text_value) (auto elim!: list_all2_mono simp: plain_chars)

lemma demo_parse: "json_parse (\<lambda>x. x) demo_text = Inr demo_config"
proof -
  have "json_value (\<lambda>x. x) demo_text demo_config"
    unfolding demo_text_def demo_config_def
    by (intro demo_object_value) (simp_all add: demo_numbers demo_string_value demo_object_value plain_def)
  from parse_reads_value [OF this, of "[]" "[]" "[]"] show ?thesis
    by (simp add: demo_config_def may_follow_bom_def demo_text_def demo_object_def object_text_def)
qed

definition demo_sur :: surroundings where
  "demo_sur = \<lparr>sur_fl = (\<lambda>x. x), sur_file = (\<lambda>n. Some demo_text),
     sur_log_error = None, sur_address = Inr, sur_acceptor = (\<lambda>ep a. None)\<rparr>"

definition demo_argv :: "string list" where
  "demo_argv = [''CallCentre'', ''0.0.0.0'', ''8080'', ''3'']"

section \<open>The state the program starts in\<close>

definition demo_rand :: "nat rand_gen" where
  "demo_rand = \<lparr>gen = 0, erlang_dist = \<lparr>gd_alpha = 100, gd_beta = 1\<rparr>,
     uniform_dist = \<lparr>ud_a = 20, ud_b = 50\<rparr>\<rparr>"

definition demo_world :: world where
  "demo_world = \<lparr>objects = [], next_call_id = 100,
     registry = ['''', ''CDR'', ''SERVER'', ''OPERATORS''],
     cdrLog = \<lparr>logger_name = ''CDR'', logger_level = info, flush_level = info\<rparr>,
     serverLog = \<lparr>logger_name = ''SERVER'', logger_level = off, flush_level = trace\<rparr>,
     operatorsLog = \<lparr>logger_name = ''OPERATORS'', logger_level = off, flush_level = trace\<rparr>,
     cdr_lines = ['' ''], cdr_written = [], console = []\<rparr>"

definition demo_operators :: operators where
  "demo_operators = \<lparr>incoming = \<lparr>incoming_calls = [], next_node = 0, timers = [system_timer_ctor],
       free_timers = [0], map_cg_pn_to_pos = Map.empty, capacity = 1, cv_blocking = 0\<rparr>,
     talks = [system_timer_ctor], free_operators = \<lparr>deqQueue = [0], cvBlocking = 0\<rparr>,
     continue_loop = True\<rparr>"

definition demo_start :: "nat sys" where
  "demo_start = sys_init demo_rand demo_world demo_operators"

lemma demo_stoi: "stoi ''8080'' = Inr 8080" "stoi ''3'' = Inr 3"
  by (simp_all add: stoi_def sign_of_def is_space_def is_digit_def digit_val_def)

lemma demo_read_config:
  "\<exists>c. ReadConfig_ctor (\<lambda>x. x) (Some demo_text) = Inr c \<and>
     settings c = (1, 1, ''off'', ''off'', 20, 50, 100, 1)"
  by (simp add: ReadConfig_ctor_def demo_parse ReadJson_def read_member_def config0_def demo_config_def
      as_object_def member_def get_int_def get_size_def get_string_def get_double_def settings_def)

lemma demo_queue: "queue_ctor 1 = Inr (incoming demo_operators)"
  by (simp add: queue_ctor_def ctor_loop.simps demo_operators_def)

lemma off_level: "\<not> off \<le> info" "\<not> off \<le> debug" "\<not> off \<le> err" "info \<le> (info :: level)"
  by (simp_all add: less_eq_level_def)

lemma demo_main:
  "\<exists>a st. main_program demo_sur demo_argv (rand_gen0 0, world0) =
     returns (Runs \<lparr>machine = demo_start, acceptor = a, io_threads = 2\<rparr>) st"
proof -
  obtain c where c: "ReadConfig_ctor (\<lambda>x. x) (Some demo_text) = Inr c"
    "count_operators c = 1" "incoming_queue_size c = 1" "log_server_level c = ''off''"
    "log_operators_level c = ''off''" "timeout_in_queue_min c = 20" "timeout_in_queue_max c = 50"
    "rand_gen_erl_shape c = 100" "rand_gen_erl_scale c = 1"
    using demo_read_config by (auto simp: settings_def)
  have "level_of_name ''off'' = off" by (simp add: level_of_name_def loggingLevels_def)
  with c show ?thesis
    using demo_queue
    by (simp add: main_program_def demo_argv_def demo_stoi demo_sur_def Start_def Log_Init_def
        Operators_ctor_cases register_logger_def world0_def next_call_id0_def Let_def
        Listener_run_def Listener_ctor_def acceptor_steps_def do_accept_def log_server_def
        log_operators_def should_log_def off_level spawn_result RandGen_Init_def rand_gen0_def
        demo_start_def sys_init_def demo_rand_def demo_world_def demo_operators_def ushort_def)
qed

section \<open>Evaluating runs\<close>

text \<open>The line of a record, kept folded.\<close>

definition line_of :: "(int \<Rightarrow> tm) \<Rightarrow> Call \<Rightarrow> string" where
  "line_of tz c = sum.projr (cdr_line tz c)"

lemma cdr_line_of: "times_ok c \<Longrightarrow> cdr_line tz c = Inr (line_of tz c)"
  using cdr_line_ok [of c tz] by (auto simp: line_of_def)

lemma demo_phone: "isValidPhoneNumber ''/88129885723'' '''' = (True, ''78129885723'')"
  by code_simp

lemma demo_draws: "cast_int 100000 = Inr 100000" "cast_int 35000 = Inr 35000"
  by (simp_all add: cast_int_def trunc_def)

definition demo_request :: "time_point \<Rightarrow> event" where
  "demo_request now = Request (Inr ''127.0.0.1'')
     \<lparr>req_method = Get, target = ''/88129885723'', version = 11\<rparr> now now"

lemmas demo_defs = demo_start_def demo_rand_def demo_world_def demo_operators_def demo_request_def
  demo_env_def system_timer_ctor_def

lemmas demo_steps = sys_init_def operators_step_def Run_step_def ts_wait_def q_wait_def
  ts_empty_def q_empty_def q_block_def ts_block_def request_step_def HandleRequest_def demo_phone
  Call_ctor_def getNextCallId_def getRandErlang_def getRandUniform_def demo_draws make_shared_def
  AddToQueue_def push_def deref_def push_accept_def expires_after_def async_wait_def
  mark_cancelled_def notify_one_def log_operators_def should_log_def off_level AddCall_pop_def
  pop_def AddCall_take_def at_int_def store_def SetOperatorResponseData_def cancel_def
  talk_step_def take_talk_def take_pending_def OnEndCall_def SetCompleteData_def WriteCDR_def
  cdr_line_of times_ok_def ts_push_back_def timer_step_def take_handler_def OnCallReset_def
  main_step_def Stop_flag_def Stop_push_def Stop_awake_def awake_def erase_node_def
  cancelled_at_def Let_def arm_wait_def thread_waits_def after_ms_def wait_expired_def talk_expired_def

section \<open>A call that is served\<close>

definition idle_events :: "event list" where
  "idle_events = replicate 5 (Operators_thread 1)"

definition served_events :: "event list" where
  "served_events = idle_events @ demo_request 2 # replicate 6 (Operators_thread 3) @
     [Talk_handler 0 0 Success 200000000000]"

lemma demo_served:
  "\<exists>s. sys_run demo_env served_events demo_start = Some (returns () s) \<and>
     cdr_written (world s) = [0] \<and> length (objects (world s)) = 1 \<and>
     deqQueue (free_operators (ops s)) = [0] \<and> run_permitted demo_env served_events demo_start"
  by (simp add: served_events_def idle_events_def numeral_eq_Suc demo_defs demo_steps)

text \<open>The conversation has begun and its timer is running.\<close>

definition talking_events :: "event list" where
  "talking_events = idle_events @ demo_request 2 # replicate 6 (Operators_thread 3)"

lemma demo_talking:
  "\<exists>s. sys_run demo_env talking_events demo_start = Some (returns () s) \<and>
     run_permitted demo_env talking_events demo_start \<and> deqQueue (free_operators (ops s)) = [] \<and>
     phase s = Running \<and> length (talks (ops s)) = 1"
  by (simp add: talking_events_def idle_events_def numeral_eq_Suc demo_defs demo_steps)

text \<open>The call waits, and the operators' thread is about to take it.\<close>

definition ready_events :: "event list" where
  "ready_events = idle_events @ demo_request 2 # replicate 4 (Operators_thread 3)"

lemma demo_ready:
  "\<exists>s. sys_run demo_env ready_events demo_start = Some (returns () s) \<and>
     run_permitted demo_env ready_events demo_start \<and> phase s = Running \<and> pc s = In_AddCall \<and>
     incoming_calls (incoming (ops s)) = [(0, Some 0)] \<and> wait_ends s 0 = 35000000002 \<and>
     cg_pn (objects (world s) ! 0) = ''78129885723'' \<and> draws_fit demo_env (rand s)"
  by (simp add: ready_events_def idle_events_def numeral_eq_Suc demo_defs demo_steps draws_fit_def)

section \<open>Wake-ups that are lost, and a shutdown\<close>

text \<open>
  The operators' thread finds the queue empty; before it blocks, a call comes and notifies nobody.
  The thread then sleeps beside a waiting call and a free operator.
\<close>

definition missed_events :: "event list" where
  "missed_events = replicate 4 (Operators_thread 1) @ [demo_request 2, Operators_thread 3]"

lemma demo_missed:
  "\<exists>s. sys_run demo_env missed_events demo_start = Some (returns () s) \<and>
     run_permitted demo_env missed_events demo_start \<and>
     pc s = Wait_calls Asleep \<and> cv_blocking (incoming (ops s)) = 1 \<and> waiting (incoming (ops s)) = [0] \<and>
     deqQueue (free_operators (ops s)) = [0]"
  by (simp add: missed_events_def numeral_eq_Suc demo_defs demo_steps waiting_def strip_def)

text \<open>The same with \<^verbatim>\<open>awake\<close> in place of the call: nobody ends the thread, and \<^verbatim>\<open>join\<close> waits.\<close>

definition deadlock_events :: "event list" where
  "deadlock_events = replicate 4 (Operators_thread 1) @
     [Signal, Main_thread, Main_thread, Main_thread, Operators_thread 2]"

lemma demo_deadlock:
  "\<exists>s. sys_run demo_env deadlock_events demo_start = Some (returns () s) \<and>
     run_permitted demo_env deadlock_events demo_start \<and>
     phase s = Awoken \<and> pc s = Wait_calls Asleep \<and> cv_blocking (incoming (ops s)) = 1"
  by (simp add: deadlock_events_def numeral_eq_Suc demo_defs demo_steps)

text \<open>A shutdown that goes well: the thread is asleep when \<^verbatim>\<open>awake\<close> notifies it.\<close>

definition stop_events :: "event list" where
  "stop_events = idle_events @ [Signal, Main_thread, Main_thread, Main_thread]"

lemma demo_stop:
  "\<exists>s. sys_run demo_env stop_events demo_start = Some (returns () s) \<and>
     run_permitted demo_env stop_events demo_start \<and> phase s = Awoken \<and>
     pc s = Wait_calls Asleep \<and> cv_blocking (incoming (ops s)) = 0"
  by (simp add: stop_events_def idle_events_def numeral_eq_Suc demo_defs demo_steps)

end
