(* ===== verification/QueueProperties.thy ===== *)
theory QueueProperties
  imports Scenario
begin

text \<open>
  The properties of the two queues and of the operators, stated over the functions of the model,
  each with an application at a concrete state.
\<close>

section \<open>Concrete states\<close>

definition demo_call :: "int \<Rightarrow> string \<Rightarrow> Call" where
  "demo_call i x = \<lparr>call_id = word_of_int i, cg_pn = x, status = OK, dt_request = 2,
     dt_completion = 0, operator_id = 0, dt_response = 0, call_duration = 1000,
     expiration_time = 2000\<rparr>"

text \<open>Three calls, the first two from one number.\<close>

definition demo_calls :: world where
  "demo_calls = demo_world\<lparr>objects := [demo_call 100 ''71'', demo_call 101 ''71'', demo_call 102 ''72'']\<rparr>"

definition demo_empty :: queue where
  "demo_empty = incoming demo_operators"

definition demo_full :: queue where
  "demo_full = snd (push demo_calls (Some 0) demo_empty)"

lemma demo_empty_inv: "queue_inv w demo_empty"
  using queue_ctor_ok [of 1 w] demo_queue by (simp add: demo_empty_def)

lemma demo_full_inv: "queue_inv demo_calls demo_full"
  unfolding demo_full_def by (rule push_preserves [OF demo_empty_inv])

lemma demo_deref [simp]:
  "deref demo_calls (Some 0) = Inr (demo_call 100 ''71'')"
  "deref demo_calls (Some 1) = Inr (demo_call 101 ''71'')"
  "deref demo_calls (Some 2) = Inr (demo_call 102 ''72'')"
  "length (objects demo_calls) = 3" "cg_pn (demo_call i x) = x" "expiration_time (demo_call i x) = 2000"
  by (simp_all add: demo_calls_def demo_call_def deref_def)

lemma demo_full_eq: "demo_full = \<lparr>incoming_calls = [(0, Some 0)], next_node = 1,
    timers = [\<lparr>expiry = Some 2000, pending = [((''71'', 0), False)]\<rparr>], free_timers = [],
    map_cg_pn_to_pos = [''71'' \<mapsto> 0], capacity = 1, cv_blocking = 0\<rparr>"
  by (simp add: demo_full_def demo_empty_def demo_operators_def push_def push_accept_def
      system_timer_ctor_def async_wait_def expires_after_def mark_cancelled_def notify_one_def)

lemma demo_world_ok: "world_ok demo_calls"
  by (simp add: world_ok_def demo_calls_def demo_world_def demo_call_def times_ok_def)

section \<open>The queue of incoming calls\<close>

text \<open>The constructor refuses a capacity of zero and one above 100000; otherwise the queue is
  empty, satisfies the invariant, and has the capacity asked for.\<close>

theorem queue_ctor_bounds:
  "(cap = 0 \<or> 100000 < cap \<longrightarrow> queue_ctor cap =
      Inl (Length_error ''cannot create IncomingCallsQueue larger than 100000 size'')) \<and>
   (0 < cap \<and> cap \<le> 100000 \<longrightarrow> (\<exists>q. queue_ctor cap = Inr q \<and> queue_inv w q \<and>
      incoming_calls q = [] \<and> capacity q = cap))"
  using queue_ctor_ok [of cap w] by (auto simp: queue_ctor_def)

theorem queue_ctor_bounds_witness:
  "queue_ctor 0 = Inl (Length_error ''cannot create IncomingCallsQueue larger than 100000 size'') \<and>
   (\<exists>q. queue_ctor 100000 = Inr q \<and> queue_inv demo_world q \<and> incoming_calls q = [] \<and> capacity q = 100000)"
  using queue_ctor_bounds [of 0 demo_world] queue_ctor_bounds [of 100000 demo_world] by simp

text \<open>C3. What \<^verbatim>\<open>push\<close> does on each of its branches: a number that waits is turned away, then a
  full queue turns the call away, and neither changes the queue; otherwise the call is appended,
  its timer is armed with its expiration time and with a handler for exactly this call, and the
  invariant holds again.\<close>

theorem push_branches:
  assumes "queue_inv w q" "deref w p = Inr c"
  shows "(cg_pn c \<in> set (callers w q) \<longrightarrow> push w p q = returns ALREADY_IN_QUEUE q) \<and>
    (cg_pn c \<notin> set (callers w q) \<and> capacity q \<le> length (incoming_calls q) \<longrightarrow>
       push w p q = returns OVERLOAD q) \<and>
    (cg_pn c \<notin> set (callers w q) \<and> length (incoming_calls q) < capacity q \<longrightarrow>
       (\<exists>q'. push w p q = returns OK q' \<and> queue_inv w q' \<and>
          incoming_calls q' = incoming_calls q @ [(next_node q, p)] \<and>
          live (timers q' ! timer_of q' (cg_pn c)) = [(cg_pn c, next_node q)] \<and>
          expiry (timers q' ! timer_of q' (cg_pn c)) = Some (expiration_time c)))"
proof -
  have "queue_inv w (pushed p c q) \<and>
      live (timers (pushed p c q) ! timer_of (pushed p c q) (cg_pn c)) = [(cg_pn c, next_node q)] \<and>
      expiry (timers (pushed p c q) ! timer_of (pushed p c q) (cg_pn c)) = Some (expiration_time c)"
    if "cg_pn c \<notin> set (callers w q)" "length (incoming_calls q) < capacity q"
    using pushed_inv [OF assms that] pushed_timer [OF assms(1) that(2)]
    by auto
  then show ?thesis using push_cases [OF assms] by (auto simp: not_le)
qed

theorem push_branches_witness:
  "push demo_calls (Some 1) demo_full = returns ALREADY_IN_QUEUE demo_full \<and>
   push demo_calls (Some 2) demo_full = returns OVERLOAD demo_full \<and>
   (\<exists>q'. push demo_calls (Some 2) demo_empty = returns OK q' \<and> incoming_calls q' = [(0, Some 2)])"
proof -
  have "callers demo_calls demo_full = [''71'']" "callers demo_calls demo_empty = []"
    "capacity demo_full = 1" "capacity demo_empty = 1" "incoming_calls demo_empty = []"
    "next_node demo_empty = 0" "length (incoming_calls demo_full) = 1"
    by (simp_all add: demo_full_eq demo_empty_def demo_operators_def callers_def number_def demo_calls_def)
  then show ?thesis
    using push_branches [OF demo_full_inv demo_deref(2)] push_branches [OF demo_full_inv demo_deref(3)]
      push_branches [OF demo_empty_inv demo_deref(3)]
    by auto
qed

text \<open>C4. \<^verbatim>\<open>pop\<close> on an empty queue throws and changes nothing; otherwise it returns the call that
  was accepted first, keeps the order of the rest, forgets the number, gives the timer back and
  leaves no handler in force for the call.\<close>

theorem pop_oldest:
  assumes "queue_inv w q"
  shows "(incoming_calls q = [] \<longrightarrow> pop w q =
      raises (Out_of_range ''IncomingCallsQueue is empty, pop_front() is forbidden'') q) \<and>
    (\<forall>n p rest. incoming_calls q = (n, p) # rest \<longrightarrow>
      (\<exists>q'. pop w q = returns p q' \<and> incoming_calls q' = rest \<and> queue_inv w q' \<and>
         map_cg_pn_to_pos q' (number w p) = None \<and>
         free_timers q' = free_timers q @ [timer_of q (number w p)] \<and>
         live (timers q' ! timer_of q (number w p)) = []))"
proof (intro conjI allI impI)
  show "incoming_calls q = [] \<Longrightarrow> pop w q =
      raises (Out_of_range ''IncomingCallsQueue is empty, pop_front() is forbidden'') q"
    by (rule pop_Nil)
next
  fix n p rest assume q: "incoming_calls q = (n, p) # rest"
  note pc = pop_Cons [OF assms q]
  have "timer_of q (number w p) < length (timers q)"
    using node_facts(4) [OF assms, of n p] q by simp
  then have "map_cg_pn_to_pos (popped w q) (number w p) = None"
    "free_timers (popped w q) = free_timers q @ [timer_of q (number w p)]"
    "live (timers (popped w q) ! timer_of q (number w p)) = []"
    by (simp_all add: popped_def q Let_def)
  with pc show "\<exists>q'. pop w q = returns p q' \<and> incoming_calls q' = rest \<and> queue_inv w q' \<and>
      map_cg_pn_to_pos q' (number w p) = None \<and>
      free_timers q' = free_timers q @ [timer_of q (number w p)] \<and>
      live (timers q' ! timer_of q (number w p)) = []" by blast
qed

theorem pop_oldest_witness:
  "(\<exists>e. pop demo_calls demo_empty = raises e demo_empty) \<and>
   (\<exists>q'. pop demo_calls demo_full = returns (Some 0) q' \<and> incoming_calls q' = [] \<and> free_timers q' = [0])"
proof -
  have "incoming_calls demo_empty = []" "incoming_calls demo_full = [(0, Some 0)]"
    "free_timers demo_full = []" "timer_of demo_full (number demo_calls (Some 0)) = 0"
    by (simp_all add: demo_full_eq demo_empty_def demo_operators_def timer_of_def number_def
        demo_calls_def demo_call_def)
  then show ?thesis
    using pop_oldest [OF demo_empty_inv, of demo_calls] pop_oldest [OF demo_full_inv] by fastforce
qed

text \<open>C5. The handler of a timer that expires while its operation is in force takes exactly the call
  it was armed for out of the queue, completes it with TIMEOUT at the time of the handler, and
  writes its record.\<close>

theorem timeout_removes_call:
  assumes "queue_inv w q" "world_ok w" "0 \<le> now" "take_handler k i q = Some (((x, n), False), q1)"
  shows "\<exists>j q2 w2. (n, Some j) \<in> set (incoming_calls q) \<and> cg_pn (objects w ! j) = x \<and>
    OnCallReset tz now Success x n (w, q1) = returns () (w2, q2) \<and>
    incoming_calls q2 = filter (\<lambda>(m, p). m \<noteq> n) (incoming_calls q) \<and> queue_inv w2 q2 \<and>
    map_cg_pn_to_pos q2 x = None \<and>
    objects w2 = (objects w)[j := SetCompleteData TIMEOUT now (objects w ! j)] \<and>
    cdr_written w2 = cdr_written w @ [j]"
proof -
  have tok: "\<And>c. c \<in> set (objects w) \<Longrightarrow> times_ok c" using assms(2) by (simp add: world_ok_def)
  from OnCallReset_in_force [OF assms(1,4) tok assms(3) world_ok_info [OF assms(2)], of tz]
  obtain p q2 where p: "(n, p) \<in> set (incoming_calls q)" "x = number w p"
    "OnCallReset tz now Success x n (w, q1) = returns () (timed_out tz now p w, q2)"
    "q2 = removed n x (timers q1) q" "queue_inv w q2" by blast
  from node_facts(1) [OF assms(1) p(1)] obtain j where j: "j < length (objects w)" "p = Some j" by auto
  note to = timed_out_facts [OF assms(2) j(1) assms(3), of tz]
  have "queue_inv (timed_out tz now p w) q2" using queue_inv_world to(4) p(5) j(2) by blast
  then show ?thesis using p j to(1,2) by (auto simp: number_def erase_node_def)
qed

theorem timeout_removes_call_witness:
  "\<exists>j q2 w2. OnCallReset demo_time 5 Success ''71'' 0 (demo_calls, demo_full\<lparr>timers :=
      [\<lparr>expiry = Some 2000, pending = []\<rparr>]\<rparr>) = returns () (w2, q2) \<and> cdr_written w2 = [j]"
proof -
  have "take_handler 0 0 demo_full = Some (((''71'', 0), False), demo_full\<lparr>timers :=
      [\<lparr>expiry = Some 2000, pending = []\<rparr>]\<rparr>)"
    by (simp add: demo_full_eq take_handler_def take_pending_def)
  from timeout_removes_call [OF demo_full_inv demo_world_ok _ this, of 5 demo_time] show ?thesis
    by (fastforce simp: demo_calls_def demo_world_def)
qed

text \<open>A handler that is told of an error or of a cancellation, and one whose number no longer
  waits, leave the queue, the calls and the records as they are.\<close>

theorem handler_without_effect:
  assumes "ec \<noteq> Success \<or> map_cg_pn_to_pos q x = None"
  shows "\<exists>w'. OnCallReset tz now ec x n (w, q) = returns () (w', q) \<and> objects w' = objects w \<and>
    cdr_written w' = cdr_written w \<and> cdr_lines w' = cdr_lines w"
proof (cases "ec = Success")
  case True
  with assms have "map_cg_pn_to_pos q x = None" by simp
  from OnCallReset_gone [OF this, of tz now n w] True show ?thesis by simp
next
  case False
  from OnCallReset_not_success [OF this, of tz now x n w q] show ?thesis by blast
qed

theorem handler_without_effect_witness:
  "\<exists>w'. OnCallReset demo_time 5 (Operation_aborted ''cancelled'') ''71'' 0 (demo_calls, demo_full) =
     returns () (w', demo_full) \<and> objects w' = objects demo_calls"
  using handler_without_effect [of "Operation_aborted ''cancelled''" demo_full "''71''" demo_time 5 0 demo_calls]
  by auto

text \<open>C23. Both ways out of the queue implement the removal of a caller from the abstract queue:
  \<^verbatim>\<open>pop\<close> of its first element, the expiry of a timer of the element the timer belongs to.\<close>

theorem removal_refines_abstract:
  assumes "queue_inv w q"
  shows "(\<forall>p q'. pop w q = returns p q' \<longrightarrow>
      (\<exists>x. abs_queue w q = (x, p) # abs_queue w q' \<and>
         abs_queue w q' = a_remove x (abs_queue w q))) \<and>
    (\<forall>k i x n q1 tz now w' q'. take_handler k i q = Some (((x, n), False), q1) \<and> world_ok w \<and> 0 \<le> now \<and>
       OnCallReset tz now Success x n (w, q1) = returns () (w', q') \<longrightarrow>
       abs_queue w q' = a_remove x (abs_queue w q))"
proof (intro conjI allI impI; (elim conjE)?)
  fix p q' assume "pop w q = returns p q'"
  then show "\<exists>x. abs_queue w q = (x, p) # abs_queue w q' \<and> abs_queue w q' = a_remove x (abs_queue w q)"
  proof (cases "incoming_calls q")
    case (Cons a rest)
    obtain n r where a: "a = (n, r)" by (cases a)
    note c = pop_Cons [OF assms Cons [unfolded a]]
    have "popped w q = q'" "r = p" using c(1) \<open>pop w q = returns p q'\<close> by auto
    moreover have "abs_queue w (popped w q) = a_remove (number w r) (abs_queue w q)"
      using removed_refines [OF assms, of n r] by (simp add: popped_def Cons a Let_def)
    moreover have "abs_queue w q = (number w r, r) # abs_queue w (popped w q)"
      by (simp add: abs_queue_def c(2)) (simp add: Cons a)
    ultimately show ?thesis by auto
  qed (simp add: pop_Nil)
next
  fix k i x n q1 tz now w' q'
  assume h: "take_handler k i q = Some (((x, n), False), q1)" "world_ok w" "0 \<le> now"
    "OnCallReset tz now Success x n (w, q1) = returns () (w', q')"
  have tok: "\<And>c. c \<in> set (objects w) \<Longrightarrow> times_ok c" using h(2) by (simp add: world_ok_def)
  from OnCallReset_in_force [OF assms h(1) tok h(3) world_ok_info [OF h(2)], of tz] h(4)
  obtain p where "(n, p) \<in> set (incoming_calls q)" "x = number w p" "q' = removed n x (timers q1) q"
    by auto
  then show "abs_queue w q' = a_remove x (abs_queue w q)" using removed_refines [OF assms] by simp
qed

theorem removal_refines_abstract_witness:
  "\<exists>q'. pop demo_calls demo_full = returns (Some 0) q' \<and> abs_queue demo_calls q' = []"
proof -
  have "abs_queue demo_calls demo_full = [(''71'', Some 0)]"
    by (simp add: abs_queue_def demo_full_eq number_def demo_calls_def demo_call_def)
  moreover have "\<exists>q'. pop demo_calls demo_full = returns (Some 0) q'"
    using pop_content [OF demo_full_inv, of "Some 0" "[]"] by (simp add: demo_full_eq) blast
  ultimately show ?thesis using removal_refines_abstract [OF demo_full_inv] by fastforce
qed

text \<open>C28. First in, first out: pushing a list of calls into an empty queue and popping until it is
  empty gives back the accepted calls in the order they came.\<close>

theorem queue_first_in_first_out:
  assumes "queue_inv w q" "incoming_calls q = []"
    "length (accepted (\<lambda>p q. snd (push w p q)) (q_accepts w) ps q) \<le> n"
  shows "gets (pop w) n (fold (\<lambda>p q. snd (push w p q)) ps q) =
    accepted (\<lambda>p q. snd (push w p q)) (q_accepts w) ps q"
  using q_fifo.first_in_first_out [OF assms(1) _ assms(3)] assms(2) by simp

theorem queue_first_in_first_out_witness:
  "gets (pop demo_calls) 3 (fold (\<lambda>p q. snd (push demo_calls p q)) [Some 2, Some 0] demo_empty) = [Some 2]"
proof -
  have a: "accepted (\<lambda>p q. snd (push demo_calls p q)) (q_accepts demo_calls) [Some 2, Some 0] demo_empty =
      [Some 2]"
    by (simp add: q_accepts_def callers_def demo_empty_def demo_operators_def push_def push_accept_def
        system_timer_ctor_def async_wait_def expires_after_def)
  have "incoming_calls demo_empty = []" by (simp add: demo_empty_def demo_operators_def)
  from queue_first_in_first_out [OF demo_empty_inv this, of _ "[Some 2, Some 0]" 3] a show ?thesis
    by simp
qed

section \<open>Waiting\<close>

text \<open>C38. \<^verbatim>\<open>wait\<close> of either queue returns only when the queue has an element, and a thread that
  sleeps alone is woken by the next insertion and then returns.\<close>

theorem wait_returns_nonempty:
  "(q_wait p q = (Returned, q') \<and> p \<noteq> Returned \<longrightarrow> incoming_calls q' \<noteq> [] \<and> q' = q) \<and>
   (ts_wait p t = (Returned, t') \<and> p \<noteq> Returned \<longrightarrow> deqQueue t' \<noteq> [] \<and> t' = t) \<and>
   (cv_blocking q = 1 \<and> push w call q = returns OK q' \<longrightarrow>
      q_wait Asleep q' = (Testing, q') \<and> q_wait Testing q' = (Returned, q')) \<and>
   (cvBlocking t = 1 \<longrightarrow> ts_wait Asleep (ts_push_back x t) = (Testing, ts_push_back x t) \<and>
      ts_wait Testing (ts_push_back x t) = (Returned, ts_push_back x t))"
proof (intro conjI impI; (elim conjE)?)
  assume "q_wait p q = (Returned, q')" "p \<noteq> Returned"
  then have "\<not> q_empty q' \<and> q' = q"
    unfolding q_wait_def by (rule q_waits.returns_only_nonempty)
  then show "incoming_calls q' \<noteq> []" "q' = q" unfolding q_empty_def by blast+
next
  assume "ts_wait p t = (Returned, t')" "p \<noteq> Returned"
  then have "\<not> ts_empty t' \<and> t' = t"
    unfolding ts_wait_def by (rule ts_waits.returns_only_nonempty)
  then show "deqQueue t' \<noteq> []" "t' = t" unfolding ts_empty_def by blast+
next
  assume q: "cv_blocking q = 1" "push w call q = returns OK q'"
  then have "q_adds q q'" unfolding q_adds_def by blast
  from q_waits.asleep_is_woken [OF q(1) this]
  show "q_wait Asleep q' = (Testing, q')" "q_wait Testing q' = (Returned, q')"
    unfolding q_wait_def by blast+
next
  assume t: "cvBlocking t = 1"
  have "ts_adds t (ts_push_back x t)" unfolding ts_adds_def by blast
  from ts_waits.asleep_is_woken [OF t this]
  show "ts_wait Asleep (ts_push_back x t) = (Testing, ts_push_back x t)"
    "ts_wait Testing (ts_push_back x t) = (Returned, ts_push_back x t)"
    unfolding ts_wait_def by blast+
qed

theorem wait_returns_nonempty_witness:
  "incoming_calls demo_full \<noteq> [] \<and>
   ts_wait Asleep (ts_push_back (0 :: int) \<lparr>deqQueue = [], cvBlocking = 1\<rparr>) =
     (Testing, ts_push_back 0 \<lparr>deqQueue = [], cvBlocking = 1\<rparr>)"
proof -
  have "q_wait Testing demo_full = (Returned, demo_full)"
    by (simp add: q_wait_def q_empty_def demo_full_eq)
  then show ?thesis
    using wait_returns_nonempty [of Testing demo_full demo_full
        "\<lparr>deqQueue = [], cvBlocking = 1\<rparr>" "\<lparr>deqQueue = [], cvBlocking = 1\<rparr>" demo_calls "Some 0" "0 :: int"]
    by simp
qed

text \<open>C39. The queue of the operators is first in, first out, without bound.\<close>

theorem tsqueue_first_in_first_out:
  "gets ts_pop_front (length xs) (fold ts_push_back xs TSQueue_ctor) = xs"
proof -
  have "accepted ts_push_back (\<lambda>x q. True) xs q = xs" for q :: "'a TSQueue"
    by (induction xs arbitrary: q) simp_all
  then show ?thesis using ts_fifo.first_in_first_out [of TSQueue_ctor xs "length xs"] by simp
qed

section \<open>The operators\<close>

text \<open>The constructor of the operators: the error of the queue first, then the one of a
  negative count; otherwise all operators are free, in order, and no timer runs.\<close>

theorem operators_ctor_spec:
  "Operators_ctor n cap w = (if cap = 0 \<or> 100000 < cap then
      raises (Length_error ''cannot create IncomingCallsQueue larger than 100000 size'') w
    else if n < 0 then raises (Length_error ''vector::reserve'') w
    else returns \<lparr>incoming = sum.projr (queue_ctor cap), talks = replicate (nat n) system_timer_ctor,
        free_operators = \<lparr>deqQueue = map int [0..<nat n], cvBlocking = 0\<rparr>, continue_loop = True\<rparr>
      (log_operators info (''Number of operators = '' @ to_string n @
         '', the queue size = '' @ nat_to_string cap) w))"
  by (rule Operators_ctor_cases)

text \<open>C24. \<^verbatim>\<open>AddCall\<close> gives the call that waits longest to the operator that is free longest: the
  call carries the operator's number, and the operator's timer is set to the call's duration with
  a handler for this call. With an empty queue it logs the exception of \<^verbatim>\<open>pop\<close> and changes
  nothing.\<close>

theorem AddCall_serves_oldest:
  assumes "queue_inv w (incoming s)"
  shows "(incoming_calls (incoming s) = [] \<longrightarrow> (\<exists>w'. AddCall now (w, s) = returns () (w', s) \<and>
      objects w' = objects w \<and> cdr_written w' = cdr_written w)) \<and>
    (\<forall>n j rest k F. incoming_calls (incoming s) = (n, Some j) # rest \<and>
       deqQueue (free_operators s) = int k # F \<and> k < length (talks s) \<longrightarrow>
       (\<exists>w' q'. AddCall now (w, s) = returns () (w', s\<lparr>incoming := q',
           free_operators := (free_operators s)\<lparr>deqQueue := F\<rparr>,
           talks := (talks s)[k := async_wait (Some j)
             (expires_after (call_duration (objects w ! j)) (talks s ! k))]\<rparr>) \<and>
         incoming_calls q' = rest \<and> queue_inv w' q' \<and> cdr_written w' = cdr_written w \<and>
         objects w' = (objects w)[j := SetOperatorResponseData (int k) now (objects w ! j)]))"
proof (intro conjI allI impI; (elim conjE)?)
  assume "incoming_calls (incoming s) = []"
  then show "\<exists>w'. AddCall now (w, s) = returns () (w', s) \<and> objects w' = objects w \<and>
      cdr_written w' = cdr_written w"
    by (simp add: AddCall_def AddCall_pop_cases(1))
next
  fix n j rest k F
  assume q: "incoming_calls (incoming s) = (n, Some j) # rest"
    and f: "deqQueue (free_operators s) = int k # F" "k < length (talks s)"
  note p = pop_Cons [OF assms q]
  have j: "j < length (objects w)" using node_facts(1) [OF assms, of n "Some j"] q by simp
  let ?s = "s\<lparr>incoming := popped w (incoming s)\<rparr>"
  from AddCall_take_result [of ?s k F j w now] f j obtain w' where
    w': "AddCall_take now (Some j) (w, ?s) = returns () (w', ?s\<lparr>
      free_operators := (free_operators s)\<lparr>deqQueue := F\<rparr>,
      talks := (talks s)[k := async_wait (Some j) (expires_after
        (call_duration (objects w ! j)) (talks s ! k))]\<rparr>)"
    "objects w' = (objects w)[j := SetOperatorResponseData (int k) now (objects w ! j)]"
    "cdr_written w' = cdr_written w" by auto
  have "same_numbers w w'" using j by (auto simp: same_numbers_def w'(2) nth_list_update)
  then have "queue_inv w' (popped w (incoming s))" using queue_inv_world p(3) by blast
  then show "\<exists>w' q'. AddCall now (w, s) = returns () (w', s\<lparr>incoming := q',
        free_operators := (free_operators s)\<lparr>deqQueue := F\<rparr>,
        talks := (talks s)[k := async_wait (Some j)
          (expires_after (call_duration (objects w ! j)) (talks s ! k))]\<rparr>) \<and>
      incoming_calls q' = rest \<and> queue_inv w' q' \<and> cdr_written w' = cdr_written w \<and>
      objects w' = (objects w)[j := SetOperatorResponseData (int k) now (objects w ! j)]"
    using p(2) w' by (auto simp: AddCall_def AddCall_pop_cases(2) [OF p(1)])
qed

theorem AddCall_serves_oldest_witness:
  "\<exists>w' s'. AddCall 7 (demo_calls, demo_operators\<lparr>incoming := demo_full\<rparr>) = returns () (w', s') \<and>
     deqQueue (free_operators s') = [] \<and> operator_id (objects w' ! 0) = 0 \<and>
     expiry (talks s' ! 0) = Some 1000"
proof -
  let ?s = "demo_operators\<lparr>incoming := demo_full\<rparr>"
  have i: "queue_inv demo_calls (incoming ?s)" using demo_full_inv by simp
  have "incoming_calls (incoming ?s) = [(0, Some 0)]" "deqQueue (free_operators ?s) = [int 0]"
    "talks ?s \<noteq> []" "call_duration (objects demo_calls ! 0) = 1000" "objects demo_calls \<noteq> []"
    by (simp_all add: demo_full_eq demo_operators_def demo_calls_def demo_call_def)
  with conjunct2 [OF AddCall_serves_oldest [OF i, of 7], rule_format, of 0 0 "[]" 0 "[]"]
  obtain w' q' where "AddCall 7 (demo_calls, ?s) = returns () (w', ?s\<lparr>incoming := q',
      free_operators := (free_operators ?s)\<lparr>deqQueue := []\<rparr>,
      talks := (talks ?s)[0 := async_wait (Some 0) (expires_after 1000 (talks ?s ! 0))]\<rparr>)"
    "objects w' = (objects demo_calls)[0 := SetOperatorResponseData 0 7 (objects demo_calls ! 0)]"
    by auto
  moreover have "length (objects demo_calls) = 3" "length (talks ?s) = 1"
    by (simp, simp add: demo_operators_def)
  ultimately show ?thesis by (auto simp: async_wait_def expires_after_def)
qed

text \<open>C25. At the end of a conversation the operator goes to the end of the queue of free operators,
  the call is completed with OK and gets its record; when the timer reports an error nothing of
  this happens, and the operator stays out of the queue.\<close>

theorem OnEndCall_frees_operator:
  assumes "world_ok w" "j < length (objects w)" "0 \<le> now"
  shows "(\<exists>w'. OnEndCall tz now Success (Some j) (w, s) = returns () (w',
      s\<lparr>free_operators := ts_push_back (operator_id (objects w ! j)) (free_operators s)\<rparr>) \<and>
      objects w' = (objects w)[j := SetCompleteData OK now (objects w ! j)] \<and>
      cdr_written w' = cdr_written w @ [j]) \<and>
    (ec \<noteq> Success \<longrightarrow> (\<exists>w'. OnEndCall tz now ec (Some j) (w, s) = returns () (w', s) \<and>
      objects w' = objects w \<and> cdr_written w' = cdr_written w))"
  using OnEndCall_result [OF assms, of tz s] by (auto simp: OnEndCall_def)

theorem OnEndCall_frees_operator_witness:
  "\<exists>w' s'. OnEndCall demo_time 9 Success (Some 2) (demo_calls, demo_operators) = returns () (w', s') \<and>
     deqQueue (free_operators s') = [0, 0] \<and> cdr_written w' = [2]"
proof -
  have "operator_id (objects demo_calls ! 2) = 0" "deqQueue (free_operators demo_operators) = [0]"
    "cdr_written demo_calls = []"
    by (simp_all add: demo_calls_def demo_call_def demo_operators_def demo_world_def)
  then show ?thesis
    using OnEndCall_frees_operator [OF demo_world_ok, of 2 9 demo_time demo_operators Success] by auto
qed

end
