(* ===== verification/RequestProperties.thy ===== *)
theory RequestProperties
  imports QueueProperties
begin

text \<open>
  The properties of the handling of a request: the telephone number, the call, the answer, the
  record, and of the helpers they use.
\<close>

section \<open>Telephone numbers\<close>

text \<open>C21. A query is accepted exactly when, with its escaped spaces decoded, it has the syntax of a
  telephone number; the number handed back is the common form of its digits, appended to what the
  output held, and a query that is rejected leaves the output as it was.\<close>

theorem phone_number_accepted:
  "isValidPhoneNumber q acc = (if phone_syntax (decode q)
     then (True, acc @ normal_form (filter is_digit (decode q))) else (False, acc))"
  using isValidPhoneNumber_spec [of q acc] by (simp add: Let_def)

text \<open>C22. An accepted number has eleven digits and does not start with an eight; dialled again in
  this form it is accepted and stays the same.\<close>

theorem phone_number_canonical:
  assumes "isValidPhoneNumber q '''' = (True, phone)"
  shows "length phone = 11 \<and> list_all is_digit phone \<and> hd phone \<noteq> CHR ''8'' \<and>
    isValidPhoneNumber (CHR ''/'' # phone) '''' = (True, phone)"
proof -
  from assms have p: "phone_syntax (decode q)" "phone = normal_form (filter is_digit (decode q))"
    by (simp_all add: isValidPhoneNumber_spec Let_def split: if_splits)
  note shape = normal_form_shape [OF p(1), folded p(2)]
  have nd: "\<not> is_digit CHR ''/''" "\<not> is_digit CHR ''%''" by (simp_all add: is_digit_def)
  have "decode s = s" if "list_all is_digit s" for s
    using that nd(2) by (induction s) auto
  then have d: "decode (CHR ''/'' # phone) = CHR ''/'' # phone" using shape(2) by simp
  have "filter is_digit (CHR ''/'' # phone) = phone"
    using shape(2) nd(1) by (simp add: filter_all)
  moreover have "normal_form phone = phone" using shape by (simp add: normal_form_def)
  moreover have "phone_syntax (CHR ''/'' # phone)" using canonical_syntax shape(1,2) .
  ultimately show ?thesis using shape d by (simp add: isValidPhoneNumber_spec Let_def)
qed

theorem phone_number_canonical_witness:
  "isValidPhoneNumber ''/78129885723'' '''' = (True, ''78129885723'')"
  using phone_number_canonical [OF demo_phone] by blast

text \<open>C34. The loop over \<^verbatim>\<open>find\<close> and \<^verbatim>\<open>replace\<close> is one pass over the text that turns every \<open>%20\<close>
  into a space, and it leaves no escape behind.\<close>

theorem url_decode_one_pass:
  "UrlDecode s = decode s \<and> \<not> sublist ''%20'' (UrlDecode s)"
  by (simp add: UrlDecode_decode decode_no_escape)

section \<open>Requests\<close>

text \<open>C2. A GET request with a valid number, when the two random durations drawn for it fit an \<^verbatim>\<open>int\<close>
  as milliseconds, makes one new call with the next identifier, and the
  answer has status 200: a number that waits already and a full queue are told so, and the call is
  completed with the matching status and gets its record; otherwise the call waits at the end of
  the queue and the answer names its identifier.\<close>

theorem request_outcomes:
  assumes "queue_inv w q" "world_ok w" "0 \<le> now1" "0 \<le> now2" "req_method rq = Get"
    "isValidPhoneNumber (target rq) '''' = (True, phone)" "draws_fit env r"
  shows "\<exists>c r' resp w' q'. HandleRequest env ip now1 now2 rq (r, w, q) = (Inr resp, (r', w', q')) \<and>
    result resp = Ok_200 \<and> queue_inv w' q' \<and> next_call_id w' = next_call_id w + 1 \<and>
    cg_pn c = phone \<and> call_id c = next_call_id w \<and> dt_request c = now1 \<and>
    (if phone \<in> set (callers w q)
     then body resp = ''This phone number is already waiting'' \<and> q' = q \<and>
       objects w' = objects w @ [SetCompleteData ALREADY_IN_QUEUE now2 c] \<and>
       cdr_written w' = cdr_written w @ [length (objects w)]
     else if capacity q \<le> length (incoming_calls q)
     then body resp = ''The queue is overloaded'' \<and> q' = q \<and>
       objects w' = objects w @ [SetCompleteData OVERLOAD now2 c] \<and>
       cdr_written w' = cdr_written w @ [length (objects w)]
     else body resp = ''CallId: '' @ to_string (uint (next_call_id w)) \<and>
       objects w' = objects w @ [c] \<and> cdr_written w' = cdr_written w \<and>
       incoming_calls q' = incoming_calls q @ [(next_node q, Some (length (objects w)))])"
proof -
  from Call_ctor_ok [OF assms(7)] obtain c r1 n1 where
    c: "Call_ctor (env_fl env) (env_gamma env) (env_uniform env) phone now1 (r, next_call_id w) =
      (Inr c, (r1, n1))" by blast
  note f = Call_ctor_fields [OF c]
  from HandleRequest_new_call [OF assms(1-6) c, of ip] obtain resp w' q' c' where
    h: "HandleRequest env ip now1 now2 rq (r, w, q) = (Inr resp, (r1, w', q'))"
    "result resp = Ok_200" "queue_inv w' q'" and
    b: "cg_pn c \<in> set (callers w q) \<and> body resp = turned_away_text ALREADY_IN_QUEUE \<and>
       c' = SetCompleteData ALREADY_IN_QUEUE now2 c \<and>
       rejected (env_localtime env) c' (w, q) (w', q') \<or>
     cg_pn c \<notin> set (callers w q) \<and> capacity q \<le> length (incoming_calls q) \<and>
       body resp = turned_away_text OVERLOAD \<and> c' = SetCompleteData OVERLOAD now2 c \<and>
       rejected (env_localtime env) c' (w, q) (w', q') \<or>
     cg_pn c \<notin> set (callers w q) \<and> length (incoming_calls q) < capacity q \<and>
       body resp = ''CallId: '' @ to_string (uint (call_id c)) \<and> c' = c \<and> taken c (w, q) (w', q')"
    by blast
  have n: "next_call_id w' = next_call_id w + 1" using b by (auto simp: rejected_def taken_def)
  from b f n h show ?thesis
    by (intro exI [of _ c] exI [of _ r1] exI [of _ resp] exI [of _ w'] exI [of _ q'])
      (auto simp: rejected_def taken_def turned_away_text_def)
qed

lemma demo_draws_fit: "draws_fit demo_env demo_rand"
  by (simp add: draws_fit_def getRandErlang_def getRandUniform_def demo_env_def demo_rand_def demo_draws)

theorem request_outcomes_witness:
  "\<exists>resp st. HandleRequest demo_env (Inr ''::1'') 3 4
     \<lparr>req_method = Get, target = ''/88129885723'', version = 11\<rparr> (demo_rand, demo_calls, demo_full) =
     (Inr resp, st) \<and> result resp = Ok_200 \<and> body resp = ''The queue is overloaded''"
proof -
  have "callers demo_calls demo_full = [''71'']" "capacity demo_full = 1"
    "length (incoming_calls demo_full) = 1"
    by (simp_all add: demo_full_eq callers_def number_def demo_calls_def demo_call_def)
  then show ?thesis
    using request_outcomes [OF demo_full_inv demo_world_ok, of 3 4
        "\<lparr>req_method = Get, target = ''/88129885723'', version = 11\<rparr>" "''78129885723''" demo_env demo_rand
        "Inr ''::1''"] demo_phone demo_draws_fit
    by fastforce
qed

text \<open>C26. A request with another method, or without a valid number, is not answered with status 200
  but with a page that gives the reason, with status 400 when the method is wrong; no call is made, no
  identifier is used, and queue, calls, records and the random generator stay as they are. When the
  peer's address cannot be read the exception leaves the handler, and nothing has changed either.\<close>

theorem bad_requests_change_nothing:
  assumes "req_method rq \<noteq> Get \<or> fst (isValidPhoneNumber (target rq) []) = False"
  shows "(\<exists>resp w'. HandleRequest env (Inr ip) now1 now2 rq (r, w, q) = (Inr resp, (r, w', q)) \<and>
      result resp \<noteq> Ok_200 \<and> (req_method rq \<noteq> Get \<longrightarrow> result resp = Bad_request_400) \<and>
      body resp = (if req_method rq \<noteq> Get then ''Usage GET method.'' else ''Invalid phone number.'') \<and>
      objects w' = objects w \<and> cdr_written w' = cdr_written w \<and>
      cdr_lines w' = cdr_lines w \<and> next_call_id w' = next_call_id w) \<and>
    HandleRequest env (Inl e) now1 now2 rq (r, w, q) = (Inl e, (r, w, q))"
proof -
  from HandleRequest_refused(2) [OF assms, of env ip now1 now2 r w q] obtain resp w' where
    "HandleRequest env (Inr ip) now1 now2 rq (r, w, q) = (Inr resp, (r, w', q))"
    "result resp = Bad_request_400" "refused (w, q) (w', q)"
    "body resp = (if req_method rq \<noteq> Get then ''Usage GET method.'' else ''Invalid phone number.'')" by blast
  with HandleRequest_refused(1) [OF assms, of env e now1 now2 r w q] show ?thesis
    by (auto simp: refused_def)
qed

theorem bad_requests_change_nothing_witness:
  "\<exists>resp st. HandleRequest demo_env (Inr ''::1'') 3 4
     \<lparr>req_method = Other_verb ''POST'', target = ''/88129885723'', version = 11\<rparr>
     (demo_rand, demo_calls, demo_full) = (Inr resp, st) \<and> body resp = ''Usage GET method.''"
  using bad_requests_change_nothing
    [of "\<lparr>req_method = Other_verb ''POST'', target = ''/88129885723'', version = 11\<rparr>" demo_env
      "''::1''" 3 4 demo_rand demo_calls demo_full]
  by fastforce

text \<open>C27. A session serves one request: whatever the outcomes of its operations and whatever the rest of
  the program does in between, at most three handlers run; at most one response is sent, and it is the
  answer of \<^verbatim>\<open>HandleRequest\<close> to the request that was read; nothing is started after the socket has been
  shut down; a session with nothing under way has shut its socket down, unless the read or the write
  failed or an exception left the handler; and an exception comes from \<^verbatim>\<open>HandleRequest\<close> and leaves no
  response.\<close>

theorem session_serves_one_request:
  assumes "session_run env cs (filter asynchronous (actions session_start)) session_start = Some (x, (out, s))"
  shows "(x = Inr () \<longrightarrow> length cs \<le> 3) \<and>
    length (filter (\<lambda>a. \<exists>m. a = Async_write m) (actions s)) \<le> 1 \<and>
    (\<forall>m. Async_write m \<in> set (actions s) \<longrightarrow>
       (\<exists>rq sd ip now1 now2 st. cs ! 1 = (Read_done No_error rq sd ip now1 now2, st) \<and>
          fst (HandleRequest env ip now1 now2 rq st) = Inr m)) \<and>
    Shutdown_both \<notin> set (butlast (actions s)) \<and>
    (x = Inr () \<and> out = [] \<longrightarrow> last (actions s) = Shutdown_both \<or>
       (\<exists>m rq sd ip now1 now2. fst (last cs) = Read_done (Read_error m) rq sd ip now1 now2) \<or>
       (\<exists>m sd. fst (last cs) = Write_done (Some m) sd)) \<and>
    (\<forall>e. x = Inl e \<longrightarrow> out = [] \<and> (\<forall>m. Async_write m \<notin> set (actions s)) \<and>
       (\<exists>rq sd ip now1 now2 st. cs ! 1 = (Read_done No_error rq sd ip now1 now2, st) \<and>
          fst (HandleRequest env ip now1 now2 rq st) = Inl e))"
proof -
  from session_stages [OF assms stage_start] obtain es where
    es: "stage env es out (actions s)" "es = take (length es) cs"
      "x = Inr () \<longrightarrow> es = cs \<and> (\<forall>d \<in> set es. \<forall>e. \<not> throws env e d)"
      "\<forall>e. x = Inl e \<longrightarrow> es \<noteq> [] \<and> throws env e (last es)" by auto
  have nth: "cs ! i = es ! i" if "i < length es" for i using es(2) that by (metis nth_take)
  have error: "ec \<noteq> No_error \<Longrightarrow> ec \<noteq> End_of_stream \<Longrightarrow> \<exists>m. ec = Read_error m" for ec by (cases ec) auto
  show ?thesis
    using es(1) nth [of 1] es(3,4)
    by (cases; cases x) (auto simp: throws_def error split: completion.splits read_error.splits)
qed

definition demo_session ::
  "(completion \<times> nat rand_gen \<times> world \<times> queue) list" where
  "demo_session = (let st = (demo_rand, demo_calls, demo_full) in
     [(Dispatched, st),
      (Read_done No_error \<lparr>req_method = Other_verb ''POST'', target = ''/'', version = 11\<rparr> None
         (Inr ''::1'') 3 4, st),
      (Write_done None None, st)])"

theorem session_serves_one_request_witness:
  "\<exists>s m. session_run demo_env demo_session (filter asynchronous (actions session_start)) session_start =
       Some (returns () ([], s)) \<and>
     actions s = [Dispatch_DoRead, Stream_expires_after 10, Async_read, Async_write m, Shutdown_both] \<and>
     length (filter (\<lambda>a. \<exists>m. a = Async_write m) (actions s)) \<le> 1"
proof -
  have "\<exists>s m. session_run demo_env demo_session (filter asynchronous (actions session_start)) session_start =
       Some (returns () ([], s)) \<and>
     actions s = [Dispatch_DoRead, Stream_expires_after 10, Async_read, Async_write m, Shutdown_both]"
    by (simp add: demo_session_def session_start_def Session_Run_def Session_ctor_def act_def asynchronous_def
        started_def DoRead_def OnRead_def HandleRequest_def SendResponse_def OnWrite_def DoClose_def Let_def)
  with session_serves_one_request [of demo_env demo_session] show ?thesis by blast
qed

section \<open>Calls and their records\<close>

text \<open>C35. The line of a record has eight fields separated by semicolons, and splitting the line
  gives the fields back, as long as the number has no semicolon; a time stamp before the epoch
  is the only reason for a line not to be printed.\<close>

theorem cdr_line_has_eight_fields:
  assumes "no_semicolon (cg_pn c)" "times_ok c"
  shows "\<exists>fs. cdr_fields tz c = Inr fs \<and> length fs = 8 \<and> cdr_line tz c = Inr (join_semicolons fs) \<and>
    split_semicolons (join_semicolons fs) = fs \<and>
    fs ! 1 = setw 6 (to_string (uint (call_id c))) \<and> fs ! 2 = setw 15 (cg_pn c) \<and>
    fs ! 4 = setw 17 (status_name (status c)) \<and>
    (status c \<noteq> OK \<longrightarrow> drop 5 fs = [setw 13 ''-'', setw 4 ''-'', setw 5 ''-''])"
proof -
  from cdr_line_ok [OF assms(2), of tz] obtain fs where fs: "cdr_fields tz c = Inr fs"
    by (auto simp: cdr_line_def ebind_Inr_iff)
  from fs obtain req compl a b d where f: "cdr_answer tz c = Inr (a, b, d)"
    "fs = [setw 24 (tpToStrYMD tz (dt_request c) @ '' '' @ req),
      setw 6 (to_string (uint (call_id c))), setw 15 (cg_pn c),
      setw 24 (tpToStrYMD tz (dt_completion c) @ '' '' @ compl), setw 17 (status_name (status c)),
      setw 13 a, setw 4 b, setw 5 d]"
    by (auto simp: cdr_fields_def ebind_Inr_iff)
  have "status c \<noteq> OK \<Longrightarrow> a = ''-'' \<and> b = ''-'' \<and> d = ''-''"
    using f(1) by (auto simp: cdr_answer_def)
  moreover have "fs ! 1 = setw 6 (to_string (uint (call_id c))) \<and> fs ! 2 = setw 15 (cg_pn c) \<and>
      fs ! 4 = setw 17 (status_name (status c)) \<and> drop 5 fs = [setw 13 a, setw 4 b, setw 5 d]"
    unfolding f(2) by (simp add: numeral_eq_Suc)
  ultimately show ?thesis
    using cdr_line_split [OF fs assms(1)] cdr_fields_no_semicolon [OF fs assms(1)] fs by blast
qed

theorem cdr_line_has_eight_fields_witness:
  "\<exists>fs. cdr_line demo_time (demo_call 100 ''71'') = Inr (join_semicolons fs) \<and> length fs = 8"
proof -
  have "no_semicolon (cg_pn (demo_call 100 ''71''))" "times_ok (demo_call 100 ''71'')"
    by (simp_all add: demo_call_def times_ok_def)
  from cdr_line_has_eight_fields [OF this, of demo_time] show ?thesis by blast
qed

text \<open>C40. A time point from the epoch on is printed with its milliseconds as three digits; the
  replacement in the text of three zeros never goes out of range.\<close>

theorem time_point_milliseconds:
  assumes "0 \<le> tp"
  shows "\<exists>p. tpToStrHMS localtime tp = Inr (strftime_T (localtime (to_time_t tp)) @ ''.'' @ p) \<and>
    length p = 3 \<and> (\<forall>c \<in> set p. is_digit c) \<and> string_to_nat 0 p = nat (tp div 1000000 mod 1000)"
  by (rule tpToStrHMS_nonneg [OF assms])

theorem time_point_milliseconds_witness:
  "\<exists>p. tpToStrHMS demo_time 1007000000 = Inr (strftime_T (demo_time 1) @ ''.'' @ p) \<and>
     string_to_nat 0 p = 7"
  using time_point_milliseconds [of 1007000000 demo_time] by (auto simp: to_time_t_def tdiv_def)

text \<open>C36. Identifiers are handed out in the order of the calls of \<^verbatim>\<open>getNextCallId\<close>, from 100 on;
  they repeat after 2^32 calls and not before.\<close>

theorem call_ids_distinct:
  "fst (getNextCallId (((\<lambda>n. snd (getNextCallId n)) ^^ i) next_call_id0)) =
     fst (getNextCallId (((\<lambda>n. snd (getNextCallId n)) ^^ j) next_call_id0)) \<longleftrightarrow>
   i mod 2 ^ 32 = j mod 2 ^ 32"
proof -
  have it: "((\<lambda>n. snd (getNextCallId n)) ^^ i) n = n + of_nat i" for i n
    by (induction i) (simp_all add: getNextCallId_def)
  have "(of_nat i :: 32 word) = of_nat j \<longleftrightarrow> i mod 2 ^ 32 = j mod 2 ^ 32"
    by (simp add: word_of_nat_eq_iff take_bit_eq_mod)
  then show ?thesis by (simp add: it) (simp add: getNextCallId_def)
qed

text \<open>C37. A uniform draw between two numbers of seconds gives a number of milliseconds between
  them, when the bounds in milliseconds are integers an \<^verbatim>\<open>int\<close> can hold.\<close>

theorem uniform_draw_in_bounds:
  assumes "rounding fl" "of_int lo = 1000 * ud_a (uniform_dist r)" "of_int hi = 1000 * ud_b (uniform_dist r)"
    "- (2 ^ 31) \<le> lo" "hi < 2 ^ 31"
    "\<And>g. ud_a (uniform_dist r) \<le> fst (draw (uniform_dist r) g)"
    "\<And>g. fst (draw (uniform_dist r) g) \<le> ud_b (uniform_dist r)"
  shows "\<exists>i g. getRandUniform fl draw r = returns i (r\<lparr>gen := g\<rparr>) \<and> lo \<le> i \<and> i \<le> hi"
proof -
  obtain x g where x: "draw (uniform_dist r) (gen r) = (x, g)" by (cases "draw (uniform_dist r) (gen r)")
  from assms(6,7) [of "gen r"] have b: "of_int lo \<le> 1000 * x" "1000 * x \<le> of_int hi"
    by (simp_all add: assms(2,3) x)
  then have "(of_int lo :: rat) \<le> of_int hi" by linarith
  then have "lo \<le> hi" by simp
  with assms(4,5) have "\<bar>lo\<bar> \<le> 2 ^ 53" "\<bar>hi\<bar> \<le> 2 ^ 53" by auto
  from rounding_between [OF assms(1) b this]
  have fl: "of_int lo \<le> fl (1000 * x)" "fl (1000 * x) \<le> of_int hi" by simp_all
  from cast_int_in_range [OF fl assms(4,5)] show ?thesis
    by (auto simp: getRandUniform_def x)
qed

theorem uniform_draw_in_bounds_witness:
  "\<exists>i g. getRandUniform (\<lambda>x. x) (\<lambda>d g. (30, Suc g)) demo_rand = returns i (demo_rand\<lparr>gen := g\<rparr>) \<and>
     20000 \<le> i \<and> i \<le> 50000"
  using uniform_draw_in_bounds [OF rounding_id, of 20000 demo_rand 50000 "\<lambda>d g. (30, Suc g)"]
  by (simp add: demo_rand_def)

section \<open>Loggers\<close>

text \<open>\<^verbatim>\<open>Init\<close> succeeds once: it sets the levels the configuration names, where a name that is not
  in the table means the lowest level, and starts the file of the records with one blank line.
  Called again, or with a name taken, it throws.\<close>

theorem log_init_once:
  "(''CDR'' \<notin> set (registry w) \<and> ''SERVER'' \<notin> set (registry w) \<and> ''OPERATORS'' \<notin> set (registry w) \<longrightarrow>
     (\<exists>w'. Log_Init None ls lo w = returns () w' \<and> logger_level (serverLog w') = level_of_name ls \<and>
        logger_level (operatorsLog w') = level_of_name lo \<and> cdr_lines w' = cdr_lines w @ ['' ''])) \<and>
   (''CDR'' \<in> set (registry w) \<longrightarrow> (\<exists>m. Log_Init None ls lo w = raises (Spdlog_ex m) w)) \<and>
   (ls \<notin> {''debug'', ''info'', ''warn'', ''error'', ''critical'', ''off''} \<longrightarrow> level_of_name ls = trace)"
proof (intro conjI impI)
  assume "''CDR'' \<notin> set (registry w) \<and> ''SERVER'' \<notin> set (registry w) \<and> ''OPERATORS'' \<notin> set (registry w)"
  with Log_Init_ok [of w ls lo] show "\<exists>w'. Log_Init None ls lo w = returns () w' \<and>
      logger_level (serverLog w') = level_of_name ls \<and>
      logger_level (operatorsLog w') = level_of_name lo \<and> cdr_lines w' = cdr_lines w @ ['' '']"
    by blast
next
  assume "''CDR'' \<in> set (registry w)"
  then show "\<exists>m. Log_Init None ls lo w = raises (Spdlog_ex m) w"
    by (simp add: Log_Init_def register_logger_def)
next
  assume "ls \<notin> {''debug'', ''info'', ''warn'', ''error'', ''critical'', ''off''}"
  then show "level_of_name ls = trace" by (simp add: level_of_name_def loggingLevels_def)
qed

theorem log_init_once_witness:
  "(\<exists>w'. Log_Init None ''off'' ''verbose'' world0 = returns () w' \<and> logger_level (operatorsLog w') = trace) \<and>
   (\<exists>m. Log_Init None ''off'' ''off'' demo_world = raises (Spdlog_ex m) demo_world)"
proof -
  have "registry world0 = ['''']" "''CDR'' \<in> set (registry demo_world)"
    by (simp_all add: world0_def demo_world_def Let_def)
  then show ?thesis
    using log_init_once [of world0 "''off''" "''verbose''"] log_init_once [of demo_world "''off''" "''off''"]
      log_init_once [of world0 "''verbose''" "''verbose''"]
    by auto
qed

section \<open>The listener\<close>

text \<open>The steps of the acceptor stop at the first one that fails; the constructor returns all
  the same. An accepted connection starts a session, which asks for the next connection; an error
  whose peer can be named ends accepting; and when the peer cannot be named, which is so for every
  connection that was not made, the exception leaves the handler before the error is looked at.\<close>

theorem listener_behaviour:
  "done_ops (fst (Listener_ctor fails w)) =
     takeWhile (\<lambda>a. fails a = None) [Open, Reuse_address, Bind, Listen] \<and>
   (case on_accept ec endpoint (l, w) of (x, (l', w')) \<Rightarrow>
      (case endpoint of
         Inl e \<Rightarrow> x = Inl e \<and> sessions l' = sessions l
       | Inr _ \<Rightarrow> x = Inr () \<and>
          (if ec = None
           then sessions l' = sessions l @ [\<lparr>req = None, actions = [Dispatch_DoRead]\<rparr>] \<and>
             accepts_pending l' = Suc (accepts_pending l - 1)
           else sessions l' = sessions l \<and> accepts_pending l' = accepts_pending l - 1)))"
  by (auto simp: Listener_ctor_def acceptor_steps_def on_accept_def do_accept_def Session_Run_def
      Session_ctor_def act_def Let_def split: option.splits sum.splits)

end
