(* ===== verification/JsonGrisu.thy ===== *)
theory JsonGrisu
  imports Prelude "HOL-Library.Word" "HOL-Library.Signed_Division"
begin

text \<open>
  The namespace \<^verbatim>\<open>dtoa_impl\<close> of \<^verbatim>\<open>nlohmann/json.hpp\<close>: the algorithm Grisu2, which turns a
  \<^verbatim>\<open>double\<close> into decimal digits with integers of 64 bits, and the printing of the digits. The
  word \<open>bits\<close> is the representation of the number; theory JsonGrisuCorrect shows that the digits
  denote a number that rounds to it.
\<close>

unbundle bit_operations_syntax

section \<open>Numbers with a binary exponent\<close>

record diyfp =
  fp_f :: "64 word"
  fp_e :: int

definition diyfp_ctor :: "64 word \<Rightarrow> int \<Rightarrow> diyfp" where
  "diyfp_ctor f e = \<lparr>fp_f = f, fp_e = e\<rparr>"

definition diyfp_sub :: "diyfp \<Rightarrow> diyfp \<Rightarrow> diyfp" where
  "diyfp_sub x y = diyfp_ctor (fp_f x - fp_f y) (fp_e x)"

definition diyfp_mul :: "diyfp \<Rightarrow> diyfp \<Rightarrow> diyfp" where
  "diyfp_mul x y =
     (let u_lo = fp_f x AND 0xFFFFFFFF; u_hi = drop_bit 32 (fp_f x);
          v_lo = fp_f y AND 0xFFFFFFFF; v_hi = drop_bit 32 (fp_f y);
          p0 = u_lo * v_lo; p1 = u_lo * v_hi; p2 = u_hi * v_lo; p3 = u_hi * v_hi;
          p0_hi = drop_bit 32 p0;
          p1_lo = p1 AND 0xFFFFFFFF; p1_hi = drop_bit 32 p1;
          p2_lo = p2 AND 0xFFFFFFFF; p2_hi = drop_bit 32 p2;
          Q = p0_hi + p1_lo + p2_lo;
          Q = Q + push_bit (64 - 32 - 1) 1;
          h = p3 + p2_hi + p1_hi + drop_bit 32 Q
      in diyfp_ctor h (fp_e x + fp_e y + 64))"

text \<open>The assertion excludes the significand zero, for which the loop would not end.\<close>

lemma uint64: "0 \<le> uint (x :: 64 word)" "uint (x :: 64 word) < 2 ^ 64"
  "take_bit 64 (uint (x :: 64 word)) = uint x"
  using unsigned_less [of x, where 'a = int] by (simp_all add: take_bit_int_eq_self)

lemma uint64_pos: "x \<noteq> 0 \<Longrightarrow> 0 < uint (x :: 64 word)"
  using uint64(1) [of x] by (metis less_le uint_0_iff)

lemma push_bit_one:
  fixes f :: "64 word"
  assumes "drop_bit 63 f = 0"
  shows "uint (push_bit 1 f) = 2 * uint f" "uint f < 2 ^ 63"
proof -
  have "drop_bit 63 (uint f) = 0"
    using arg_cong [OF assms, of uint] by (simp add: unsigned_drop_bit_eq uint64(3))
  then have "uint f div 2 ^ 63 = 0" by (simp add: drop_bit_eq_div)
  then show f: "uint f < 2 ^ 63" by (simp add: div_eq_0_iff)
  then show "uint (push_bit 1 f) = 2 * uint f"
    by (simp add: push_bit_eq_mult uint_word_ariths mult.commute)
qed

function diyfp_normalize :: "diyfp \<Rightarrow> diyfp" where
  "diyfp_normalize x =
     (if fp_f x \<noteq> 0 \<and> drop_bit 63 (fp_f x) = 0
      then diyfp_normalize (diyfp_ctor (push_bit 1 (fp_f x)) (fp_e x - 1)) else x)"
  by pat_completeness auto
termination
proof (relation "measure (\<lambda>x. nat (2 ^ 64 - uint (fp_f x)))")
  fix x :: diyfp assume a: "fp_f x \<noteq> 0 \<and> drop_bit 63 (fp_f x) = 0"
  then have "0 < uint (fp_f x)" by (simp add: uint64_pos)
  with push_bit_one [of "fp_f x"] a
  show "(diyfp_ctor (push_bit 1 (fp_f x)) (fp_e x - 1), x) \<in> measure (\<lambda>x. nat (2 ^ 64 - uint (fp_f x)))"
    by (simp add: diyfp_ctor_def)
qed simp

declare diyfp_normalize.simps [simp del]

definition diyfp_normalize_to :: "diyfp \<Rightarrow> int \<Rightarrow> diyfp" where
  "diyfp_normalize_to x target_exponent = (let delta = fp_e x - target_exponent
     in diyfp_ctor (push_bit (nat delta) (fp_f x)) target_exponent)"

section \<open>The boundaries of a number\<close>

record boundaries =
  w_value :: diyfp
  w_minus :: diyfp
  w_plus :: diyfp

text \<open>For \<^verbatim>\<open>double\<close>: 53 bits of precision and the bias 1075.\<close>

definition compute_boundaries :: "64 word \<Rightarrow> boundaries" where
  "compute_boundaries bits =
     (let kPrecision = 53 :: int; kBias = 1024 - 1 + (kPrecision - 1); kMinExp = 1 - kBias;
          kHiddenBit = push_bit 52 1;
          E = drop_bit 52 bits;
          F = bits AND (kHiddenBit - 1);
          is_denormal = E = 0;
          v = if is_denormal then diyfp_ctor F kMinExp
              else diyfp_ctor (F + kHiddenBit) (sint (ucast E :: 32 word) - kBias);
          lower_boundary_is_closer = F = 0 \<and> E > 1;
          m_plus = diyfp_ctor (2 * fp_f v + 1) (fp_e v - 1);
          m_minus = if lower_boundary_is_closer then diyfp_ctor (4 * fp_f v - 1) (fp_e v - 2)
                    else diyfp_ctor (2 * fp_f v - 1) (fp_e v - 1);
          w_plus = diyfp_normalize m_plus;
          w_minus = diyfp_normalize_to m_minus (fp_e w_plus)
      in \<lparr>w_value = diyfp_normalize v, w_minus = w_minus, w_plus = w_plus\<rparr>)"

section \<open>Cached powers of ten\<close>

definition kAlpha :: int where
  "kAlpha = -60"

text \<open>Entry \<open>(f, e, k)\<close> approximates the power \<open>k\<close> of ten by \<open>f\<close> times the power \<open>e\<close> of two.\<close>

type_synonym cached_power = "64 word \<times> int \<times> int"

definition kCachedPowers :: "cached_power list" where
  "kCachedPowers = [
     (0xAB70FE17C79AC6CA, -1060, -300), (0xFF77B1FCBEBCDC4F, -1034, -292), (0xBE5691EF416BD60C, -1007, -284),
     (0x8DD01FAD907FFC3C, -980, -276), (0xD3515C2831559A83, -954, -268), (0x9D71AC8FADA6C9B5, -927, -260),
     (0xEA9C227723EE8BCB, -901, -252), (0xAECC49914078536D, -874, -244), (0x823C12795DB6CE57, -847, -236),
     (0xC21094364DFB5637, -821, -228), (0x9096EA6F3848984F, -794, -220), (0xD77485CB25823AC7, -768, -212),
     (0xA086CFCD97BF97F4, -741, -204), (0xEF340A98172AACE5, -715, -196), (0xB23867FB2A35B28E, -688, -188),
     (0x84C8D4DFD2C63F3B, -661, -180), (0xC5DD44271AD3CDBA, -635, -172), (0x936B9FCEBB25C996, -608, -164),
     (0xDBAC6C247D62A584, -582, -156), (0xA3AB66580D5FDAF6, -555, -148), (0xF3E2F893DEC3F126, -529, -140),
     (0xB5B5ADA8AAFF80B8, -502, -132), (0x87625F056C7C4A8B, -475, -124), (0xC9BCFF6034C13053, -449, -116),
     (0x964E858C91BA2655, -422, -108), (0xDFF9772470297EBD, -396, -100), (0xA6DFBD9FB8E5B88F, -369, -92),
     (0xF8A95FCF88747D94, -343, -84), (0xB94470938FA89BCF, -316, -76), (0x8A08F0F8BF0F156B, -289, -68),
     (0xCDB02555653131B6, -263, -60), (0x993FE2C6D07B7FAC, -236, -52), (0xE45C10C42A2B3B06, -210, -44),
     (0xAA242499697392D3, -183, -36), (0xFD87B5F28300CA0E, -157, -28), (0xBCE5086492111AEB, -130, -20),
     (0x8CBCCC096F5088CC, -103, -12), (0xD1B71758E219652C, -77, -4), (0x9C40000000000000, -50, 4),
     (0xE8D4A51000000000, -24, 12), (0xAD78EBC5AC620000, 3, 20), (0x813F3978F8940984, 30, 28),
     (0xC097CE7BC90715B3, 56, 36), (0x8F7E32CE7BEA5C70, 83, 44), (0xD5D238A4ABE98068, 109, 52),
     (0x9F4F2726179A2245, 136, 60), (0xED63A231D4C4FB27, 162, 68), (0xB0DE65388CC8ADA8, 189, 76),
     (0x83C7088E1AAB65DB, 216, 84), (0xC45D1DF942711D9A, 242, 92), (0x924D692CA61BE758, 269, 100),
     (0xDA01EE641A708DEA, 295, 108), (0xA26DA3999AEF774A, 322, 116), (0xF209787BB47D6B85, 348, 124),
     (0xB454E4A179DD1877, 375, 132), (0x865B86925B9BC5C2, 402, 140), (0xC83553C5C8965D3D, 428, 148),
     (0x952AB45CFA97A0B3, 455, 156), (0xDE469FBD99A05FE3, 481, 164), (0xA59BC234DB398C25, 508, 172),
     (0xF6C69A72A3989F5C, 534, 180), (0xB7DCBF5354E9BECE, 561, 188), (0x88FCF317F22241E2, 588, 196),
     (0xCC20CE9BD35C78A5, 614, 204), (0x98165AF37B2153DF, 641, 212), (0xE2A0B5DC971F303A, 667, 220),
     (0xA8D9D1535CE3B396, 694, 228), (0xFB9B7CD9A4A7443C, 720, 236), (0xBB764C4CA7A44410, 747, 244),
     (0x8BAB8EEFB6409C1A, 774, 252), (0xD01FEF10A657842C, 800, 260), (0x9B10A4E5E9913129, 827, 268),
     (0xE7109BFBA19C0C9D, 853, 276), (0xAC2820D9623BF429, 880, 284), (0x80444B5E7AA7CF85, 907, 292),
     (0xBF21E44003ACDD2D, 933, 300), (0x8E679C2F5E44FF8F, 960, 308), (0xD433179D9C8CB841, 986, 316),
     (0x9E19DB92B4E31BA9, 1013, 324)]"

definition cached_index :: "int \<Rightarrow> int" where
  "cached_index e = (let f = kAlpha - e - 1;
       k = (f * 78913) sdiv 2 ^ 18 + (if 0 < f then 1 else 0)
     in (300 + k + (8 - 1)) sdiv 8)"

definition get_cached_power_for_binary_exponent :: "int \<Rightarrow> cached_power" where
  "get_cached_power_for_binary_exponent e = kCachedPowers ! nat (cached_index e)"

section \<open>Digits\<close>

definition find_largest_pow10 :: "32 word \<Rightarrow> nat \<times> 32 word" where
  "find_largest_pow10 n =
     (if n \<ge> 1000000000 then (10, 1000000000)
      else if n \<ge> 100000000 then (9, 100000000)
      else if n \<ge> 10000000 then (8, 10000000)
      else if n \<ge> 1000000 then (7, 1000000)
      else if n \<ge> 100000 then (6, 100000)
      else if n \<ge> 10000 then (5, 10000)
      else if n \<ge> 1000 then (4, 1000)
      else if n \<ge> 100 then (3, 100)
      else if n \<ge> 10 then (2, 10)
      else (1, 1))"

text \<open>\<^verbatim>\<open>static_cast<char>('0' + d)\<close>\<close>

definition digit_of :: "int \<Rightarrow> char" where
  "digit_of d = char_of (0x30 + d)"

text \<open>
  The last digit is decremented while this brings the number closer. The sums do not overflow, as
  the conditions are ordered to make sure.
\<close>

definition closer :: "64 word \<Rightarrow> 64 word \<Rightarrow> 64 word \<Rightarrow> 64 word \<Rightarrow> bool" where
  "closer dist delta rest ten_k \<longleftrightarrow> rest < dist \<and> delta - rest \<ge> ten_k \<and>
     (rest + ten_k < dist \<or> dist - rest > rest + ten_k - dist)"

definition decrement_last :: "string \<Rightarrow> string" where
  "decrement_last buf = butlast buf @ [char_of (of_char (last buf) - 1 :: int)]"

text \<open>The assertions at the entry: \<open>dist\<close> and \<open>rest\<close> are at most \<open>delta\<close>, and \<open>ten_k\<close> is positive.\<close>

lemma closer_progress:
  assumes "closer dist delta rest ten_k" "rest \<le> delta" "0 < ten_k"
  shows "uint (rest + ten_k) = uint rest + uint ten_k" "rest + ten_k \<le> delta"
proof -
  have "uint (delta - rest) = uint delta - uint rest"
    using assms(2) by (simp add: uint_sub_if' word_le_def)
  with assms(1) have s: "uint rest + uint ten_k \<le> uint delta"
    by (simp add: closer_def word_le_def)
  with unsigned_less [of delta, where 'a = int] show u: "uint (rest + ten_k) = uint rest + uint ten_k"
    by (simp add: uint_word_ariths)
  with s show "rest + ten_k \<le> delta" by (simp add: word_le_def)
qed

function grisu2_round :: "string \<Rightarrow> 64 word \<Rightarrow> 64 word \<Rightarrow> 64 word \<Rightarrow> 64 word \<Rightarrow> string" where
  "grisu2_round buf dist delta rest ten_k =
     (if rest \<le> delta \<and> 0 < ten_k \<and> closer dist delta rest ten_k
      then grisu2_round (decrement_last buf) dist delta (rest + ten_k) ten_k else buf)"
  by pat_completeness auto
termination
proof (relation "measure (\<lambda>(buf, dist, delta, rest, ten_k). nat (uint delta - uint rest))")
  fix buf dist delta rest and ten_k :: "64 word"
  assume a: "rest \<le> delta \<and> 0 < ten_k \<and> closer dist delta rest ten_k"
  from a have "0 < uint ten_k" by (simp add: word_less_def)
  with a closer_progress [of dist delta rest ten_k] show
    "((decrement_last buf, dist, delta, rest + ten_k, ten_k), buf, dist, delta, rest, ten_k)
       \<in> measure (\<lambda>(buf, dist, delta, rest, ten_k). nat (uint delta - uint rest))"
    by (simp add: word_le_def)
qed simp

declare grisu2_round.simps [simp del]

text \<open>
  The digits of the integral part: \<open>n\<close> digits are left of \<open>p1\<close>, \<open>pow10\<close> is the power of the next
  one, \<open>s\<close> is \<^verbatim>\<open>-one.e\<close>. The result is the buffer and the change of the exponent when enough
  digits have been generated.
\<close>

fun integral_digits ::
  "nat \<Rightarrow> 32 word \<Rightarrow> 32 word \<Rightarrow> nat \<Rightarrow> 64 word \<Rightarrow> 64 word \<Rightarrow> 64 word \<Rightarrow> string \<Rightarrow> (string \<times> int) option \<times> string"
where
  "integral_digits 0 pow10 p1 s p2 delta dist buffer = (None, buffer)"
| "integral_digits (Suc n) pow10 p1 s p2 delta dist buffer =
     (let d = p1 div pow10; r = p1 mod pow10;
          buffer = buffer @ [digit_of (uint d)];
          rest = push_bit s (ucast r) + p2
      in if rest \<le> delta
         then (Some (grisu2_round buffer dist delta rest (push_bit s (ucast pow10)), int n), buffer)
         else integral_digits n (pow10 div 10) r s p2 delta dist buffer)"

text \<open>
  The digits of the fractional part. Each pass makes one more of the low bits of \<open>p2\<close> zero, so that
  the loop ends.
\<close>

definition next_p2 :: "nat \<Rightarrow> 64 word \<Rightarrow> 64 word" where
  "next_p2 s p2 = (p2 * 10) AND (push_bit s 1 - 1)"

lemma next_p2_take: "s < 64 \<Longrightarrow> uint (next_p2 s p2) = (uint p2 * 10) mod 2 ^ s"
proof -
  assume s: "s < 64"
  have "push_bit s 1 - 1 = (mask s :: 64 word)" by (simp add: mask_eq_exp_minus_1 push_bit_eq_mult)
  then have "next_p2 s p2 = take_bit s (p2 * 10)" by (simp add: next_p2_def take_bit_eq_mask)
  then have "uint (next_p2 s p2) = take_bit s (uint (p2 * 10))" by (simp add: unsigned_take_bit_eq)
  also have "\<dots> = take_bit s (uint p2 * 10)"
    using mod_mod_cancel [OF le_imp_power_dvd [of s 64 "2 :: int"], of "uint p2 * 10"] s
    by (simp add: uint_word_ariths take_bit_eq_mod)
  finally show ?thesis by (simp add: take_bit_eq_mod)
qed

definition low_zeros :: "64 word \<Rightarrow> nat set" where
  "low_zeros p2 = {t. t < 64 \<and> 2 ^ Suc t dvd uint p2}"

lemma next_p2_dvd:
  assumes "s < 64" "next_p2 s p2 \<noteq> 0" "2 ^ t dvd uint p2 * 10"
  shows "2 ^ t dvd uint (next_p2 s p2)"
proof -
  have q: "uint (next_p2 s p2) = (uint p2 * 10) mod 2 ^ s" by (rule next_p2_take [OF assms(1)])
  show ?thesis
  proof (cases "t \<le> s")
    case True
    then have "(2 :: int) ^ t dvd 2 ^ s" by (rule le_imp_power_dvd)
    with assms(3) q show ?thesis by (simp add: dvd_mod)
  next
    case False
    then have "(2 :: int) ^ s dvd 2 ^ t" by (intro le_imp_power_dvd) simp
    then have "(2 :: int) ^ s dvd uint p2 * 10" by (rule dvd_trans [OF _ assms(3)])
    with q have "uint (next_p2 s p2) = 0" by simp
    with assms(2) show ?thesis by (simp add: uint_0_iff)
  qed
qed

lemma low_zeros_next:
  assumes "s < 64" "next_p2 s p2 \<noteq> 0"
  shows "low_zeros p2 \<subset> low_zeros (next_p2 s p2)"
proof
  show "low_zeros p2 \<subseteq> low_zeros (next_p2 s p2)"
  proof
    fix t assume "t \<in> low_zeros p2"
    then have t: "t < 64" "2 ^ Suc t dvd uint p2" by (simp_all add: low_zeros_def)
    from next_p2_dvd [OF assms dvd_mult2 [OF t(2)]] t(1) show "t \<in> low_zeros (next_p2 s p2)"
      by (simp add: low_zeros_def)
  qed
  have "uint p2 \<noteq> 0"
    using next_p2_take [OF assms(1), of p2] assms(2) by (auto simp: uint_0_iff)
  with uint64(1) [of p2] have "0 < uint p2" by linarith
  then have n: "\<not> 2 ^ Suc 63 dvd uint p2"
    using uint64(2) [of p2] by (intro zdvd_not_zless) simp_all
  define t where "t = (LEAST t. \<not> 2 ^ Suc t dvd uint p2)"
  have t: "\<not> 2 ^ Suc t dvd uint p2" "t \<le> 63"
    unfolding t_def using n by (rule LeastI, rule Least_le)
  have "2 ^ t dvd uint p2"
  proof (cases t)
    case (Suc k)
    then have "k < t" by simp
    from not_less_Least [OF this [unfolded t_def]] Suc show ?thesis by simp
  qed simp
  then have "2 ^ t * 2 dvd uint p2 * 10" by (rule mult_dvd_mono) simp
  then have "2 ^ Suc t dvd uint p2 * 10" by (simp add: mult.commute)
  from next_p2_dvd [OF assms this] t have "t \<in> low_zeros (next_p2 s p2)" "t \<notin> low_zeros p2"
    by (simp_all add: low_zeros_def)
  then show "low_zeros p2 \<noteq> low_zeros (next_p2 s p2)" by blast
qed

lemma low_zeros_measure:
  assumes "s < 64" "next_p2 s p2 \<noteq> 0"
  shows "64 - card (low_zeros (next_p2 s p2)) < 64 - card (low_zeros p2)"
proof -
  have f: "low_zeros p2 \<subseteq> {..<64}" for p2 by (auto simp: low_zeros_def)
  have "finite (low_zeros (next_p2 s p2))" by (rule finite_subset [OF f]) simp
  then have "card (low_zeros p2) < card (low_zeros (next_p2 s p2))"
    using low_zeros_next [OF assms] by (rule psubset_card_mono)
  moreover have "card (low_zeros (next_p2 s p2)) \<le> 64"
    using card_mono [OF _ f] by fastforce
  ultimately show ?thesis by linarith
qed

function fractional_digits ::
  "nat \<Rightarrow> nat \<Rightarrow> 64 word \<Rightarrow> 64 word \<Rightarrow> 64 word \<Rightarrow> string \<Rightarrow> string \<times> int"
where
  "fractional_digits s m p2 delta dist buffer =
     (let d = drop_bit s (p2 * 10);
          buffer = buffer @ [digit_of (uint d)];
          p2 = next_p2 s p2;
          delta = delta * 10;
          dist = dist * 10
      in if s < 64 \<and> \<not> p2 \<le> delta then fractional_digits s (m + 1) p2 delta dist buffer
         else (grisu2_round buffer dist delta p2 (push_bit s 1), - int (m + 1)))"
  by pat_completeness auto
termination
proof (relation "measure (\<lambda>(s, m, p2, delta, dist, buffer). 64 - card (low_zeros p2))")
  fix s m and p2 delta dist :: "64 word" and buffer d buffer' p2' delta' dist'
  assume "p2' = next_p2 s p2" "s < 64 \<and> \<not> p2' \<le> delta'"
  moreover from this have "p2' \<noteq> 0" by auto
  ultimately show "((s, m + 1, p2', delta', dist', buffer'), s, m, p2, delta, dist, buffer)
      \<in> measure (\<lambda>(s, m, p2, delta, dist, buffer). 64 - card (low_zeros p2))"
    using low_zeros_measure by simp
qed simp

declare fractional_digits.simps [simp del]

definition grisu2_digit_gen :: "int \<Rightarrow> diyfp \<Rightarrow> diyfp \<Rightarrow> diyfp \<Rightarrow> string \<times> int" where
  "grisu2_digit_gen decimal_exponent M_minus w M_plus =
     (let delta = fp_f (diyfp_sub M_plus M_minus);
          dist = fp_f (diyfp_sub M_plus w);
          s = nat (- fp_e M_plus);
          one_f = push_bit s 1;
          p1 = ucast (drop_bit s (fp_f M_plus)) :: 32 word;
          p2 = fp_f M_plus AND (one_f - 1);
          (k, pow10) = find_largest_pow10 p1
      in case integral_digits k pow10 p1 s p2 delta dist [] of
           (Some (buffer, n), _) \<Rightarrow> (buffer, decimal_exponent + n)
         | (None, buffer) \<Rightarrow>
             (case fractional_digits s 0 p2 delta dist buffer of
                (buffer, n) \<Rightarrow> (buffer, decimal_exponent + n)))"

section \<open>Grisu2\<close>

definition grisu2_scaled :: "diyfp \<Rightarrow> diyfp \<Rightarrow> diyfp \<Rightarrow> string \<times> int" where
  "grisu2_scaled m_minus v m_plus =
     (let (c_f, c_e, c_k) = get_cached_power_for_binary_exponent (fp_e m_plus);
          c_minus_k = diyfp_ctor c_f c_e;
          w = diyfp_mul v c_minus_k;
          w_minus = diyfp_mul m_minus c_minus_k;
          w_plus = diyfp_mul m_plus c_minus_k;
          M_minus = diyfp_ctor (fp_f w_minus + 1) (fp_e w_minus);
          M_plus = diyfp_ctor (fp_f w_plus - 1) (fp_e w_plus)
      in grisu2_digit_gen (- c_k) M_minus w M_plus)"

definition grisu2 :: "64 word \<Rightarrow> string \<times> int" where
  "grisu2 bits = (let b = compute_boundaries bits in grisu2_scaled (w_minus b) (w_value b) (w_plus b))"

section \<open>The text of a number\<close>

definition append_exponent :: "int \<Rightarrow> string" where
  "append_exponent e =
     (let k = \<bar>e\<bar> in
      (if e < 0 then ''-'' else ''+'') @
      (if k < 10 then [CHR ''0'', digit_of k]
       else if k < 100 then [digit_of (k div 10), digit_of (k mod 10)]
       else [digit_of (k div 100), digit_of (k mod 100 div 10), digit_of (k mod 100 mod 10)]))"

definition format_buffer :: "string \<Rightarrow> int \<Rightarrow> int \<Rightarrow> int \<Rightarrow> string" where
  "format_buffer buf decimal_exponent min_exp max_exp =
     (let k = int (length buf); n = k + decimal_exponent in
      if k \<le> n \<and> n \<le> max_exp then buf @ replicate (nat (n - k)) (CHR ''0'') @ ''.0''
      else if 0 < n \<and> n \<le> max_exp then take (nat n) buf @ ''.'' @ drop (nat n) buf
      else if min_exp < n \<and> n \<le> 0 then ''0.'' @ replicate (nat (- n)) (CHR ''0'') @ buf
      else (if k = 1 then buf else take 1 buf @ ''.'' @ drop 1 buf) @ ''e'' @ append_exponent (n - 1))"

text \<open>
  \<^verbatim>\<open>to_chars\<close> takes the representation of a finite \<^verbatim>\<open>double\<close>; the highest bit is the sign.
\<close>

definition to_chars :: "64 word \<Rightarrow> string" where
  "to_chars bits =
     (let sign = bit bits 63; bits = bits AND 0x7FFFFFFFFFFFFFFF
      in (if sign then ''-'' else []) @
         (if bits = 0 then ''0.0''
          else case grisu2 bits of (buf, decimal_exponent) \<Rightarrow> format_buffer buf decimal_exponent (-4) 15))"

end
