(* ===== verification/JsonDump.thy ===== *)
theory JsonDump
  imports JsonValue JsonGrisu "HOL-Library.Multiset" "HOL-Library.List_Lexorder" "HOL-Library.Char_ord"
begin

text \<open>
  Class \<^verbatim>\<open>serializer\<close> of \<^verbatim>\<open>nlohmann/json.hpp\<close> with \<^verbatim>\<open>basic_json::dump\<close>: a value is written to an
  output adapter that appends to a string. The members of an object come in the order of the keys,
  as \<^verbatim>\<open>std::map\<close> keeps them; \<open>repr\<close> gives the 64 bits of the \<^verbatim>\<open>double\<close> a rational stands for.
\<close>

section \<open>The serializer and its output\<close>

datatype error_handler_t = Strict | Replace | Ignore

record serializer =
  written :: string
  indent_char :: char
  indent_string :: string
  error_handler :: error_handler_t

definition serializer_ctor :: "char \<Rightarrow> error_handler_t \<Rightarrow> serializer" where
  "serializer_ctor ichar h = \<lparr>written = [], indent_char = ichar, indent_string = replicate 512 ichar,
     error_handler = h\<rparr>"

definition write_characters :: "string \<Rightarrow> serializer \<Rightarrow> serializer" where
  "write_characters cs s = s\<lparr>written := written s @ cs\<rparr>"

abbreviation write_character :: "char \<Rightarrow> serializer \<Rightarrow> serializer" where
  "write_character c \<equiv> write_characters [c]"

text \<open>\<^verbatim>\<open>write_characters(indent_string.c_str(), n)\<close>: the string and its terminator can be read.\<close>

definition write_indent :: "32 word \<Rightarrow> serializer \<Rightarrow> (unit, serializer) result" where
  "write_indent n s = (let cs = indent_string s @ [CHR 0x00] in
     if unat n \<le> length cs then returns () (write_characters (take (unat n) cs) s)
     else raises (Undefined Bad_index) s)"

definition grow_indent :: "32 word \<Rightarrow> serializer \<Rightarrow> serializer" where
  "grow_indent new_indent s = (if length (indent_string s) < unat new_indent
     then s\<lparr>indent_string := indent_string s @ replicate (length (indent_string s)) (CHR '' '')\<rparr> else s)"

text \<open>One action after the other; an error ends the whole.\<close>

definition then_do :: "(unit, 's) result \<Rightarrow> ('s \<Rightarrow> (unit, 's) result) \<Rightarrow> (unit, 's) result" where
  "then_do r k = (case r of (Inl e, s) \<Rightarrow> raises e s | (Inr u, s) \<Rightarrow> k s)"

section \<open>Decoding UTF-8\<close>

definition utf8d :: "nat list" where
  "utf8d = [
     0, 0, 0, 0, 0, 0, 0, 0, 0, 0, 0, 0, 0, 0, 0, 0, 0, 0, 0, 0, 0, 0, 0, 0, 0, 0, 0, 0, 0, 0, 0, 0,
     0, 0, 0, 0, 0, 0, 0, 0, 0, 0, 0, 0, 0, 0, 0, 0, 0, 0, 0, 0, 0, 0, 0, 0, 0, 0, 0, 0, 0, 0, 0, 0,
     0, 0, 0, 0, 0, 0, 0, 0, 0, 0, 0, 0, 0, 0, 0, 0, 0, 0, 0, 0, 0, 0, 0, 0, 0, 0, 0, 0, 0, 0, 0, 0,
     0, 0, 0, 0, 0, 0, 0, 0, 0, 0, 0, 0, 0, 0, 0, 0, 0, 0, 0, 0, 0, 0, 0, 0, 0, 0, 0, 0, 0, 0, 0, 0,
     1, 1, 1, 1, 1, 1, 1, 1, 1, 1, 1, 1, 1, 1, 1, 1, 9, 9, 9, 9, 9, 9, 9, 9, 9, 9, 9, 9, 9, 9, 9, 9,
     7, 7, 7, 7, 7, 7, 7, 7, 7, 7, 7, 7, 7, 7, 7, 7, 7, 7, 7, 7, 7, 7, 7, 7, 7, 7, 7, 7, 7, 7, 7, 7,
     8, 8, 2, 2, 2, 2, 2, 2, 2, 2, 2, 2, 2, 2, 2, 2, 2, 2, 2, 2, 2, 2, 2, 2, 2, 2, 2, 2, 2, 2, 2, 2,
     10, 3, 3, 3, 3, 3, 3, 3, 3, 3, 3, 3, 3, 4, 3, 3, 11, 6, 6, 6, 5, 8, 8, 8, 8, 8, 8, 8, 8, 8, 8, 8,
     0, 1, 2, 3, 5, 8, 7, 1, 1, 1, 4, 6, 1, 1, 1, 1, 1, 1, 1, 1, 1, 1, 1, 1, 1, 1, 1, 1, 1, 1, 1, 1,
     1, 0, 1, 1, 1, 1, 1, 0, 1, 0, 1, 1, 1, 1, 1, 1, 1, 2, 1, 1, 1, 1, 1, 2, 1, 2, 1, 1, 1, 1, 1, 1,
     1, 1, 1, 1, 1, 1, 1, 2, 1, 1, 1, 1, 1, 1, 1, 1, 1, 2, 1, 1, 1, 1, 1, 1, 1, 2, 1, 1, 1, 1, 1, 1,
     1, 1, 1, 1, 1, 1, 1, 3, 1, 3, 1, 1, 1, 1, 1, 1, 1, 3, 1, 1, 1, 1, 1, 3, 1, 3, 1, 1, 1, 1, 1, 1,
     1, 3, 1, 1, 1, 1, 1, 1, 1, 1, 1, 1, 1, 1, 1, 1]"

definition UTF8_ACCEPT :: nat where
  "UTF8_ACCEPT = 0"

definition UTF8_REJECT :: nat where
  "UTF8_REJECT = 1"

definition decode :: "nat \<Rightarrow> 32 word \<Rightarrow> char \<Rightarrow> nat \<times> 32 word" where
  "decode state codep c =
     (let byte = of_char c; type = utf8d ! byte;
          codep = (if state \<noteq> UTF8_ACCEPT then (of_nat byte AND 0x3F) OR push_bit 6 codep
                   else drop_bit type 0xFF AND of_nat byte)
      in (utf8d ! (256 + state * 16 + type), codep))"

section \<open>Escaping\<close>

definition hex_bytes :: "nat \<Rightarrow> string" where
  "hex_bytes byte = [''0123456789ABCDEF'' ! (byte div 16), ''0123456789ABCDEF'' ! (byte mod 16)]"

text \<open>The format \<^verbatim>\<open>%04x\<close> of a number of 16 bits.\<close>

definition format_04x :: "16 word \<Rightarrow> string" where
  "format_04x w = map (\<lambda>k. ''0123456789abcdef'' ! unat (drop_bit (4 * k) w AND 0xF)) [3, 2, 1, 0]"

text \<open>
  \<open>string_buffer\<close> has the bytes written to the buffer of 512 since it was flushed, the index
  \<^verbatim>\<open>bytes\<close> is its length.
\<close>

record escape =
  utf8_state :: nat
  codepoint :: "32 word"
  string_buffer :: string
  bytes_after_last_accept :: nat
  undumped_chars :: nat

definition escape0 :: escape where
  "escape0 = \<lparr>utf8_state = UTF8_ACCEPT, codepoint = 0, string_buffer = [], bytes_after_last_accept = 0,
     undumped_chars = 0\<rparr>"

text \<open>Writing past the end of the buffer is undefined; \<^verbatim>\<open>snprintf\<close> writes a terminator, too.\<close>

definition buffer_put :: "string \<Rightarrow> nat \<Rightarrow> escape \<Rightarrow> error + escape" where
  "buffer_put cs terminator e = (if length (string_buffer e) + length cs + terminator \<le> 512
     then Inr (e\<lparr>string_buffer := string_buffer e @ cs\<rparr>) else Inl (Undefined Bad_index))"

definition short_escape :: "32 word \<Rightarrow> char option" where
  "short_escape cp = map_of [(0x08, CHR ''b''), (0x09, CHR ''t''), (0x0A, CHR ''n''), (0x0C, CHR ''f''),
     (0x0D, CHR ''r''), (0x22, CHR 0x22), (0x5C, CHR 0x5C)] cp"

definition put_codepoint :: "bool \<Rightarrow> char \<Rightarrow> escape \<Rightarrow> error + escape" where
  "put_codepoint ensure_ascii c e = (let cp = codepoint e in
     case short_escape cp of
       Some x \<Rightarrow> buffer_put [CHR 0x5C, x] 0 e
     | None \<Rightarrow>
         if cp \<le> 0x1F \<or> ensure_ascii \<and> cp \<ge> 0x7F then
           if cp \<le> 0xFFFF then buffer_put (CHR 0x5C # CHR ''u'' # format_04x (ucast cp)) 1 e
           else buffer_put (CHR 0x5C # CHR ''u'' # format_04x (ucast (0xD7C0 + drop_bit 10 cp)) @
             CHR 0x5C # CHR ''u'' # format_04x (ucast (0xDC00 + (cp AND 0x3FF)))) 1 e
         else buffer_put [c] 0 e)"

definition flush :: "escape \<Rightarrow> serializer \<Rightarrow> escape \<times> serializer" where
  "flush e s = (if 512 - length (string_buffer e) < 13
     then (e\<lparr>string_buffer := []\<rparr>, write_characters (string_buffer e) s) else (e, s))"

definition replacement :: "bool \<Rightarrow> string" where
  "replacement ensure_ascii = (if ensure_ascii then CHR 0x5C # ''ufffd'' else [CHR 0xEF, CHR 0xBF, CHR 0xBD])"

definition remember :: "escape \<Rightarrow> escape" where
  "remember e = e\<lparr>bytes_after_last_accept := length (string_buffer e)\<rparr>"

text \<open>One pass of the loop for the byte \<open>c\<close> at position \<open>i\<close>; the result has the next position.\<close>

definition escape_step ::
  "bool \<Rightarrow> char \<Rightarrow> nat \<Rightarrow> escape \<Rightarrow> serializer \<Rightarrow> (nat \<times> escape, serializer) result"
where
  "escape_step ensure_ascii c i e s =
     (let (st, cp) = decode (utf8_state e) (codepoint e) c;
          e = e\<lparr>utf8_state := st, codepoint := cp\<rparr>
      in if st = UTF8_ACCEPT then
           (case put_codepoint ensure_ascii c e of
              Inl x \<Rightarrow> raises x s
            | Inr e \<Rightarrow> (case flush e s of (e, s) \<Rightarrow>
                returns (i + 1, (remember e)\<lparr>undumped_chars := 0\<rparr>) s))
         else if st = UTF8_REJECT then
           (case error_handler s of
              Strict \<Rightarrow> raises (type_error_create 316 (''invalid UTF-8 byte at index '' @ nat_to_string i @
                '': 0x'' @ hex_bytes (of_char c))) s
            | h \<Rightarrow>
                (let next = (if undumped_chars e > 0 then i else i + 1);
                     e = e\<lparr>string_buffer := take (bytes_after_last_accept e) (string_buffer e)\<rparr>
                 in case if h = Replace then
                           (case buffer_put (replacement ensure_ascii) 0 e of
                              Inl x \<Rightarrow> raises x s
                            | Inr e \<Rightarrow> (case flush e s of (e, s) \<Rightarrow> returns (remember e) s))
                         else returns e s of
                      (Inl x, s) \<Rightarrow> raises x s
                    | (Inr e, s) \<Rightarrow> returns (next, e\<lparr>undumped_chars := 0, utf8_state := UTF8_ACCEPT\<rparr>) s))
         else (case if ensure_ascii then Inr e else buffer_put [c] 0 e of
                 Inl x \<Rightarrow> raises x s
               | Inr e \<Rightarrow> returns (i + 1, e\<lparr>undumped_chars := undumped_chars e + 1\<rparr>) s))"

text \<open>A byte is read again at most once.\<close>

lemma escape_step_progress:
  assumes "escape_step ea c i e s = returns (i', e') s'"
  shows "i' = i + 1 \<or> i' = i \<and> undumped_chars e' < undumped_chars e"
proof -
  obtain st cp where d: "decode (utf8_state e) (codepoint e) c = (st, cp)" by fastforce
  have p: "undumped_chars x = undumped_chars y" if "buffer_put cs t y = Inr x" for cs t x y
    using that by (auto simp: buffer_put_def split: if_splits)
  show ?thesis
    using assms unfolding escape_step_def d
    by (auto simp: Let_def flush_def remember_def dest!: p
        split: if_splits sum.splits error_handler_t.splits prod.splits)
qed

function escape_loop ::
  "bool \<Rightarrow> string \<Rightarrow> nat \<Rightarrow> escape \<Rightarrow> serializer \<Rightarrow> (escape, serializer) result"
where
  "escape_loop ensure_ascii str i e s =
     (if i < length str
      then (case escape_step ensure_ascii (str ! i) i e s of
              (Inl x, s) \<Rightarrow> raises x s
            | (Inr (i, e), s) \<Rightarrow> escape_loop ensure_ascii str i e s)
      else returns e s)"
  by pat_completeness auto
termination
proof (relation "measures [\<lambda>(ea, str, i, e, s). length str - i, \<lambda>(ea, str, i, e, s). undumped_chars e]")
  fix ea str i e s x s' y i' e'
  assume "i < length str" "(x, s') = escape_step ea (str ! i) i e s" "x = Inr y" "(i', e') = y"
  then show "((ea, str, i', e', s'), ea, str, i, e, s)
      \<in> measures [\<lambda>(ea, str, i, e, s). length str - i, \<lambda>(ea, str, i, e, s). undumped_chars e]"
    using escape_step_progress [of ea "str ! i" i e s i' e' s'] by auto
qed simp

declare escape_loop.simps [simp del]

definition dump_escaped :: "string \<Rightarrow> bool \<Rightarrow> serializer \<Rightarrow> (unit, serializer) result" where
  "dump_escaped str ensure_ascii s =
     (case escape_loop ensure_ascii str 0 escape0 s of
        (Inl x, s) \<Rightarrow> raises x s
      | (Inr e, s) \<Rightarrow>
          if utf8_state e = UTF8_ACCEPT then
            returns () (if string_buffer e \<noteq> [] then write_characters (string_buffer e) s else s)
          else let accepted = take (bytes_after_last_accept e) (string_buffer e) in
            (case error_handler s of
               Strict \<Rightarrow> raises (type_error_create 316 (''incomplete UTF-8 string; last byte: 0x'' @
                 hex_bytes (of_char (last str)))) s
             | Ignore \<Rightarrow> returns () (write_characters accepted s)
             | Replace \<Rightarrow> returns () (write_characters (replacement ensure_ascii) (write_characters accepted s))))"

section \<open>Integers\<close>

function count_digits :: "64 word \<Rightarrow> nat \<Rightarrow> nat" where
  "count_digits x n_digits =
     (if x < 10 then n_digits
      else if x < 100 then n_digits + 1
      else if x < 1000 then n_digits + 2
      else if x < 10000 then n_digits + 3
      else count_digits (x div 10000) (n_digits + 4))"
  by pat_completeness auto
termination
proof (relation "measure (\<lambda>(x, n). unat x)")
  fix x :: "64 word" and n
  assume "\<not> x < 10000"
  then have "10000 \<le> unat x" by (simp add: word_less_nat_alt)
  then show "((x div 10000, n + 4), x, n) \<in> measure (\<lambda>(x, n). unat x)" by (simp add: unat_div)
qed simp

declare count_digits.simps [simp del]

definition digits_to_99 :: "string list" where
  "digits_to_99 = [
     ''00'', ''01'', ''02'', ''03'', ''04'', ''05'', ''06'', ''07'', ''08'', ''09'',
     ''10'', ''11'', ''12'', ''13'', ''14'', ''15'', ''16'', ''17'', ''18'', ''19'',
     ''20'', ''21'', ''22'', ''23'', ''24'', ''25'', ''26'', ''27'', ''28'', ''29'',
     ''30'', ''31'', ''32'', ''33'', ''34'', ''35'', ''36'', ''37'', ''38'', ''39'',
     ''40'', ''41'', ''42'', ''43'', ''44'', ''45'', ''46'', ''47'', ''48'', ''49'',
     ''50'', ''51'', ''52'', ''53'', ''54'', ''55'', ''56'', ''57'', ''58'', ''59'',
     ''60'', ''61'', ''62'', ''63'', ''64'', ''65'', ''66'', ''67'', ''68'', ''69'',
     ''70'', ''71'', ''72'', ''73'', ''74'', ''75'', ''76'', ''77'', ''78'', ''79'',
     ''80'', ''81'', ''82'', ''83'', ''84'', ''85'', ''86'', ''87'', ''88'', ''89'',
     ''90'', ''91'', ''92'', ''93'', ''94'', ''95'', ''96'', ''97'', ''98'', ''99'']"

text \<open>Two digits at a time are written backwards, from the position \<open>ptr\<close> downwards.\<close>

function fill_digits :: "64 word \<Rightarrow> nat \<Rightarrow> string \<Rightarrow> string" where
  "fill_digits abs_value ptr buffer =
     (if abs_value \<ge> 100
      then let ds = digits_to_99 ! unat (abs_value mod 100)
           in fill_digits (abs_value div 100) (ptr - 2) (buffer[ptr - 1 := ds ! 1, ptr - 2 := ds ! 0])
      else if abs_value \<ge> 10
      then let ds = digits_to_99 ! unat abs_value in buffer[ptr - 1 := ds ! 1, ptr - 2 := ds ! 0]
      else buffer[ptr - 1 := char_of (0x30 + unat abs_value)])"
  by pat_completeness auto
termination
proof (relation "measure (\<lambda>(x, p, b). unat x)")
  fix x :: "64 word" and p b ds
  assume "x \<ge> 100"
  then have "100 \<le> unat x" by (simp add: word_le_nat_alt)
  then show "((x div 100, p - 2, b[p - 1 := ds ! 1, p - 2 := ds ! 0]), x, p, b) \<in> measure (\<lambda>(x, p, b). unat x)"
    by (simp add: unat_div)
qed simp

declare fill_digits.simps [simp del]

definition number_buffer :: string where
  "number_buffer = replicate 64 (CHR 0x00)"

definition remove_sign :: "64 word \<Rightarrow> 64 word" where
  "remove_sign x = - (x + 1) + 1"

definition dump_unsigned :: "64 word \<Rightarrow> serializer \<Rightarrow> serializer" where
  "dump_unsigned x s = (if x = 0 then write_character (CHR ''0'') s
     else let n_chars = count_digits x 1
          in write_characters (take n_chars (fill_digits x n_chars number_buffer)) s)"

definition dump_integer :: "64 word \<Rightarrow> serializer \<Rightarrow> serializer" where
  "dump_integer x s = (if x = 0 then write_character (CHR ''0'') s
     else if x <s 0 then
       let buffer = number_buffer[0 := CHR ''-'']; abs_value = remove_sign x;
           n_chars = 1 + count_digits abs_value 1
       in write_characters (take n_chars (fill_digits abs_value n_chars buffer)) s
     else dump_unsigned x s)"

section \<open>Values\<close>

text \<open>\<^verbatim>\<open>std::isfinite\<close>\<close>

definition isfinite :: "64 word \<Rightarrow> bool" where
  "isfinite bits \<longleftrightarrow> drop_bit 52 bits AND 0x7FF \<noteq> 0x7FF"

definition dump_float :: "64 word \<Rightarrow> serializer \<Rightarrow> serializer" where
  "dump_float bits s = write_characters (if isfinite bits then to_chars bits else ''null'') s"

lemma size_sort_key: "size_list f (sort_key g xs) = size_list f xs"
proof -
  have "mset (map f (sort_key g xs)) = mset (map f xs)" by simp
  then have "sum_list (map f (sort_key g xs)) = sum_list (map f xs)" by (metis sum_mset_sum_list)
  then show ?thesis by (simp add: size_list_conv_sum_list)
qed

text \<open>
  The members of an object and the elements of an array, each with its indentation and what comes
  between them.
\<close>

function dump_value ::
  "(rat \<Rightarrow> 64 word) \<Rightarrow> bool \<Rightarrow> bool \<Rightarrow> 32 word \<Rightarrow> 32 word \<Rightarrow> json \<Rightarrow> serializer \<Rightarrow> (unit, serializer) result"
and dump_members ::
  "(rat \<Rightarrow> 64 word) \<Rightarrow> bool \<Rightarrow> bool \<Rightarrow> 32 word \<Rightarrow> 32 word \<Rightarrow> (string \<times> json) list \<Rightarrow> serializer \<Rightarrow>
   (unit, serializer) result"
and dump_elements ::
  "(rat \<Rightarrow> 64 word) \<Rightarrow> bool \<Rightarrow> bool \<Rightarrow> 32 word \<Rightarrow> 32 word \<Rightarrow> json list \<Rightarrow> serializer \<Rightarrow> (unit, serializer) result"
where
  "dump_value repr pretty ea step current (Object ms) s =
     (if ms = [] then returns () (write_characters ''{}'' s)
      else if pretty then
        (let new_indent = current + step; s = grow_indent new_indent (write_characters (''{'' @ [CHR 0x0A]) s)
         in then_do (dump_members repr pretty ea step new_indent (sort_key fst ms) s) (\<lambda>s.
            then_do (write_indent current (write_character (CHR 0x0A) s)) (\<lambda>s.
              returns () (write_character (CHR ''}'') s))))
      else then_do (dump_members repr pretty ea step current (sort_key fst ms) (write_character (CHR ''{'') s))
        (\<lambda>s. returns () (write_character (CHR ''}'') s)))"
| "dump_value repr pretty ea step current (Array vs) s =
     (if vs = [] then returns () (write_characters ''[]'' s)
      else if pretty then
        (let new_indent = current + step; s = grow_indent new_indent (write_characters (''['' @ [CHR 0x0A]) s)
         in then_do (dump_elements repr pretty ea step new_indent vs s) (\<lambda>s.
            then_do (write_indent current (write_character (CHR 0x0A) s)) (\<lambda>s.
              returns () (write_character (CHR '']'') s))))
      else then_do (dump_elements repr pretty ea step current vs (write_character (CHR ''['') s))
        (\<lambda>s. returns () (write_character (CHR '']'') s)))"
| "dump_value repr pretty ea step current (String str) s =
     then_do (dump_escaped str ea (write_character (CHR 0x22) s))
       (\<lambda>s. returns () (write_character (CHR 0x22) s))"
| "dump_value repr pretty ea step current (Boolean b) s =
     returns () (write_characters (if b then ''true'' else ''false'') s)"
| "dump_value repr pretty ea step current (Number_integer i) s = returns () (dump_integer i s)"
| "dump_value repr pretty ea step current (Number_unsigned u) s = returns () (dump_unsigned u s)"
| "dump_value repr pretty ea step current (Number_float x) s = returns () (dump_float (repr x) s)"
| "dump_value repr pretty ea step current Discarded s = returns () (write_characters ''<discarded>'' s)"
| "dump_value repr pretty ea step current Null s = returns () (write_characters ''null'' s)"
| "dump_members repr pretty ea step indent [] s = returns () s"
| "dump_members repr pretty ea step indent ((k, v) # ms) s =
     then_do (if pretty then write_indent indent s else returns () s) (\<lambda>s.
     then_do (dump_escaped k ea (write_character (CHR 0x22) s)) (\<lambda>s.
     then_do (dump_value repr pretty ea step indent v
       (write_characters (CHR 0x22 # (if pretty then '': '' else '':'')) s)) (\<lambda>s.
       if ms = [] then returns () s
       else dump_members repr pretty ea step indent ms
         (write_characters (if pretty then '','' @ [CHR 0x0A] else '','') s))))"
| "dump_elements repr pretty ea step indent [] s = returns () s"
| "dump_elements repr pretty ea step indent (v # vs) s =
     then_do (if pretty then write_indent indent s else returns () s) (\<lambda>s.
     then_do (dump_value repr pretty ea step indent v s) (\<lambda>s.
       if vs = [] then returns () s
       else dump_elements repr pretty ea step indent vs
         (write_characters (if pretty then '','' @ [CHR 0x0A] else '','') s)))"
  by pat_completeness auto
termination
  by (relation "measure (\<lambda>x. case x of
       Inl (repr, pretty, ea, step, current, v, s) \<Rightarrow> size v
     | Inr (Inl (repr, pretty, ea, step, indent, ms, s)) \<Rightarrow> size_list (size_prod (\<lambda>k. 0) size) ms
     | Inr (Inr (repr, pretty, ea, step, indent, vs, s)) \<Rightarrow> size_list size vs)")
    (auto simp: size_sort_key)

text \<open>\<^verbatim>\<open>basic_json::dump\<close>; a negative indentation is the compact form.\<close>

definition json_dump ::
  "(rat \<Rightarrow> 64 word) \<Rightarrow> int \<Rightarrow> char \<Rightarrow> bool \<Rightarrow> error_handler_t \<Rightarrow> json \<Rightarrow> error + string"
where
  "json_dump repr indent ichar ea h j =
     (let s = serializer_ctor ichar h
      in case if indent \<ge> 0 then dump_value repr True ea (of_int indent) 0 j s
              else dump_value repr False ea 0 0 j s of
           (Inl e, s) \<Rightarrow> Inl e
         | (Inr u, s) \<Rightarrow> Inr (written s))"

text \<open>
  The output operator of a stream with the given width and fill character: what it writes, whether
  or not it ends with an exception.
\<close>

definition stream_output ::
  "(rat \<Rightarrow> 64 word) \<Rightarrow> int \<Rightarrow> char \<Rightarrow> json \<Rightarrow> (unit, string) result"
where
  "stream_output repr width fill j =
     (let pretty_print = width > 0; indentation = (if pretty_print then width else 0)
      in case dump_value repr pretty_print False (of_int indentation) 0 j (serializer_ctor fill Strict) of
           (r, s) \<Rightarrow> (r, written s))"

end
