(* ===== verification/JsonIntegerText.thy ===== *)
theory JsonIntegerText
  imports JsonDump
begin

text \<open>
  The printing of integers: the digits are counted first and then filled in from behind, two at a
  time; the result is the decimal text of the number.
\<close>

section \<open>Decimal texts\<close>

lemma digit_chars: "map (\<lambda>m. char_of (48 + m)) [0..<10] = ''0123456789''"
  by code_simp

lemma digit_nth: "digit k = ''0123456789'' ! (k mod 10)"
proof -
  have "char_of (48 + k mod 10) = map (\<lambda>m. char_of (48 + m)) [0..<10] ! (k mod 10)" by simp
  then show ?thesis by (simp only: digit_def digit_chars)
qed

lemma digits_to_99_map: "digits_to_99 = map (\<lambda>k. [''0123456789'' ! (k div 10), ''0123456789'' ! (k mod 10)]) [0..<100]"
  by code_simp

lemma digits_to_99_nth: "k < 100 \<Longrightarrow> digits_to_99 ! k = [digit (k div 10), digit (k mod 10)]"
  by (simp only: digits_to_99_map nth_map length_upt nth_upt digit_nth) simp

lemma digit_mod [simp]: "digit (n mod 10) = digit n"
  by (simp add: digit_def)

lemma nat_to_string_two:
  assumes "10 \<le> n" "n < 100"
  shows "nat_to_string n = [digit (n div 10), digit (n mod 10)]"
proof -
  have "n div 10 < 10" using assms(2) by simp
  with assms(1) show ?thesis
    by (simp add: nat_to_string.simps [of n] nat_to_string.simps [of "n div 10"])
qed

lemma nat_to_string_step:
  "10 \<le> n \<Longrightarrow> nat_to_string n = nat_to_string (n div 10) @ [digit (n mod 10)]"
  by (simp add: nat_to_string.simps [of n])

lemma nat_to_string_hundreds:
  assumes "100 \<le> n"
  shows "nat_to_string n = nat_to_string (n div 100) @ [digit (n mod 100 div 10), digit (n mod 100 mod 10)]"
proof -
  have "n div 10 div 10 = n div 100" by (simp add: div_mult2_eq [symmetric])
  moreover have "n mod 100 div 10 = n div 10 mod 10" using mod_mult2_eq [of n 10 10] by simp
  moreover have "digit (n mod 100 mod 10) = digit n" by (simp add: digit_def mod_mod_cancel)
  ultimately show ?thesis
    using assms nat_to_string_step [of n] nat_to_string_step [of "n div 10"] by simp
qed

lemma length_nat_to_string_small:
  "n < 10 \<Longrightarrow> length (nat_to_string n) = 1"
  "10 \<le> n \<Longrightarrow> n < 100 \<Longrightarrow> length (nat_to_string n) = 2"
  "100 \<le> n \<Longrightarrow> n < 1000 \<Longrightarrow> length (nat_to_string n) = 3"
  "1000 \<le> n \<Longrightarrow> n < 10000 \<Longrightarrow> length (nat_to_string n) = 4"
proof -
  have one: "length (nat_to_string m) = 1" if "m < 10" for m using that by (simp add: nat_to_string.simps [of m])
  have two: "length (nat_to_string m) = 2" if "10 \<le> m" "m < 100" for m using that by (simp add: nat_to_string_two)
  show "n < 10 \<Longrightarrow> length (nat_to_string n) = 1" by (rule one)
  show "10 \<le> n \<Longrightarrow> n < 100 \<Longrightarrow> length (nat_to_string n) = 2" by (rule two)
  show "100 \<le> n \<Longrightarrow> n < 1000 \<Longrightarrow> length (nat_to_string n) = 3"
    using one [of "n div 100"] by (simp add: nat_to_string_hundreds)
  show "1000 \<le> n \<Longrightarrow> n < 10000 \<Longrightarrow> length (nat_to_string n) = 4"
    using two [of "n div 100"] by (simp add: nat_to_string_hundreds)
qed

lemma length_nat_to_string_10000:
  assumes "10000 \<le> n"
  shows "length (nat_to_string n) = length (nat_to_string (n div 10000)) + 4"
proof -
  have "n div 100 div 100 = n div 10000" by (simp add: div_mult2_eq [symmetric])
  then show ?thesis
    using assms nat_to_string_hundreds [of n] nat_to_string_hundreds [of "n div 100"] by simp
qed

section \<open>Counting and filling in\<close>

lemma count_digits_length: "count_digits x (Suc n) = n + length (nat_to_string (unat x))"
proof (induction x "Suc n" arbitrary: n rule: count_digits.induct)
  case (1 x n)
  note lt = word_less_nat_alt [of x]
  consider "unat x < 10" | "10 \<le> unat x" "unat x < 100" | "100 \<le> unat x" "unat x < 1000"
    | "1000 \<le> unat x" "unat x < 10000" | "10000 \<le> unat x" by linarith
  then show ?case
  proof cases
    case 5
    have "\<not> x < 10" "\<not> x < 100" "\<not> x < 1000" "\<not> x < 10000" using 5 by (simp_all add: lt)
    with 1 [of "n + 4"] length_nat_to_string_10000 [OF 5] show ?thesis
      by (simp add: count_digits.simps [of x] unat_div)
  qed (simp_all add: count_digits.simps [of x] lt length_nat_to_string_small)
qed

lemma two_updates:
  assumes "2 \<le> p" "p \<le> length b"
  shows "b[p - 1 := y, p - 2 := x] = take (p - 2) b @ [x, y] @ drop p b"
proof (rule nth_equalityI)
  show "length (b[p - 1 := y, p - 2 := x]) = length (take (p - 2) b @ [x, y] @ drop p b)" using assms by simp
  fix i assume "i < length (b[p - 1 := y, p - 2 := x])"
  with assms show "b[p - 1 := y, p - 2 := x] ! i = (take (p - 2) b @ [x, y] @ drop p b) ! i"
    by (auto simp: nth_append nth_list_update nth_Cons' not_less)
qed

lemma fill_digits_text:
  assumes "length (nat_to_string (unat x)) \<le> p" "p \<le> length b"
  shows "fill_digits x p b =
    take (p - length (nat_to_string (unat x))) b @ nat_to_string (unat x) @ drop p b"
  using assms
proof (induction x p b rule: fill_digits.induct)
  case (1 x p b)
  let ?n = "unat x"
  consider "?n < 10" | "10 \<le> ?n" "?n < 100" | "100 \<le> ?n" by linarith
  then show ?case
  proof cases
    case a: 1
    then have w: "\<not> 100 \<le> x" "\<not> 10 \<le> x" by (simp_all add: word_le_nat_alt)
    have s: "nat_to_string ?n = [char_of (0x30 + ?n)]" using a by (simp add: nat_to_string.simps [of ?n] digit_def)
    with "1.prems" have "p - 1 < length b" "1 \<le> p" by simp_all
    with s show ?thesis
      by (simp add: fill_digits.simps [of x] w upd_conv_take_nth_drop)
  next
    case a: 2
    then have w: "\<not> 100 \<le> x" "10 \<le> x" by (simp_all add: word_le_nat_alt)
    from "1.prems" nat_to_string_two [OF a] have p: "2 \<le> p" "p \<le> length b" by simp_all
    show ?thesis
      using two_updates [OF p, of "digit ?n" "digit (?n div 10)"] nat_to_string_two [OF a] digits_to_99_nth [OF a(2)]
      by (simp add: fill_digits.simps [of x] w Let_def numeral_2_eq_2)
  next
    case a: 3
    then have w: "100 \<le> x" by (simp add: word_le_nat_alt)
    let ?d = "digits_to_99 ! unat (x mod 100)"
    have d: "?d = [digit (?n mod 100 div 10), digit (?n mod 100 mod 10)]"
      by (simp add: digits_to_99_nth unat_mod)
    note s = nat_to_string_hundreds [OF a]
    from "1.prems" s have p: "2 \<le> p" "p \<le> length b" by simp_all
    let ?b = "b[p - 1 := ?d ! 1, p - 2 := ?d ! 0]"
    have "fill_digits (x div 100) (p - 2) ?b = take (p - 2 - length (nat_to_string (?n div 100))) ?b @
        nat_to_string (?n div 100) @ drop (p - 2) ?b"
      using "1.IH" [OF w refl] "1.prems" s by (simp add: unat_div)
    with two_updates [OF p, of "?d ! 1" "?d ! 0"] s d p show ?thesis
      by (simp add: fill_digits.simps [of x p] w Let_def)
  qed
qed

section \<open>Printing\<close>

lemma length_digits_64: "length (nat_to_string (unat (x :: 64 word))) \<le> 20"
proof (rule length_nat_to_string_le)
  show "unat x < 10 ^ 20" using unsigned_less [of x, where ?'a = nat] by simp
qed simp

lemma filled:
  assumes "length b = 64" "p \<le> 43"
  shows "take (p + count_digits x 1) (fill_digits x (p + count_digits x 1) b) =
    take p b @ nat_to_string (unat x)"
  using fill_digits_text [of x "p + count_digits x 1" b] assms length_digits_64 [of x]
    count_digits_length [of x 0] by simp

lemma zero_digit: "digit 0 = CHR ''0''"
  by (simp add: digit_nth)

lemma dump_unsigned_text: "dump_unsigned x s = write_characters (nat_to_string (unat x)) s"
proof (cases "x = 0")
  case True
  then show ?thesis by (simp add: dump_unsigned_def nat_to_string.simps [of 0] zero_digit)
next
  case False
  then show ?thesis using filled [of number_buffer 0 x] by (simp add: dump_unsigned_def number_buffer_def)
qed

lemma remove_sign_value: "remove_sign x = - x"
  by (simp add: remove_sign_def)

lemma uint_of_sint: "uint x = sint x mod 2 ^ 64" "uint (- x) = (- sint x) mod 2 ^ 64" for x :: "64 word"
proof -
  have "x = word_of_int (sint x)" "- x = word_of_int (- sint x)" by simp_all
  then have "uint x = uint (word_of_int (sint x) :: 64 word)" "uint (- x) = uint (word_of_int (- sint x) :: 64 word)"
    by simp_all
  then show "uint x = sint x mod 2 ^ 64" "uint (- x) = (- sint x) mod 2 ^ 64"
    by (simp_all only: uint_word_of_int) simp_all
qed

lemma unat_of_sint:
  fixes x :: "64 word"
  shows "sint x < 0 \<Longrightarrow> unat (- x) = nat (- sint x)" "0 \<le> sint x \<Longrightarrow> unat x = nat (sint x)"
proof -
  have b: "- (2 ^ 63) \<le> sint x" "sint x < 2 ^ 63" using sint_ge [of x] sint_lt [of x] by simp_all
  show "unat (- x) = nat (- sint x)" if "sint x < 0"
  proof -
    have "(- sint x) mod 2 ^ 64 = - sint x" using that b(1) by (intro mod_pos_pos_trivial) simp_all
    then show ?thesis by (simp only: unat_eq_nat_uint uint_of_sint(2))
  qed
  show "unat x = nat (sint x)" if "0 \<le> sint x"
  proof -
    have "sint x mod 2 ^ 64 = sint x" using that b(2) by (intro mod_pos_pos_trivial) simp_all
    then show ?thesis by (simp only: unat_eq_nat_uint uint_of_sint(1))
  qed
qed

lemma dump_integer_text: "dump_integer x s = write_characters (to_string (sint x)) s"
proof -
  consider "x = 0" | "x \<noteq> 0" "sint x < 0" | "x \<noteq> 0" "0 \<le> sint x" by linarith
  then show ?thesis
  proof cases
    case 1
    then show ?thesis by (simp add: dump_integer_def to_string_def nat_to_string.simps [of 0] zero_digit)
  next
    case 2
    then have "x <s 0" by (simp add: word_sless_alt)
    with 2 filled [of "number_buffer[0 := CHR ''-'']" 1 "- x"] show ?thesis
      by (simp add: dump_integer_def Let_def remove_sign_value to_string_def unat_of_sint(1) number_buffer_def take_Suc_conv_app_nth)
  next
    case 3
    then have "\<not> x <s 0" by (simp add: word_sless_alt)
    with 3 show ?thesis by (simp add: dump_integer_def dump_unsigned_text to_string_def unat_of_sint(2))
  qed
qed

end
