(* ===== verification/JsonEscape.thy ===== *)
theory JsonEscape
  imports JsonDump JsonStrings
begin

text \<open>
  The escaping of strings: the table of \<^verbatim>\<open>decode\<close> is an automaton for UTF-8, the escaping of a string
  that is UTF-8 is the sequence of the escapes of its characters, of which the grammar of JSON makes
  the string again, and the buffer never overflows, whatever the string.
\<close>

section \<open>The automaton\<close>

text \<open>What the states still expect, as in the scanner; the other two are acceptance and rejection.\<close>

definition state_ranges :: "nat \<Rightarrow> (int \<times> int) list" where
  "state_ranges st = [[], [], [(0x80, 0xBF)], [(0x80, 0xBF), (0x80, 0xBF)], [(0xA0, 0xBF), (0x80, 0xBF)],
     [(0x80, 0x9F), (0x80, 0xBF)], [(0x90, 0xBF), (0x80, 0xBF), (0x80, 0xBF)],
     [(0x80, 0xBF), (0x80, 0xBF), (0x80, 0xBF)], [(0x80, 0x8F), (0x80, 0xBF), (0x80, 0xBF)]] ! st"

definition waiting_states :: "nat list" where
  "waiting_states = [2, 3, 4, 5, 6, 7, 8]"

text \<open>The two parts of the table: the class of a byte, and the transition of a state on a class.\<close>

definition byte_class :: "nat \<Rightarrow> nat" where
  "byte_class b = (if b < 0x80 then 0 else if b < 0x90 then 1 else if b < 0xA0 then 9 else if b < 0xC0 then 7
     else if b < 0xC2 then 8 else if b < 0xE0 then 2 else if b < 0xE1 then 10 else if b < 0xED then 3
     else if b < 0xEE then 4 else if b < 0xF0 then 3 else if b < 0xF1 then 11 else if b < 0xF4 then 6
     else if b < 0xF5 then 5 else 8)"

definition transition :: "nat \<Rightarrow> nat \<Rightarrow> nat" where
  "transition st k =
     (if st = 0 then (case map_of [(0, 0), (2, 2), (3, 3), (4, 5), (5, 8), (6, 7), (10, 4), (11, 6)] k of
        Some st \<Rightarrow> st | None \<Rightarrow> 1)
      else case map_of [(2, {1, 7, 9}, 0), (3, {1, 7, 9}, 2), (4, {7}, 2), (5, {1, 9}, 2), (6, {7, 9}, 3),
          (7, {1, 7, 9}, 3), (8, {1}, 3)] st of
        Some (ks, st) \<Rightarrow> if k \<in> ks then st else 1 | None \<Rightarrow> 1)"

lemma class_table: "take 256 utf8d = map byte_class [0..<256]"
  by code_simp

lemma transition_table: "drop 256 utf8d = concat (map (\<lambda>st. map (transition st) [0..<16]) [0..<9])"
  by code_simp

lemma nth_concat_rows:
  "\<forall>x \<in> set xs. length (f x) = n \<Longrightarrow> i < length xs \<Longrightarrow> k < n \<Longrightarrow>
     concat (map f xs) ! (i * n + k) = f (xs ! i) ! k"
proof (induction xs arbitrary: i)
  case (Cons x xs)
  show ?case
  proof (cases i)
    case 0
    with Cons.prems show ?thesis by (simp add: nth_append)
  next
    case (Suc j)
    with Cons.IH [of j] Cons.prems show ?thesis by (simp add: nth_append)
  qed
qed simp

lemma table_length: "length utf8d = 400"
  by (simp add: utf8d_def)

lemma byte_class_bound: "byte_class b < 16"
  by (simp add: byte_class_def)

lemma decode_state:
  assumes "st < 9"
  shows "fst (decode st cp c) = transition st (byte_class (of_char c))"
proof -
  have b: "(of_char c :: nat) < 256" by simp
  have "take 256 utf8d ! of_char c = utf8d ! of_char c" using b by (rule nth_take)
  then have cl: "utf8d ! of_char c = byte_class (of_char c)"
    unfolding class_table using b by (simp only: nth_map_upt) simp
  have "drop 256 utf8d ! (st * 16 + byte_class (of_char c)) = transition st (byte_class (of_char c))"
    unfolding transition_table using assms byte_class_bound by (subst nth_concat_rows [where n = 16]) simp_all
  then have "utf8d ! (256 + (st * 16 + byte_class (of_char c))) = transition st (byte_class (of_char c))"
    by (subst (asm) nth_drop) (simp_all add: table_length)
  then show ?thesis by (simp add: decode_def Let_def cl add.assoc)
qed

lemma byte_of: "between lo hi (Some c) \<longleftrightarrow> lo \<le> int (of_char c) \<and> int (of_char c) \<le> hi"
  by (simp add: between_def int_of_char)

text \<open>The classes that matter, by their intervals and by the tails they announce.\<close>

lemma class_intervals:
  "byte_class b = 0 \<longleftrightarrow> b < 0x80" "byte_class b = 1 \<longleftrightarrow> 0x80 \<le> b \<and> b \<le> 0x8F"
  "byte_class b = 9 \<longleftrightarrow> 0x90 \<le> b \<and> b \<le> 0x9F" "byte_class b = 7 \<longleftrightarrow> 0xA0 \<le> b \<and> b \<le> 0xBF"
  by (simp_all add: byte_class_def)

definition class_tail :: "nat \<Rightarrow> (int \<times> int) list option" where
  "class_tail k = (let st = transition 0 k in if st \<le> 1 then None else Some (state_ranges st))"

lemma class_tails:
  "class_tail 0 = None" "class_tail (Suc 0) = None" "class_tail 9 = None" "class_tail 7 = None" "class_tail 8 = None"
  "class_tail 2 = Some [(0x80, 0xBF)]" "class_tail 10 = Some [(0xA0, 0xBF), (0x80, 0xBF)]"
  "class_tail 3 = Some [(0x80, 0xBF), (0x80, 0xBF)]" "class_tail 4 = Some [(0x80, 0x9F), (0x80, 0xBF)]"
  "class_tail 11 = Some [(0x90, 0xBF), (0x80, 0xBF), (0x80, 0xBF)]"
  "class_tail 6 = Some [(0x80, 0xBF), (0x80, 0xBF), (0x80, 0xBF)]"
  "class_tail 5 = Some [(0x80, 0x8F), (0x80, 0xBF), (0x80, 0xBF)]"
  by (simp_all add: class_tail_def transition_def state_ranges_def)

lemma tail_by_class: "utf8_tail (Some c) = class_tail (byte_class (of_char c))"
proof -
  define b :: nat where "b = of_char c"
  have t: "between lo hi (Some c) \<longleftrightarrow> lo \<le> int b \<and> int b \<le> hi" for lo hi by (simp add: byte_of b_def)
  note [simp] = t class_tails byte_class_def utf8_tail_def
  have "utf8_tail (Some c) = class_tail (byte_class b)"
    by (cases "b < 0x80", simp, cases "b < 0x90", simp, cases "b < 0xA0", simp, cases "b < 0xC0", simp,
        cases "b < 0xC2", simp, cases "b < 0xE0", simp, cases "b < 0xE1", simp, cases "b < 0xED", simp,
        cases "b < 0xEE", simp, cases "b < 0xF0", simp, cases "b < 0xF1", simp, cases "b < 0xF4", simp,
        cases "b < 0xF5", simp, simp)
  then show ?thesis by (simp only: b_def)
qed

lemma transition_waiting:
  "transition 0 k = 0 \<longleftrightarrow> k = 0" "transition 0 k \<in> {0, 1} \<union> set waiting_states"
  by (auto simp: transition_def waiting_states_def split: option.splits dest!: map_of_SomeD)

text \<open>The first byte of a character.\<close>

lemma first_state:
  assumes "st = fst (decode 0 cp c)"
  shows "(of_char c :: nat) < 0x80 \<Longrightarrow> st = 0"
    "0x80 \<le> (of_char c :: nat) \<Longrightarrow> utf8_tail (Some c) = None \<Longrightarrow> st = 1"
    "0x80 \<le> (of_char c :: nat) \<Longrightarrow> utf8_tail (Some c) = Some rs \<Longrightarrow> st \<in> set waiting_states \<and> state_ranges st = rs"
proof -
  let ?k = "byte_class (of_char c)"
  have st: "st = transition 0 ?k" by (simp add: assms decode_state)
  have t: "utf8_tail (Some c) = class_tail ?k" by (rule tail_by_class)
  show "(of_char c :: nat) < 0x80 \<Longrightarrow> st = 0"
    unfolding st transition_waiting(1) class_intervals .
  have n: "st \<in> {1} \<union> set waiting_states" if "0x80 \<le> (of_char c :: nat)"
  proof -
    have "?k \<noteq> 0" unfolding class_intervals using that by simp
    then show ?thesis using transition_waiting [of ?k] by (simp add: st)
  qed
  show "0x80 \<le> (of_char c :: nat) \<Longrightarrow> utf8_tail (Some c) = None \<Longrightarrow> st = 1"
    "0x80 \<le> (of_char c :: nat) \<Longrightarrow> utf8_tail (Some c) = Some rs \<Longrightarrow> st \<in> set waiting_states \<and> state_ranges st = rs"
    using n unfolding t class_tail_def st [symmetric]
    by (auto simp: waiting_states_def)
qed

text \<open>The bytes that follow.\<close>

lemma following_state:
  assumes "st \<in> set waiting_states" "state_ranges st = (lo, hi) # rs" "st' = fst (decode st cp c)"
  shows "between lo hi (Some c) \<Longrightarrow> state_ranges st' = rs \<and> (if rs = [] then st' = 0 else st' \<in> set waiting_states)"
    "\<not> between lo hi (Some c) \<Longrightarrow> st' = 1"
proof -
  let ?k = "byte_class (of_char c)"
  have "st < 9" using assms(1) by (auto simp: waiting_states_def)
  then have st': "st' = transition st ?k" using assms(3) by (simp add: decode_state)
  have b: "between 0x80 0xBF (Some c) \<longleftrightarrow> ?k \<in> {1, 7, 9}" "between 0xA0 0xBF (Some c) \<longleftrightarrow> ?k = 7"
    "between 0x80 0x9F (Some c) \<longleftrightarrow> ?k \<in> {1, 9}" "between 0x90 0xBF (Some c) \<longleftrightarrow> ?k \<in> {7, 9}"
    "between 0x80 0x8F (Some c) \<longleftrightarrow> ?k = 1"
    unfolding byte_of insert_iff empty_iff class_intervals by auto
  consider "st = 2" | "st = 3" | "st = 4" | "st = 5" | "st = 6" | "st = 7" | "st = 8"
    using assms(1) by (auto simp: waiting_states_def)
  then have "(between lo hi (Some c) \<longrightarrow> state_ranges st' = rs \<and> (if rs = [] then st' = 0 else st' \<in> set waiting_states)) \<and>
    (\<not> between lo hi (Some c) \<longrightarrow> st' = 1)"
    using assms(2) by cases (auto simp: st' state_ranges_def b transition_def waiting_states_def)
  then show "between lo hi (Some c) \<Longrightarrow> state_ranges st' = rs \<and> (if rs = [] then st' = 0 else st' \<in> set waiting_states)"
    "\<not> between lo hi (Some c) \<Longrightarrow> st' = 1" by blast+
qed

section \<open>The code point\<close>

lemma or_disjoint_word:
  fixes x y :: "32 word"
  assumes "uint x < 2 ^ 6" "uint y < 2 ^ 26"
  shows "uint (x OR push_bit 6 y) = uint y * 64 + uint x"
proof -
  have p: "uint (push_bit 6 y) = uint y * 64"
  proof -
    have "uint (push_bit 6 y) = take_bit 32 (push_bit 6 (uint y))" by (simp only: unsigned_push_bit_eq) simp
    also have "push_bit 6 (uint y) = uint y * 64" by (simp add: push_bit_eq_mult)
    also have "take_bit 32 (uint y * 64) = uint y * 64"
      using assms(2) by (intro take_bit_int_eq_self) simp_all
    finally show ?thesis .
  qed
  have "uint (x OR push_bit 6 y) = uint (push_bit 6 y) OR uint x" by (simp add: unsigned_or_eq or.commute)
  also have "\<dots> = uint y * 64 + uint x"
    unfolding p using assms(1) or_low_bits [of 6 "uint y * 64" "uint x"] by (simp add: take_bit_eq_mod)
  finally show ?thesis .
qed

lemma low_bits_word:
  assumes "b < 256" "n \<le> 8"
  shows "uint (mask n AND of_nat b :: 32 word) = int b mod 2 ^ n"
proof -
  have "mask n AND of_nat b = (take_bit n (of_nat b) :: 32 word)" by (simp only: take_bit_eq_mask and.commute)
  moreover have "uint (of_nat b :: 32 word) = int b"
    using assms(1) by (simp add: uint_nat unat_of_nat)
  ultimately show ?thesis by (simp only: unsigned_take_bit_eq) (simp only: take_bit_eq_mod)
qed

lemma masks: "drop_bit 2 0xFF = (mask 6 :: 32 word)" "drop_bit 3 0xFF = (mask 5 :: 32 word)"
  "drop_bit 4 0xFF = (mask 4 :: 32 word)" "drop_bit 5 0xFF = (mask 3 :: 32 word)"
  "drop_bit 6 0xFF = (mask 2 :: 32 word)" "drop_bit 10 0xFF = (mask 0 :: 32 word)"
  "drop_bit 11 0xFF = (mask 0 :: 32 word)" "0xFF = (mask 8 :: 32 word)" "0x3F = (mask 6 :: 32 word)"
  by (simp_all add: mask_eq_exp_minus_1)

lemma decode_codepoint:
  "snd (decode st cp c) = (if st \<noteq> 0 then (mask 6 AND of_nat (of_char c)) OR push_bit 6 cp
     else drop_bit (byte_class (of_char c)) 0xFF AND of_nat (of_char c))"
proof -
  have b: "(of_char c :: nat) < 256" by simp
  have "take 256 utf8d ! of_char c = utf8d ! of_char c" using b by (rule nth_take)
  then have cl: "utf8d ! of_char c = byte_class (of_char c)"
    unfolding class_table using b by (simp only: nth_map_upt) simp
  show ?thesis by (simp only: decode_def Let_def cl UTF8_ACCEPT_def masks(9) snd_conv and.commute)
qed

lemma following_codepoint:
  assumes "st \<noteq> 0" "uint cp < 2 ^ 26"
  shows "uint (snd (decode st cp c)) = uint cp * 64 + int (of_char c) mod 64"
  using assms or_disjoint_word [of "mask 6 AND of_nat (of_char c)" cp] low_bits_word [of "of_char c" 6]
  by (simp add: decode_codepoint)

lemma mod_window:
  fixes b :: int
  assumes "k * m \<le> b" "b < k * m + m"
  shows "b mod m = b - k * m"
proof -
  have "b mod m = (b - k * m + k * m) mod m" by simp
  also have "\<dots> = (b - k * m) mod m" by (rule mod_mult_self1)
  also have "\<dots> = b - k * m" using assms by (intro mod_pos_pos_trivial) linarith+
  finally show ?thesis .
qed

lemma first_codepoint:
  assumes "b = of_char c" "b < 0x80 \<or> (\<exists>rs. utf8_tail (Some c) = Some rs)"
  shows "uint (snd (decode 0 cp c)) = (if b < 0x80 then int b else if b < 0xE0 then int b - 0xC0
    else if b < 0xF0 then int b - 0xE0 else int b - 0xF0)"
proof -
  have b: "b < 256" by (simp add: assms(1))
  note low = low_bits_word [OF b]
  have d: "uint (snd (decode 0 cp c)) = uint (drop_bit (byte_class b) 0xFF AND of_nat b :: 32 word)"
    by (simp add: decode_codepoint assms(1))
  have t: "b < 0x80 \<or> class_tail (byte_class b) \<noteq> None" using assms by (auto simp: tail_by_class)
  have ands: "uint (0xFF AND of_nat b :: 32 word) = int b" "uint (0x3F AND of_nat b :: 32 word) = int b mod 64"
    "uint (0x1F AND of_nat b :: 32 word) = int b mod 32" "uint (0xF AND of_nat b :: 32 word) = int b mod 16"
    "uint (7 AND of_nat b :: 32 word) = int b mod 8" "uint (3 AND of_nat b :: 32 word) = int b mod 4"
    using low [of 8] low [of 6] low [of 5] low [of 4] low [of 3] low [of 2] b
    by (simp_all add: mask_eq_exp_minus_1)
  have mods: "0xC0 \<le> b \<Longrightarrow> b < 0xE0 \<Longrightarrow> int b mod 64 = int b - 0xC0"
    "0xE0 \<le> b \<Longrightarrow> b < 0xF0 \<Longrightarrow> int b mod 32 = int b - 0xE0" "0xE0 \<le> b \<Longrightarrow> b < 0xF0 \<Longrightarrow> int b mod 16 = int b - 0xE0"
    "0xF0 \<le> b \<Longrightarrow> b < 0xF8 \<Longrightarrow> int b mod 8 = int b - 0xF0" "0xF0 \<le> b \<Longrightarrow> b < 0xF4 \<Longrightarrow> int b mod 4 = int b - 0xF0"
    using mod_window [of 3 64 "int b"] mod_window [of 7 32 "int b"] mod_window [of 14 16 "int b"]
      mod_window [of 30 8 "int b"] mod_window [of 60 4 "int b"] by simp_all
  note [simp] = byte_class_def class_tails ands mods
  from t show ?thesis unfolding d
    by (cases "b < 0x80", simp, cases "b < 0x90", simp, cases "b < 0xA0", simp, cases "b < 0xC0", simp,
        cases "b < 0xC2", simp, cases "b < 0xE0", simp, cases "b < 0xE1", simp, cases "b < 0xED", simp,
        cases "b < 0xEE", simp, cases "b < 0xF0", simp, cases "b < 0xF1", simp, cases "b < 0xF4", simp,
        cases "b < 0xF5", simp, simp)
qed

text \<open>Reading the bytes of a scalar value gives the value.\<close>

fun cp_after :: "int \<Rightarrow> string \<Rightarrow> int" where
  "cp_after n [] = n"
| "cp_after n (c # cs) = cp_after (n * 64 + int (of_char c) mod 64) cs"

lemma base64_digits:
  fixes cp :: int
  shows "cp div 64 * 64 + cp mod 64 = cp" "cp div 4096 * 64 + cp div 64 mod 64 = cp div 64"
    "cp div 262144 * 64 + cp div 4096 mod 64 = cp div 4096"
  using mult_div_mod_eq [of 64 "cp div 64"] mult_div_mod_eq [of 64 "cp div 4096"]
  by (simp_all add: zdiv_zmult2_eq [of 64 cp 64, simplified] zdiv_zmult2_eq [of 64 cp 4096, simplified])

lemma cp_of_bytes:
  assumes "scalar cp" "codepoint_bytes cp = c # cs" "0x80 \<le> cp" "b = int (of_char c)"
  shows "cp_after (if b < 0xE0 then b - 0xC0 else if b < 0xF0 then b - 0xE0 else b - 0xF0) cs = cp"
proof -
  have cp: "0 \<le> cp" "cp \<le> 0x10FFFF" using assms(1) by (simp_all add: scalar_def)
  have byte: "int (of_char (char_of n :: char)) = n" if "0 \<le> n" "n < 256" for n :: int
    using that of_char_of_int [of n] by (simp add: int_of_char)
  have m: "0 \<le> x mod 64" "x mod 64 < 64" for x :: int by simp_all
  have tail: "int (of_char (char_of (0x80 + x mod 64) :: char)) mod 64 = x mod 64" for x :: int
  proof -
    have "(0x80 + x mod 64) mod 64 = x mod 64" using mod_mult_self3 [of 2 64 "x mod 64"] by simp
    with m [of x] byte [of "0x80 + x mod 64"] show ?thesis by simp
  qed
  note eq = assms(2) [unfolded codepoint_bytes_eq [OF cp]]
  consider "cp \<le> 0x7FF" | "0x7FF < cp" "cp \<le> 0xFFFF" | "0xFFFF < cp" by linarith
  then show ?thesis
  proof cases
    case 1
    with assms(3) have "2 \<le> cp div 64" "cp div 64 < 32" by linarith+
    with 1 eq assms(3,4) byte [of "0xC0 + cp div 64"] show ?thesis by (auto simp: tail)
  next
    case 2
    have a: "0 \<le> cp div 4096" "cp div 4096 < 16" using 2 by linarith+
    have sum: "(cp div 4096 * 64 + cp div 64 mod 64) * 64 + cp mod 64 = cp"
      by (simp only: base64_digits)
    from 2 eq assms(3) have c: "c = char_of (0xE0 + cp div 4096)" "cs = [char_of (0x80 + cp div 64 mod 64),
        char_of (0x80 + cp mod 64)]" by simp_all
    have "cp_after (cp div 4096) cs = cp" unfolding c(2) cp_after.simps tail by (rule sum)
    moreover have "b = 0xE0 + cp div 4096"
      unfolding assms(4) c(1) using a by (intro byte) simp_all
    ultimately show ?thesis using a by simp
  next
    case 3
    have a: "0 \<le> cp div 262144" "cp div 262144 \<le> 4" using 3 cp by linarith+
    have sum: "((cp div 262144 * 64 + cp div 4096 mod 64) * 64 + cp div 64 mod 64) * 64 + cp mod 64 = cp"
      by (simp only: base64_digits)
    from 3 eq have c: "c = char_of (0xF0 + cp div 262144)" "cs = [char_of (0x80 + cp div 4096 mod 64),
        char_of (0x80 + cp div 64 mod 64), char_of (0x80 + cp mod 64)]" by simp_all
    have "cp_after (cp div 262144) cs = cp" unfolding c(2) cp_after.simps tail by (rule sum)
    moreover have "b = 0xF0 + cp div 262144"
      unfolding assms(4) c(1) using a by (intro byte) simp_all
    ultimately show ?thesis using a by simp
  qed
qed

section \<open>The escape of a character\<close>

text \<open>What the serializer writes for a code point.\<close>

definition escaped :: "bool \<Rightarrow> int \<Rightarrow> string" where
  "escaped ea cp = (let w = of_int cp :: 32 word in
     case short_escape w of
       Some x \<Rightarrow> [CHR 0x5C, x]
     | None \<Rightarrow>
         if cp \<le> 0x1F \<or> ea \<and> cp \<ge> 0x7F then
           if cp \<le> 0xFFFF then CHR 0x5C # CHR ''u'' # format_04x (ucast w)
           else CHR 0x5C # CHR ''u'' # format_04x (ucast (0xD7C0 + drop_bit 10 w)) @
             CHR 0x5C # CHR ''u'' # format_04x (ucast (0xDC00 + (w AND 0x3FF)))
         else codepoint_bytes cp)"

text \<open>Between two characters: nothing is pending, and there is room for the longest escape.\<close>

definition at_character :: "escape \<Rightarrow> bool" where
  "at_character e \<longleftrightarrow> utf8_state e = 0 \<and> undumped_chars e = 0 \<and>
     bytes_after_last_accept e = length (string_buffer e) \<and> length (string_buffer e) \<le> 499"

definition so_far :: "escape \<Rightarrow> serializer \<Rightarrow> string" where
  "so_far e s = written s @ string_buffer e"

definition same_settings :: "serializer \<Rightarrow> serializer \<Rightarrow> bool" where
  "same_settings s s' \<longleftrightarrow> error_handler s' = error_handler s \<and> indent_string s' = indent_string s \<and>
     indent_char s' = indent_char s"

lemma same_settings_trans: "same_settings s s' \<Longrightarrow> same_settings s' s'' \<Longrightarrow> same_settings s s''"
  by (simp add: same_settings_def)

lemma flush_spec:
  assumes "flush e s = (e', s')"
  shows "so_far e' s' = so_far e s" "same_settings s s'" "length (string_buffer e') \<le> 499"
    "utf8_state e' = utf8_state e"
  using assms by (auto simp: flush_def so_far_def same_settings_def write_characters_def split: if_splits)

text \<open>Writing an accepted code point, of which the bytes before \<open>c\<close> are in the buffer already.\<close>

lemma put_codepoint_spec:
  assumes "scalar cp" "codepoint e = of_int cp" "codepoint_bytes cp = before @ [c]"
    "string_buffer e = buf @ (if ea then [] else before)" "length buf \<le> 499"
  shows "\<exists>e'. put_codepoint ea c e = Inr e' \<and> string_buffer e' = buf @ escaped ea cp \<and> utf8_state e' = utf8_state e"
proof -
  have cp: "0 \<le> cp" "cp \<le> 0x10FFFF" using assms(1) by (simp_all add: scalar_def)
  have u: "uint (of_int cp :: 32 word) = cp" using cp by (simp add: uint_word_of_int_eq take_bit_int_eq_self)
  have le: "of_int cp \<le> (n :: 32 word) \<longleftrightarrow> cp \<le> uint n" "(n :: 32 word) \<le> of_int cp \<longleftrightarrow> uint n \<le> cp" for n
    by (simp_all add: word_le_def u)
  have ascii: "before = []" if "cp < 0x80" using assms(3) that by (simp add: codepoint_bytes_def)
  have short: "cp < 0x80" if "short_escape (of_int cp) = Some x" for x
    using that u by (auto simp: short_escape_def split: if_splits)
  have b: "length before \<le> 3"
    using arg_cong [OF assms(3), of length] by (auto simp: codepoint_bytes_def split: if_splits)
  have f: "length (format_04x w) = 4" for w by (simp add: format_04x_def)
  show ?thesis
    using assms(2,4,5) ascii short b f
    by (auto simp: put_codepoint_def Let_def escaped_def le buffer_put_def assms(3) split: option.splits)
qed

section \<open>Steps of the loop\<close>

lemma drop_Cons: "drop i str = c # cs \<Longrightarrow> i < length str \<and> str ! i = c \<and> drop (Suc i) str = cs"
  by (metis Cons_nth_drop_Suc drop_all leI list.inject list.distinct(1))

lemma loop_step:
  assumes "drop i str = c # cs" "escape_step ea c i e s = returns (j, e') s'"
  shows "escape_loop ea str i e s = escape_loop ea str j e' s'"
  using assms drop_Cons [OF assms(1)] by (simp add: escape_loop.simps [of ea str i e s])

lemma accept_step:
  assumes "decode (utf8_state e) (codepoint e) c = (0, of_int cp)" "scalar cp" "codepoint_bytes cp = before @ [c]"
    "string_buffer e = buf @ (if ea then [] else before)" "length buf \<le> 499"
  shows "\<exists>e' s'. escape_step ea c i e s = returns (i + 1, e') s' \<and> at_character e' \<and>
    so_far e' s' = written s @ buf @ escaped ea cp \<and> same_settings s s'"
proof -
  let ?e = "e\<lparr>utf8_state := 0, codepoint := of_int cp\<rparr>"
  obtain e1 where e1: "put_codepoint ea c ?e = Inr e1" "string_buffer e1 = buf @ escaped ea cp" "utf8_state e1 = 0"
    using put_codepoint_spec [of cp ?e before c buf ea] assms(2-) by auto
  obtain e2 s2 where f: "flush e1 s = (e2, s2)" by fastforce
  note fs = flush_spec [OF f]
  have "escape_step ea c i e s = returns (i + 1, (remember e2)\<lparr>undumped_chars := 0\<rparr>) s2"
    using e1(1) f by (simp add: escape_step_def assms(1) UTF8_ACCEPT_def Let_def)
  with fs e1 show ?thesis
    by (intro exI [of _ "(remember e2)\<lparr>undumped_chars := 0\<rparr>"] exI [of _ s2])
      (auto simp: at_character_def remember_def so_far_def)
qed

lemma waiting_step:
  assumes "decode (utf8_state e) (codepoint e) c = (st, w)" "st \<in> set waiting_states"
    "length (string_buffer e) < 512"
  shows "escape_step ea c i e s = returns (i + 1, e\<lparr>utf8_state := st, codepoint := w,
    string_buffer := string_buffer e @ (if ea then [] else [c]), undumped_chars := undumped_chars e + 1\<rparr>) s"
  using assms by (auto simp: escape_step_def UTF8_ACCEPT_def UTF8_REJECT_def Let_def buffer_put_def waiting_states_def)

lemma cp_after_ge: "0 \<le> n \<Longrightarrow> n \<le> cp_after n cs"
proof (induction n cs rule: cp_after.induct)
  case (2 n c cs)
  have "n \<le> n * 64 + int (of_char c) mod 64" "0 \<le> n * 64 + int (of_char c) mod 64" using 2(2) by simp_all
  with 2(1) show ?case by simp
qed simp

lemma decode_pair: "fst (decode st cp c) = st' \<Longrightarrow> snd (decode st cp c) = w \<Longrightarrow> decode st cp c = (st', w)"
  by auto

lemma tail_steps:
  assumes "in_ranges (state_ranges st) bs" "st \<in> set waiting_states" "utf8_state e = st"
    "string_buffer e = buf @ (if ea then [] else before)" "length buf \<le> 499" "length before + length bs \<le> 4"
    "codepoint_bytes cp = before @ bs" "scalar cp" "cp_after (uint (codepoint e)) bs = cp" "drop i str = bs @ rest"
  shows "\<exists>e' s'. escape_loop ea str i e s = escape_loop ea str (i + length bs) e' s' \<and> at_character e' \<and>
    so_far e' s' = written s @ buf @ escaped ea cp \<and> same_settings s s'"
  using assms
proof (induction bs arbitrary: st e before i)
  case Nil
  then show ?case by (auto simp: waiting_states_def state_ranges_def)
next
  case (Cons c bs)
  from Cons.prems(1,2) obtain lo hi rs where r: "state_ranges st = (lo, hi) # rs" "between lo hi (Some c)" "in_ranges rs bs"
    by (cases "state_ranges st") auto
  obtain st' w where d: "decode st (codepoint e) c = (st', w)" by fastforce
  note n = following_state(1) [OF Cons.prems(2) r(1) _ r(2), of st' "codepoint e"]
  have cp: "0 \<le> cp" "cp \<le> 0x10FFFF" using Cons.prems(8) by (simp_all add: scalar_def)
  have "uint (codepoint e) \<le> cp" using Cons.prems(9) cp_after_ge [of "uint (codepoint e)" "c # bs"] by simp
  with cp have "uint (codepoint e) < 2 ^ 26" by simp
  moreover have "st \<noteq> 0" using Cons.prems(2) by (auto simp: waiting_states_def)
  ultimately have w: "uint w = uint (codepoint e) * 64 + int (of_char c) mod 64"
    using following_codepoint [of st "codepoint e" c] d by simp
  have a: "cp_after (uint w) bs = cp" using Cons.prems(9) w by simp
  have dr: "drop i str = c # bs @ rest" using Cons.prems(10) by simp
  show ?case
  proof (cases bs)
    case Nil
    with r(3) have "rs = []" by (cases rs) auto
    with n d have "st' = 0" by simp
    moreover have "w = of_int cp" using a Nil by (metis cp_after.simps(1) word_of_int_uint)
    ultimately obtain e' s' where e': "escape_step ea c i e s = returns (i + 1, e') s'" "at_character e'"
      "so_far e' s' = written s @ buf @ escaped ea cp" "same_settings s s'"
      using accept_step [of e c cp before buf ea i s] Cons.prems(3-5,7,8) d Nil by auto
    with loop_step [OF dr e'(1)] Nil show ?thesis by auto
  next
    case (Cons b bs')
    with r(3) have "rs \<noteq> []" by auto
    with n d have st': "st' \<in> set waiting_states" "state_ranges st' = rs" by simp_all
    let ?e = "e\<lparr>utf8_state := st', codepoint := w,
      string_buffer := string_buffer e @ (if ea then [] else [c]), undumped_chars := undumped_chars e + 1\<rparr>"
    have "length (string_buffer e) < 512" using Cons.prems(4-6) Cons by (auto split: if_splits)
    with waiting_step [of e c st' w ea i s] Cons.prems(3) d st'(1) have
      "escape_step ea c i e s = returns (i + 1, ?e) s" by simp
    from loop_step [OF dr this] have "escape_loop ea str i e s = escape_loop ea str (i + 1) ?e s" .
    moreover have "\<exists>e' s'. escape_loop ea str (i + 1) ?e s = escape_loop ea str (i + 1 + length bs) e' s' \<and>
      at_character e' \<and> so_far e' s' = written s @ buf @ escaped ea cp \<and> same_settings s s'"
      using Cons.IH [of st' ?e "before @ [c]" "i + 1"] Cons.prems(4-8) r(3) st' a drop_Cons [OF dr]
      by (cases ea) simp_all
    ultimately show ?thesis by simp
  qed
qed

lemma character_steps:
  assumes "at_character e" "scalar cp" "drop i str = codepoint_bytes cp @ rest"
  shows "\<exists>e' s'. escape_loop ea str i e s = escape_loop ea str (i + length (codepoint_bytes cp)) e' s' \<and>
    at_character e' \<and> so_far e' s' = so_far e s @ escaped ea cp \<and> same_settings s s'"
proof (cases "cp < 0x80")
  case True
  have cp: "0 \<le> cp" using assms(2) by (simp add: scalar_def)
  have b: "codepoint_bytes cp = [] @ [char_of cp]" using True by (simp add: codepoint_bytes_def)
  have i: "int (of_char (char_of cp :: char)) = cp"
    using cp True of_char_of_int [of cp] by (simp add: int_of_char)
  then have n: "(of_char (char_of cp :: char) :: nat) < 0x80" using True by linarith
  have "decode 0 (codepoint e) (char_of cp) = (0, of_int cp)"
  proof (rule decode_pair)
    show "fst (decode 0 (codepoint e) (char_of cp)) = 0" using first_state(1) [OF refl n] .
    have "uint (snd (decode 0 (codepoint e) (char_of cp))) = cp"
      using first_codepoint [OF refl, of "char_of cp" "codepoint e"] n i by simp
    then show "snd (decode 0 (codepoint e) (char_of cp)) = of_int cp" by (metis word_of_int_uint)
  qed
  then obtain e' s' where e': "escape_step ea (char_of cp) i e s = returns (i + 1, e') s'" "at_character e'"
    "so_far e' s' = written s @ string_buffer e @ escaped ea cp" "same_settings s s'"
    using accept_step [of e "char_of cp" cp "[]" "string_buffer e" ea i s] assms(1,2) b
    by (auto simp: at_character_def)
  have "drop i str = char_of cp # rest" using assms(3) b by simp
  from loop_step [OF this e'(1)] e' b show ?thesis by (auto simp: so_far_def)
next
  case False
  then have "0x80 \<le> cp" by simp
  with assms(2) obtain c bs rs where c: "codepoint_bytes cp = c # bs" "utf8_tail (Some c) = Some rs"
    "in_ranges rs bs" "0x80 \<le> (of_char c :: int)"
    using codepoint_in_ranges by blast
  then have n: "0x80 \<le> (of_char c :: nat)" by (simp add: int_of_char)
  obtain st w where d: "decode 0 (codepoint e) c = (st, w)" by fastforce
  then have st: "st \<in> set waiting_states" "state_ranges st = rs"
    using first_state(3) [OF _ n c(2), of st "codepoint e"] by simp_all
  have w: "cp_after (uint w) bs = cp"
    using first_codepoint [OF refl, of c "codepoint e"] cp_of_bytes [OF assms(2) c(1) \<open>0x80 \<le> cp\<close> refl] c(2) d n
    by (auto split: if_splits)
  have len: "length bs \<le> 3"
    using arg_cong [OF c(1), of length] by (auto simp: codepoint_bytes_def split: if_splits)
  let ?e = "e\<lparr>utf8_state := st, codepoint := w,
    string_buffer := string_buffer e @ (if ea then [] else [c]), undumped_chars := undumped_chars e + 1\<rparr>"
  have dr: "drop i str = c # bs @ rest" using assms(3) c(1) by simp
  have "utf8_state e = 0" "length (string_buffer e) \<le> 499" using assms(1) by (simp_all add: at_character_def)
  with waiting_step [of e c st w ea i s] d st(1) have "escape_step ea c i e s = returns (i + 1, ?e) s" by simp
  from loop_step [OF dr this] have "escape_loop ea str i e s = escape_loop ea str (i + 1) ?e s" .
  moreover have "\<exists>e' s'. escape_loop ea str (i + 1) ?e s = escape_loop ea str (i + 1 + length bs) e' s' \<and>
    at_character e' \<and> so_far e' s' = written s @ string_buffer e @ escaped ea cp \<and> same_settings s s'"
    by (rule tail_steps [of st bs ?e "string_buffer e" ea "[c]" cp "i + 1" str rest])
      (use c st w len assms(2) drop_Cons [OF dr] \<open>length (string_buffer e) \<le> 499\<close> in simp_all)
  ultimately show ?thesis by (simp add: c(1) so_far_def)
qed

text \<open>A string of characters.\<close>

definition utf8 :: "int list \<Rightarrow> string" where
  "utf8 cps = concat (map codepoint_bytes cps)"

definition escaped_text :: "bool \<Rightarrow> int list \<Rightarrow> string" where
  "escaped_text ea cps = concat (map (escaped ea) cps)"

lemma string_steps:
  assumes "at_character e" "\<forall>cp \<in> set cps. scalar cp" "drop i str = utf8 cps @ rest"
  shows "\<exists>e' s'. escape_loop ea str i e s = escape_loop ea str (i + length (utf8 cps)) e' s' \<and>
    at_character e' \<and> so_far e' s' = so_far e s @ escaped_text ea cps \<and> same_settings s s'"
  using assms
proof (induction cps arbitrary: i e s)
  case Nil
  then show ?case by (auto simp: utf8_def escaped_text_def same_settings_def)
next
  case (Cons cp cps)
  have d: "drop i str = codepoint_bytes cp @ utf8 cps @ rest" using Cons.prems(3) by (simp add: utf8_def)
  obtain e' s' where e': "escape_loop ea str i e s = escape_loop ea str (i + length (codepoint_bytes cp)) e' s'"
    "at_character e'" "so_far e' s' = so_far e s @ escaped ea cp" "same_settings s s'"
    using character_steps [OF Cons.prems(1) _ d, of ea s] Cons.prems(2) by auto
  have "drop (i + length (codepoint_bytes cp)) str = utf8 cps @ rest"
    using d by (metis add.commute append_eq_conv_conj drop_drop)
  with Cons.IH [OF e'(2), of "i + length (codepoint_bytes cp)" s'] Cons.prems(2) obtain e2 s2 where
    "escape_loop ea str (i + length (codepoint_bytes cp)) e' s' =
       escape_loop ea str (i + length (codepoint_bytes cp) + length (utf8 cps)) e2 s2"
    "at_character e2" "so_far e2 s2 = so_far e' s' @ escaped_text ea cps" "same_settings s' s2" by auto
  with e' show ?case
    by (intro exI [of _ e2] exI [of _ s2])
      (auto simp: utf8_def escaped_text_def add.assoc intro: same_settings_trans)
qed

lemma at_character_escape0: "at_character escape0"
  by (simp add: at_character_def escape0_def UTF8_ACCEPT_def)

lemma dump_escaped_utf8:
  assumes "\<forall>cp \<in> set cps. scalar cp"
  shows "dump_escaped (utf8 cps) ea s = returns () (s\<lparr>written := written s @ escaped_text ea cps\<rparr>)"
proof -
  obtain e' s' where e': "escape_loop ea (utf8 cps) 0 escape0 s = escape_loop ea (utf8 cps) (length (utf8 cps)) e' s'"
    "at_character e'" "so_far e' s' = so_far escape0 s @ escaped_text ea cps" "same_settings s s'"
    using string_steps [OF at_character_escape0 assms, of 0 "utf8 cps" "[]" ea s] by auto
  then have "escape_loop ea (utf8 cps) 0 escape0 s = returns e' s'" by (simp add: escape_loop.simps)
  then have "dump_escaped (utf8 cps) ea s = returns () (s'\<lparr>written := so_far e' s'\<rparr>)"
    using e'(2) by (simp add: dump_escaped_def at_character_def UTF8_ACCEPT_def write_characters_def so_far_def)
  moreover have "s'\<lparr>written := so_far e' s'\<rparr> = s\<lparr>written := written s @ escaped_text ea cps\<rparr>"
    using e'(3,4) by (cases s, cases s') (simp add: same_settings_def so_far_def escape0_def)
  ultimately show ?thesis by simp
qed

section \<open>Escapes are read back\<close>

lemma hex_digit_nth: "n < 16 \<Longrightarrow> hex_digit (Some (''0123456789abcdef'' ! n)) = Some (int n)"
  by (auto simp: hex_digit_def between_def Let_def numeral_eq_Suc less_Suc_eq)

lemma nibble: "unat (drop_bit k w AND 0xF :: 16 word) = nat (uint w div 2 ^ k mod 16)"
proof -
  have "(0xF :: 16 word) = mask 4" by (simp add: mask_eq_exp_minus_1)
  then have "uint (drop_bit k w AND 0xF) = take_bit 4 (uint (drop_bit k w))"
    by (simp only: take_bit_eq_mask [symmetric] unsigned_take_bit_eq)
  also have "uint (drop_bit k w) = uint w div 2 ^ k"
  proof -
    have "take_bit 16 (uint w) = uint w"
      using unsigned_less [of w, where 'a = int] by (intro take_bit_int_eq_self) simp_all
    then show ?thesis by (subst unsigned_drop_bit_eq) (simp add: drop_bit_eq_div)
  qed
  also have "take_bit 4 (uint w div 2 ^ k) = uint w div 2 ^ k mod 16" by (simp add: take_bit_eq_mod)
  finally show ?thesis by (metis unat_eq_nat_uint)
qed

lemma base16_digits:
  fixes u :: int
  assumes "0 \<le> u" "u < 65536"
  shows "u div 4096 mod 16 * 4096 + u div 256 mod 16 * 256 + u div 16 mod 16 * 16 + u mod 16 = u"
proof -
  have "u div 4096 < 16" "0 \<le> u div 4096" using assms by linarith+
  then have "u div 4096 mod 16 = u div 4096" by simp
  moreover have "u div 16 * 16 + u mod 16 = u" by simp
  moreover have "u div 256 * 16 + u div 16 mod 16 = u div 16"
    using mult_div_mod_eq [of 16 "u div 16"] by (simp add: zdiv_zmult2_eq [of 16 u 16, simplified])
  moreover have "u div 4096 * 16 + u div 256 mod 16 = u div 256"
    using mult_div_mod_eq [of 16 "u div 256"] by (simp add: zdiv_zmult2_eq [of 16 u 256, simplified])
  ultimately show ?thesis by linarith
qed

lemma hex4_value_format: "hex4_value (format_04x w) = Some (uint w)"
proof -
  define u where "u = uint w"
  have u: "0 \<le> u" "u < 65536" using unsigned_less [of w, where 'a = int] by (simp_all add: u_def)
  have d: "hex_digit (Some (''0123456789abcdef'' ! nat (x mod 16))) = Some (x mod 16)" for x :: int
    using hex_digit_nth [of "nat (x mod 16)"] by (simp add: nat_less_iff)
  have "format_04x w = [''0123456789abcdef'' ! nat (u div 4096 mod 16), ''0123456789abcdef'' ! nat (u div 256 mod 16),
      ''0123456789abcdef'' ! nat (u div 16 mod 16), ''0123456789abcdef'' ! nat (u mod 16)]"
    unfolding format_04x_def nibble u_def by simp
  then have "hex4_value (format_04x w) =
      Some (u div 4096 mod 16 * 4096 + u div 256 mod 16 * 256 + u div 16 mod 16 * 16 + u mod 16)"
    by (simp only: hex4_value_def list.map d list.case option.case)
  then show ?thesis unfolding base16_digits [OF u] by (simp add: u_def)
qed

lemma uint_to_16:
  assumes "0 \<le> cp" "cp < 2 ^ 16"
  shows "uint (ucast (of_int cp :: 32 word) :: 16 word) = cp"
  using assms by (simp add: unsigned_ucast_eq uint_word_of_int_eq take_bit_int_eq_self)

lemma surrogate_halves:
  fixes w :: "32 word"
  assumes "w = of_int cp" "0x10000 \<le> cp" "cp \<le> 0x10FFFF"
  shows "uint (ucast (0xD7C0 + drop_bit 10 w) :: 16 word) = 0xD7C0 + cp div 1024"
    "uint (ucast (0xDC00 + (w AND 0x3FF)) :: 16 word) = 0xDC00 + cp mod 1024"
proof -
  have w: "uint w = cp" using assms by (simp add: uint_word_of_int_eq take_bit_int_eq_self)
  have "take_bit 32 cp = cp" using assms by (intro take_bit_int_eq_self) simp_all
  then have d: "uint (drop_bit 10 w) = cp div 1024"
    by (subst unsigned_drop_bit_eq) (simp add: w drop_bit_eq_div)
  have b: "cp div 1024 < 1088" "0 \<le> cp div 1024" using assms by linarith+
  have "uint (0xD7C0 + drop_bit 10 w) = 0xD7C0 + cp div 1024"
    using b by (subst uint_plus_simple) (simp_all add: word_le_def d uint_word_ariths mod_pos_pos_trivial)
  then show "uint (ucast (0xD7C0 + drop_bit 10 w) :: 16 word) = 0xD7C0 + cp div 1024"
    using b by (simp add: unsigned_ucast_eq take_bit_int_eq_self)
  have "(0x3FF :: 32 word) = mask 10" by (simp add: mask_eq_exp_minus_1)
  then have "uint (w AND 0x3FF) = take_bit 10 cp"
    by (simp only: take_bit_eq_mask [symmetric] unsigned_take_bit_eq w)
  then have a: "uint (w AND 0x3FF) = cp mod 1024" by (simp add: take_bit_eq_mod)
  have m: "0 \<le> cp mod 1024" "cp mod 1024 < 1024" by simp_all
  have "uint (0xDC00 + (w AND 0x3FF)) = 0xDC00 + cp mod 1024"
    using m by (subst uint_plus_simple) (simp_all add: word_le_def a uint_word_ariths mod_pos_pos_trivial)
  then show "uint (ucast (0xDC00 + (w AND 0x3FF)) :: 16 word) = 0xDC00 + cp mod 1024"
    using m by (simp add: unsigned_ucast_eq take_bit_int_eq_self)
qed

lemma escaped_char:
  assumes "scalar cp"
  shows "json_char (escaped ea cp) (codepoint_bytes cp)"
proof -
  let ?w = "of_int cp :: 32 word"
  have cp: "0 \<le> cp" "cp \<le> 0x10FFFF" using assms by (simp_all add: scalar_def)
  have u: "uint ?w = cp" using cp by (simp add: uint_word_of_int_eq take_bit_int_eq_self)
  have eq: "?w = numeral k \<longleftrightarrow> cp = uint (numeral k :: 32 word)" for k
    using u by (metis word_of_int_uint)
  show ?thesis
  proof (cases "short_escape ?w")
    case (Some x)
    then have "(x, char_of cp) \<in> set short_escapes \<and> codepoint_bytes cp = [char_of cp]"
      by (auto simp: short_escape_def eq short_escapes_def codepoint_bytes_def char_of_def split: if_splits)
    with Some json_char.short show ?thesis by (simp add: escaped_def Let_def)
  next
    case None
    note e = escaped_def [of ea cp, unfolded Let_def None option.case]
    show ?thesis
    proof (cases "cp \<le> 0x1F \<or> ea \<and> cp \<ge> 0x7F")
      case True
      show ?thesis
      proof (cases "cp \<le> 0xFFFF")
        case small: True
        have "hex4_value (format_04x (ucast ?w)) = Some cp"
          using cp small by (simp add: hex4_value_format uint_to_16)
        from json_char.unicode [OF this assms] show ?thesis using True small by (simp add: e)
      next
        case False
        note h = surrogate_halves [OF refl, of cp]
        have b: "64 \<le> cp div 1024" "cp div 1024 < 1088" "0 \<le> cp mod 1024" "cp mod 1024 < 1024"
          using False cp by simp_all
        have "json_char (escaped ea cp) (codepoint_bytes (0x10000 + (0xD7C0 + cp div 1024 - 0xD800) * 0x400 +
            (0xDC00 + cp mod 1024 - 0xDC00)))"
        proof -
          have "escaped ea cp = CHR 0x5C # CHR ''u'' # format_04x (ucast (0xD7C0 + drop_bit 10 ?w)) @
              CHR 0x5C # CHR ''u'' # format_04x (ucast (0xDC00 + (?w AND 0x3FF)))"
            unfolding e if_P [OF True] if_not_P [OF False] ..
          moreover have "hex4_value (format_04x (ucast (0xD7C0 + drop_bit 10 ?w))) = Some (0xD7C0 + cp div 1024)"
            "hex4_value (format_04x (ucast (0xDC00 + (?w AND 0x3FF)))) = Some (0xDC00 + cp mod 1024)"
            using h False cp by (simp_all add: hex4_value_format)
          moreover have "high_surrogate (0xD7C0 + cp div 1024)" "low_surrogate_value (0xDC00 + cp mod 1024)"
            using b by (simp_all add: high_surrogate_def low_surrogate_value_def)
          ultimately show ?thesis by (simp only: json_char.surrogates)
        qed
        moreover have "0x10000 + (0xD7C0 + cp div 1024 - 0xD800) * 0x400 + (0xDC00 + cp mod 1024 - 0xDC00) = cp"
          using mult_div_mod_eq [of 1024 cp] by (simp add: algebra_simps)
        ultimately show ?thesis by (simp only:)
      qed
    next
      case False
      show ?thesis
      proof (cases "cp < 0x80")
        case True
        have i: "(of_char (char_of cp :: char) :: int) = cp" using cp True by (intro of_char_of_int) simp_all
        have n: "cp \<noteq> 0x22" "cp \<noteq> 0x5C" using None by (auto simp: short_escape_def split: if_splits)
        have "char_of cp \<noteq> c" if "(of_char c :: int) \<noteq> cp" for c :: char
          using i that by (metis (no_types))
        from this [of "CHR 0x22"] this [of "CHR 0x5C"] n have
          "char_of cp \<noteq> CHR 0x22" "char_of cp \<noteq> CHR 0x5C" by simp_all
        then have "plain (char_of cp)" using i False True by (simp add: plain_def)
        from json_char.plain [OF this] show ?thesis unfolding e if_not_P [OF False] using True by (simp add: codepoint_bytes_def)
      next
        case large: False
        with json_char.encoded [OF assms] show ?thesis unfolding e if_not_P [OF False] by simp
      qed
    qed
  qed
qed

lemma escaped_text_chars: "\<forall>cp \<in> set cps. scalar cp \<Longrightarrow> json_chars (escaped_text ea cps) (utf8 cps)"
  by (induction cps) (auto simp: escaped_text_def utf8_def intro: json_chars.intros escaped_char)

end
