(* ===== verification/JsonEscapeSafe.thy ===== *)
theory JsonEscapeSafe
  imports JsonEscape
begin

text \<open>
  The escaping of arbitrary byte strings: the buffer never overflows, and with the strict error
  handler exactly the strings that are not UTF-8 are refused.
\<close>

section \<open>The buffer\<close>

text \<open>What holds between two passes of the loop; at most three bytes of a character are pending.\<close>

definition buffered :: "bool \<Rightarrow> escape \<Rightarrow> bool" where
  "buffered ea e \<longleftrightarrow> at_character e \<or> utf8_state e \<in> set waiting_states \<and> 0 < undumped_chars e \<and>
     undumped_chars e + length (state_ranges (utf8_state e)) \<le> 4 \<and> bytes_after_last_accept e \<le> 499 \<and>
     length (string_buffer e) = bytes_after_last_accept e + (if ea then 0 else undumped_chars e)"

lemma waiting_ranges: "st \<in> set waiting_states \<Longrightarrow> 1 \<le> length (state_ranges st) \<and> length (state_ranges st) \<le> 3"
  by (auto simp: waiting_states_def state_ranges_def)

lemma put_codepoint_fits:
  assumes "length (string_buffer e) + (if ea then 13 else 7) \<le> 512"
  shows "\<exists>e'. put_codepoint ea c e = Inr e' \<and> utf8_state e' = utf8_state e"
proof -
  have f: "length (format_04x w) = 4" for w by (simp add: format_04x_def)
  have "uint (0x7F :: 32 word) = 0x7F" by simp
  show ?thesis
    using assms f
    by (auto simp: put_codepoint_def Let_def buffer_put_def word_le_def split: option.splits if_splits)
qed

lemma buffered_length: "buffered ea e \<Longrightarrow> length (string_buffer e) + (if ea then 13 else 7) \<le> 512"
  using waiting_ranges [of "utf8_state e"] by (auto simp: buffered_def at_character_def split: if_splits)

lemma next_state_cases:
  assumes "buffered ea e" "decode (utf8_state e) (codepoint e) c = (st, w)"
  shows "st = 0 \<or> st = 1 \<or> st \<in> set waiting_states \<and>
    undumped_chars e + 1 + length (state_ranges st) \<le> 4"
proof (cases "at_character e")
  case True
  then have s: "utf8_state e = 0" "undumped_chars e = 0" by (simp_all add: at_character_def)
  with first_state [of st "codepoint e" c] assms(2) waiting_ranges [of st] show ?thesis
    by (cases "(of_char c :: nat) < 0x80"; cases "utf8_tail (Some c)") auto
next
  case False
  with assms(1) have b: "utf8_state e \<in> set waiting_states"
    "undumped_chars e + length (state_ranges (utf8_state e)) \<le> 4" by (simp_all add: buffered_def)
  obtain lo hi rs where r: "state_ranges (utf8_state e) = (lo, hi) # rs"
    using waiting_ranges [OF b(1)] by (cases "state_ranges (utf8_state e)") auto
  from following_state [OF b(1) r, of st "codepoint e" c] assms(2) b r show ?thesis
    by (cases "between lo hi (Some c)") (auto split: if_splits)
qed

text \<open>One pass either goes on, or is the exception of the strict handler.\<close>

lemma step_safe:
  assumes "buffered ea e"
  shows "(\<exists>j e' s'. escape_step ea c i e s = returns (j, e') s' \<and> buffered ea e' \<and> same_settings s s') \<or>
    error_handler s = Strict \<and> (\<exists>m. escape_step ea c i e s = raises (Json_type_error 316 m) s)"
proof -
  obtain st w where d: "decode (utf8_state e) (codepoint e) c = (st, w)" by fastforce
  let ?e = "e\<lparr>utf8_state := st, codepoint := w\<rparr>"
  have len: "length (string_buffer e) + (if ea then 13 else 7) \<le> 512" by (rule buffered_length [OF assms])
  have acc: "bytes_after_last_accept e \<le> 499" "bytes_after_last_accept e \<le> length (string_buffer e)"
    using assms by (auto simp: buffered_def at_character_def)
  from next_state_cases [OF assms d] show ?thesis
  proof (elim disjE)
    assume st: "st = 0"
    obtain e1 where e1: "put_codepoint ea c ?e = Inr e1" "utf8_state e1 = 0"
      using put_codepoint_fits [of ?e ea c] len st by auto
    obtain e2 s2 where f: "flush e1 s = (e2, s2)" by fastforce
    have "escape_step ea c i e s = returns (i + 1, (remember e2)\<lparr>undumped_chars := 0\<rparr>) s2"
      using e1(1) f st by (simp add: escape_step_def d UTF8_ACCEPT_def Let_def)
    moreover have "buffered ea ((remember e2)\<lparr>undumped_chars := 0\<rparr>)"
      using flush_spec [OF f] e1(2) by (simp add: buffered_def at_character_def remember_def)
    ultimately show ?thesis using flush_spec(2) [OF f] by blast
  next
    assume st: "st = 1"
    let ?r = "?e\<lparr>string_buffer := take (bytes_after_last_accept e) (string_buffer e)\<rparr>"
    let ?next = "if undumped_chars e > 0 then i else i + 1"
    show ?thesis
    proof (cases "error_handler s")
      case Strict
      then show ?thesis
        by (auto simp: escape_step_def d st UTF8_ACCEPT_def UTF8_REJECT_def Let_def type_error_create_def)
    next
      case Replace
      have p: "buffer_put (replacement ea) 0 ?r = Inr (?r\<lparr>string_buffer := string_buffer ?r @ replacement ea\<rparr>)"
        using acc by (simp add: buffer_put_def replacement_def)
      obtain e2 s2 where f: "flush (?r\<lparr>string_buffer := string_buffer ?r @ replacement ea\<rparr>) s = (e2, s2)" by fastforce
      have "escape_step ea c i e s =
          returns (?next, (remember e2)\<lparr>undumped_chars := 0, utf8_state := UTF8_ACCEPT\<rparr>) s2"
        using Replace p f by (simp add: escape_step_def d st UTF8_ACCEPT_def UTF8_REJECT_def Let_def)
      moreover have "buffered ea ((remember e2)\<lparr>undumped_chars := 0, utf8_state := UTF8_ACCEPT\<rparr>)"
        using flush_spec [OF f] by (simp add: buffered_def at_character_def remember_def UTF8_ACCEPT_def)
      ultimately show ?thesis using flush_spec(2) [OF f] by blast
    next
      case Ignore
      have "escape_step ea c i e s = returns (?next, ?r\<lparr>undumped_chars := 0, utf8_state := UTF8_ACCEPT\<rparr>) s"
        using Ignore by (simp add: escape_step_def d st UTF8_ACCEPT_def UTF8_REJECT_def Let_def)
      moreover have "buffered ea (?r\<lparr>undumped_chars := 0, utf8_state := UTF8_ACCEPT\<rparr>)"
        using acc by (simp add: buffered_def at_character_def UTF8_ACCEPT_def)
      ultimately show ?thesis by (auto simp: same_settings_def)
    qed
  next
    assume st: "st \<in> set waiting_states \<and> undumped_chars e + 1 + length (state_ranges st) \<le> 4"
    have "length (string_buffer e) < 512" using len by (simp split: if_splits)
    with waiting_step [of e c st w ea i s] d st have "escape_step ea c i e s = returns (i + 1, e\<lparr>utf8_state := st,
        codepoint := w, string_buffer := string_buffer e @ (if ea then [] else [c]),
        undumped_chars := undumped_chars e + 1\<rparr>) s" by simp
    moreover have "length (string_buffer e) = bytes_after_last_accept e + (if ea then 0 else undumped_chars e)"
      using assms by (auto simp: buffered_def at_character_def)
    then have "buffered ea (e\<lparr>utf8_state := st, codepoint := w,
        string_buffer := string_buffer e @ (if ea then [] else [c]), undumped_chars := undumped_chars e + 1\<rparr>)"
      using st acc by (simp add: buffered_def)
    ultimately show ?thesis by (auto simp: same_settings_def)
  qed
qed

lemma loop_safe:
  assumes "buffered ea e"
  shows "(\<exists>e' s'. escape_loop ea str i e s = returns e' s' \<and> buffered ea e' \<and> same_settings s s') \<or>
    error_handler s = Strict \<and> (\<exists>m s'. escape_loop ea str i e s = raises (Json_type_error 316 m) s')"
  using assms
proof (induction ea str i e s rule: escape_loop.induct)
  case (1 ea str i e s)
  show ?case
  proof (cases "i < length str")
    case True
    from step_safe [OF "1.prems", of "str ! i" i s] show ?thesis
    proof (elim disjE conjE exE)
      fix j e' s'
      assume e': "escape_step ea (str ! i) i e s = returns (j, e') s'" "buffered ea e'" "same_settings s s'"
      have "escape_loop ea str i e s = escape_loop ea str j e' s'"
        using True e'(1) by (simp add: escape_loop.simps [of ea str i e s])
      with "1.IH" [OF True e'(1) [symmetric] refl refl e'(2)] e'(3) show ?thesis
        by (auto intro: same_settings_trans) (auto simp: same_settings_def)
    next
      fix m assume "error_handler s = Strict" "escape_step ea (str ! i) i e s = raises (Json_type_error 316 m) s"
      with True show ?thesis by (simp add: escape_loop.simps [of ea str i e s])
    qed
  next
    case False
    with "1.prems" show ?thesis by (simp add: escape_loop.simps [of ea str i e s] same_settings_def)
  qed
qed

lemma dump_escaped_safe:
  "(\<exists>s'. dump_escaped str ea s = returns () s' \<and> same_settings s s') \<or>
    error_handler s = Strict \<and> (\<exists>m s'. dump_escaped str ea s = raises (Json_type_error 316 m) s')"
proof -
  have "buffered ea escape0" using at_character_escape0 by (simp add: buffered_def)
  note loop = loop_safe [OF this, of str 0 s]
  have w: "same_settings s (write_characters x s')" if "same_settings s s'" for x s'
    using that by (simp add: same_settings_def write_characters_def)
  from loop show ?thesis
  proof (elim disjE conjE exE)
    fix e' s' assume e': "escape_loop ea str 0 escape0 s = returns e' s'" "same_settings s s'"
    show ?thesis
    proof (cases "utf8_state e' = UTF8_ACCEPT")
      case True
      with e' w [OF e'(2)] show ?thesis by (simp add: dump_escaped_def)
    next
      case False
      with e' w [OF e'(2)] w [OF w [OF e'(2)]] show ?thesis
        by (cases "error_handler s'") (simp_all add: dump_escaped_def Let_def type_error_create_def same_settings_def)
    qed
  qed (auto simp: dump_escaped_def)
qed

section \<open>The strict handler\<close>

text \<open>A character that is not completed ends in the exception, or the string ends within it.\<close>

lemma tail_fails:
  assumes "st \<in> set waiting_states" "utf8_state e = st" "error_handler s = Strict"
    "length (string_buffer e) + length (state_ranges st) \<le> 512"
    "\<not> (\<exists>bs rest. drop i str = bs @ rest \<and> in_ranges (state_ranges st) bs)"
    "escape_loop ea str i e s = returns e' s'"
  shows "utf8_state e' \<noteq> 0"
  using assms
proof (induction "state_ranges st" arbitrary: st e i)
  case Nil
  then show ?case using waiting_ranges [of st] by simp
next
  case (Cons r rs)
  obtain lo hi where r: "state_ranges st = (lo, hi) # rs" using Cons.hyps(2) [symmetric] by (cases r) auto
  have st: "st \<noteq> 0" using Cons.prems(1) by (auto simp: waiting_states_def)
  show ?case
  proof (cases "drop i str")
    case Nil
    then have "\<not> i < length str" by simp
    with Cons.prems(2,6) st show ?thesis by (simp add: escape_loop.simps [of ea str i e s])
  next
    case dr: (Cons c cs)
    note i = drop_Cons [OF dr]
    obtain st' w where d: "decode st (codepoint e) c = (st', w)" by fastforce
    note f = following_state [OF Cons.prems(1) r, of st' "codepoint e" c]
    show ?thesis
    proof (cases "between lo hi (Some c)")
      case False
      with f d have "st' = 1" by simp
      with Cons.prems(2,3,6) d i show ?thesis
        by (simp add: escape_loop.simps [of ea str i e s] escape_step_def UTF8_ACCEPT_def UTF8_REJECT_def Let_def)
    next
      case True
      have "rs \<noteq> []"
      proof
        assume "rs = []"
        then have "in_ranges (state_ranges st) [c]" using True by (simp add: r)
        with Cons.prems(5) dr show False by (metis append_Cons append_Nil)
      qed
      with f d True have st': "st' \<in> set waiting_states" "rs = state_ranges st'" by simp_all
      let ?e = "e\<lparr>utf8_state := st', codepoint := w,
        string_buffer := string_buffer e @ (if ea then [] else [c]), undumped_chars := undumped_chars e + 1\<rparr>"
      have len: "length (string_buffer e) < 512" using Cons.prems(4) r by simp
      have "escape_step ea c i e s = returns (i + 1, ?e) s"
        using waiting_step [of e c st' w ea i s] Cons.prems(2) d st'(1) len by simp
      from loop_step [OF dr this] Cons.prems(6) have l: "escape_loop ea str (i + 1) ?e s = returns e' s'" by simp
      have "\<not> (\<exists>bs rest. drop (i + 1) str = bs @ rest \<and> in_ranges (state_ranges st') bs)"
      proof (intro notI, elim exE conjE)
        fix bs rest assume b: "drop (i + 1) str = bs @ rest" "in_ranges (state_ranges st') bs"
        then have "drop i str = (c # bs) @ rest" "in_ranges (state_ranges st) (c # bs)"
          using dr i True st'(2) by (simp_all add: r)
        with Cons.prems(5) show False by blast
      qed
      from Cons.hyps(1) [OF st'(2,1) _ Cons.prems(3) _ this l] show ?thesis
        using Cons.prems(4) r st'(2) by simp
    qed
  qed
qed

lemma strict_sound:
  assumes "at_character e" "error_handler s = Strict" "escape_loop ea str i e s = returns e' s'" "utf8_state e' = 0"
  shows "\<exists>cps. (\<forall>cp \<in> set cps. scalar cp) \<and> drop i str = utf8 cps"
  using assms
proof (induction "length str - i" arbitrary: i e s rule: less_induct)
  case less
  show ?case
  proof (cases "drop i str")
    case Nil
    then show ?thesis by (intro exI [of _ "[]"]) (simp add: utf8_def)
  next
    case (Cons c cs)
    note i = drop_Cons [OF Cons]
    have "\<exists>cp rest. scalar cp \<and> drop i str = codepoint_bytes cp @ rest"
    proof (cases "(of_char c :: nat) < 0x80")
      case True
      have "0 \<le> (of_char c :: int)" "(of_char c :: int) < 0x80" using True by (simp_all add: int_of_char)
      then have "codepoint_bytes (of_char c) = [c]" "scalar (of_char c)"
        by (simp_all add: codepoint_bytes_def scalar_def)
      with Cons show ?thesis by (metis append_Cons append_Nil)
    next
      case False
      obtain st w where d: "decode 0 (codepoint e) c = (st, w)" by fastforce
      have e: "utf8_state e = 0" "length (string_buffer e) \<le> 499"
        using less.prems(1) by (simp_all add: at_character_def)
      show ?thesis
      proof (cases "utf8_tail (Some c)")
        case None
        with first_state(2) [of st "codepoint e" c] d False have "st = 1" by simp
        with less.prems(2,3) e d i show ?thesis
          by (simp add: escape_loop.simps [of ea str i e s] escape_step_def UTF8_ACCEPT_def UTF8_REJECT_def Let_def)
      next
        case (Some rs)
        with first_state(3) [of st "codepoint e" c rs] d False have
          st: "st \<in> set waiting_states" "state_ranges st = rs" by simp_all
        let ?e = "e\<lparr>utf8_state := st, codepoint := w,
          string_buffer := string_buffer e @ (if ea then [] else [c]), undumped_chars := undumped_chars e + 1\<rparr>"
        have "escape_step ea c i e s = returns (i + 1, ?e) s"
          using waiting_step [of e c st w ea i s] e d st(1) by simp
        from loop_step [OF Cons this] less.prems(3) have l: "escape_loop ea str (i + 1) ?e s = returns e' s'" by simp
        have "\<exists>bs rest. drop (i + 1) str = bs @ rest \<and> in_ranges (state_ranges st) bs"
        proof (rule ccontr)
          assume n: "\<not> ?thesis"
          have "length (string_buffer ?e) + length (state_ranges st) \<le> 512"
            using e(2) waiting_ranges [OF st(1)] by simp
          from tail_fails [OF st(1) _ less.prems(2) this n l] less.prems(4) show False by simp
        qed
        then obtain bs rest where bs: "drop (i + 1) str = bs @ rest" "in_ranges rs bs" using st(2) by blast
        from in_ranges_codepoint [OF Some bs(2)] obtain cp where "scalar cp" "codepoint_bytes cp = c # bs" by blast
        moreover have "drop i str = (c # bs) @ rest" using Cons i bs(1) by simp
        ultimately show ?thesis by metis
      qed
    qed
    then obtain cp rest where cp: "scalar cp" "drop i str = codepoint_bytes cp @ rest" by blast
    obtain e1 s1 where e1: "escape_loop ea str i e s = escape_loop ea str (i + length (codepoint_bytes cp)) e1 s1"
      "at_character e1" "same_settings s s1"
      using character_steps [OF less.prems(1) cp] by blast
    have rest: "drop (i + length (codepoint_bytes cp)) str = rest"
      using cp(2) by (metis add.commute append_eq_conv_conj drop_drop)
    have "0 < length (codepoint_bytes cp)" by (simp add: codepoint_bytes_def)
    then have "length str - (i + length (codepoint_bytes cp)) < length str - i" using i by linarith
    from less.hyps [OF this e1(2)] less.prems(2,3,4) e1(1,3) rest obtain cps where
      "\<forall>cp \<in> set cps. scalar cp" "rest = utf8 cps" by (auto simp: same_settings_def)
    with cp show ?thesis by (intro exI [of _ "cp # cps"]) (simp add: utf8_def)
  qed
qed

lemma strict_exact:
  assumes "error_handler s = Strict"
  shows "(\<exists>s'. dump_escaped str ea s = returns () s') \<longleftrightarrow> (\<exists>cps. (\<forall>cp \<in> set cps. scalar cp) \<and> str = utf8 cps)"
proof
  assume "\<exists>s'. dump_escaped str ea s = returns () s'"
  then obtain s' where d: "dump_escaped str ea s = returns () s'" by blast
  have b: "buffered ea escape0" using at_character_escape0 by (simp add: buffered_def)
  from loop_safe [OF b, of str 0 s] d obtain e1 s1 where
    e1: "escape_loop ea str 0 escape0 s = returns e1 s1" "same_settings s s1"
    by (auto simp: dump_escaped_def)
  with d assms have "utf8_state e1 = 0"
    by (auto simp: dump_escaped_def UTF8_ACCEPT_def Let_def same_settings_def split: if_splits)
  from strict_sound [OF at_character_escape0 assms e1(1) this] show
    "\<exists>cps. (\<forall>cp \<in> set cps. scalar cp) \<and> str = utf8 cps" by simp
next
  assume "\<exists>cps. (\<forall>cp \<in> set cps. scalar cp) \<and> str = utf8 cps"
  with dump_escaped_utf8 show "\<exists>s'. dump_escaped str ea s = returns () s'" by blast
qed

end
