(* ===== verification/JsonScaling.thy ===== *)
theory JsonScaling
  imports JsonGrisu Complex_Main
begin

text \<open>
  The arithmetic of Grisu2: the product of two numbers is the exact product rounded to 64 bits, the
  boundaries are exact, and the interval they span after the scaling with a power of ten lies
  strictly between them.
\<close>

section \<open>The product\<close>

lemma uint_and_low: "uint (x AND 0xFFFFFFFF :: 64 word) = uint x mod 2 ^ 32"
proof -
  have "(0xFFFFFFFF :: 64 word) = mask 32" by (simp add: mask_eq_exp_minus_1)
  then have "x AND 0xFFFFFFFF = take_bit 32 x" by (simp add: take_bit_eq_mask)
  then have "uint (x AND 0xFFFFFFFF) = take_bit 32 (uint x)" by (simp add: unsigned_take_bit_eq)
  then show ?thesis by (simp add: take_bit_eq_mod)
qed

lemma uint_drop: "uint (drop_bit n x :: 64 word) = uint x div 2 ^ n"
  by (subst unsigned_drop_bit_eq) (simp add: uint64(3) drop_bit_eq_div)

lemma uint_no_overflow:
  fixes x y :: "64 word"
  shows "uint x + uint y < 2 ^ 64 \<Longrightarrow> uint (x + y) = uint x + uint y"
    "uint x * uint y < 2 ^ 64 \<Longrightarrow> uint (x * y) = uint x * uint y"
    "uint y \<le> uint x \<Longrightarrow> uint (x - y) = uint x - uint y"
proof -
  have trivial: "0 \<le> n \<Longrightarrow> n < 2 ^ 64 \<Longrightarrow> n mod 2 ^ 64 = n" for n :: int
    by (rule mod_pos_pos_trivial)
  note b = uint64(1,2) [of x] uint64(1,2) [of y]
  show "uint x + uint y < 2 ^ 64 \<Longrightarrow> uint (x + y) = uint x + uint y"
    using trivial [of "uint x + uint y"] b by (simp add: uint_word_ariths)
  show "uint x * uint y < 2 ^ 64 \<Longrightarrow> uint (x * y) = uint x * uint y"
    using trivial [of "uint x * uint y"] b by (simp add: uint_word_ariths)
  assume "uint y \<le> uint x"
  with b have "0 \<le> uint x - uint y" "uint x - uint y < 2 ^ 64" by linarith+
  from trivial [OF this] show "uint (x - y) = uint x - uint y" by (simp add: uint_word_ariths)
qed

lemma half_product:
  fixes a b :: int
  assumes "0 \<le> a" "a < 2 ^ 32" "0 \<le> b" "b < 2 ^ 32"
  shows "0 \<le> a * b" "a * b \<le> (2 ^ 32 - 1) * (2 ^ 32 - 1)"
  using assms mult_mono [of a "2 ^ 32 - 1" b "2 ^ 32 - 1"] by simp_all

text \<open>The schoolbook product of two numbers of two digits to the base \<open>2 ^ 32\<close>.\<close>

lemma schoolbook:
  fixes p0 p1 p2 p3 :: int
  assumes "xy = p0 + (p1 + p2) * 2 ^ 32 + p3 * 2 ^ 64"
  shows "(xy + 2 ^ 63) div 2 ^ 64 =
    p3 + p2 div 2 ^ 32 + p1 div 2 ^ 32 + (p0 div 2 ^ 32 + p1 mod 2 ^ 32 + p2 mod 2 ^ 32 + 2 ^ 31) div 2 ^ 32"
proof -
  define q where "q = p0 div 2 ^ 32 + p1 mod 2 ^ 32 + p2 mod 2 ^ 32 + 2 ^ 31"
  have split: "\<exists>a b. p div 2 ^ 32 = a \<and> p mod 2 ^ 32 = b \<and> p = 2 ^ 32 * a + b" for p :: int
    by (metis mult_div_mod_eq)
  obtain a0 b0 where 0: "p0 div 2 ^ 32 = a0" "p0 mod 2 ^ 32 = b0" "p0 = 2 ^ 32 * a0 + b0"
    using split by blast
  obtain a1 b1 where 1: "p1 div 2 ^ 32 = a1" "p1 mod 2 ^ 32 = b1" "p1 = 2 ^ 32 * a1 + b1"
    using split by blast
  obtain a2 b2 where 2: "p2 div 2 ^ 32 = a2" "p2 mod 2 ^ 32 = b2" "p2 = 2 ^ 32 * a2 + b2"
    using split by blast
  have "xy + 2 ^ 63 = (b0 + 2 ^ 32 * q) + 2 ^ 64 * (p3 + a2 + a1)"
    unfolding assms q_def 0(1) 1(2) 2(2) by (simp add: 0(3) 1(3) 2(3))
  then have "xy + 2 ^ 63 = (p0 mod 2 ^ 32 + 2 ^ 32 * q) + 2 ^ 64 * (p3 + p2 div 2 ^ 32 + p1 div 2 ^ 32)"
    by (simp only: 0(2) 1(1) 2(1))
  then have "(xy + 2 ^ 63) div 2 ^ 64 =
      (p3 + p2 div 2 ^ 32 + p1 div 2 ^ 32) + (p0 mod 2 ^ 32 + 2 ^ 32 * q) div 2 ^ 64"
    by (simp only: div_mult_self2 [OF power_not_zero [OF zero_neq_numeral [symmetric]]])
  moreover have "(p0 mod 2 ^ 32 + 2 ^ 32 * q) div 2 ^ 64 = q div 2 ^ 32"
  proof -
    have "(p0 mod 2 ^ 32 + 2 ^ 32 * q) div (2 ^ 32 * 2 ^ 32) = (p0 mod 2 ^ 32 + 2 ^ 32 * q) div 2 ^ 32 div 2 ^ 32"
      by (rule zdiv_zmult2_eq) simp
    also have "(p0 mod 2 ^ 32 + 2 ^ 32 * q) div 2 ^ 32 = q"
      by (simp only: div_mult_self2 [OF power_not_zero [OF zero_neq_numeral [symmetric]]]
          mod_div_trivial add_0_right)
    finally show ?thesis by (simp only: power_add [symmetric] numeral_plus_numeral add_num_simps)
  qed
  ultimately show ?thesis unfolding q_def by (simp only:)
qed

lemma uint_sum:
  "uint x = a \<Longrightarrow> uint y = b \<Longrightarrow> a + b < 2 ^ 64 \<Longrightarrow> uint (x + y :: 64 word) = a + b"
  using uint_no_overflow(1) [of x y] by simp

lemma uint_product:
  "uint x = a \<Longrightarrow> uint y = b \<Longrightarrow> a * b < 2 ^ 64 \<Longrightarrow> uint (x * y :: 64 word) = a * b"
  using uint_no_overflow(2) [of x y] by simp

lemma half_word: "0 \<le> (n :: int) mod 2 ^ 32" "(n :: int) mod 2 ^ 32 < 2 ^ 32"
  by simp_all

lemma high_half:
  assumes "0 \<le> (n :: int)" "n < 2 ^ 64"
  shows "0 \<le> n div 2 ^ 32" "n div 2 ^ 32 < 2 ^ 32"
proof -
  show "0 \<le> n div 2 ^ 32" using assms(1) by (simp add: pos_imp_zdiv_nonneg_iff)
  from assms(2) have "n \<le> 2 ^ 64 - 1" by simp
  from zdiv_mono1 [OF this, of "2 ^ 32"] show "n div 2 ^ 32 < 2 ^ 32" by simp
qed

lemma diyfp_mul_exact:
  "uint (fp_f (diyfp_mul x y)) = (uint (fp_f x) * uint (fp_f y) + 2 ^ 63) div 2 ^ 64"
  "fp_e (diyfp_mul x y) = fp_e x + fp_e y + 64"
proof -
  let ?X = "uint (fp_f x)" and ?Y = "uint (fp_f y)"
  define ul uh vl vh where d: "ul = ?X mod 2 ^ 32" "uh = ?X div 2 ^ 32" "vl = ?Y mod 2 ^ 32" "vh = ?Y div 2 ^ 32"
  have b: "0 \<le> ul" "ul < 2 ^ 32" "0 \<le> uh" "uh < 2 ^ 32" "0 \<le> vl" "vl < 2 ^ 32" "0 \<le> vh" "vh < 2 ^ 32"
    unfolding d by (intro half_word high_half uint64)+
  define p0 p1 p2 p3 where p: "p0 = ul * vl" "p1 = ul * vh" "p2 = uh * vl" "p3 = uh * vh"
  have small: "n < 2 ^ 64" if "n \<le> (2 ^ 32 - 1) * (2 ^ 32 - 1)" for n :: int
    using that by simp
  note p0 = half_product [OF b(1,2,5,6), folded p] and p1 = half_product [OF b(1,2,7,8), folded p]
    and p2 = half_product [OF b(3,4,5,6), folded p] and p3 = half_product [OF b(3,4,7,8), folded p]
  define c0 m1 c1 m2 c2 where c: "c0 = p0 div 2 ^ 32" "m1 = p1 mod 2 ^ 32" "c1 = p1 div 2 ^ 32"
    "m2 = p2 mod 2 ^ 32" "c2 = p2 div 2 ^ 32"
  have cb: "0 \<le> c0" "c0 < 2 ^ 32" "0 \<le> m1" "m1 < 2 ^ 32" "0 \<le> c1" "c1 < 2 ^ 32" "0 \<le> m2" "m2 < 2 ^ 32"
    "0 \<le> c2" "c2 < 2 ^ 32"
    unfolding c by (intro half_word high_half p0 p1 p2 small)+
  define q where "q = c0 + m1 + m2 + 2 ^ 31"
  have X: "?X = ul + uh * 2 ^ 32" and Y: "?Y = vl + vh * 2 ^ 32"
    unfolding d by (simp_all only: mod_div_mult_eq)
  have "?X * ?Y = p0 + (p1 + p2) * 2 ^ 32 + p3 * 2 ^ 64"
    unfolding X Y p by (simp add: algebra_simps)
  note s = schoolbook [OF this, folded c, folded q_def]
  have "?X * ?Y \<le> (2 ^ 64 - 1) * (2 ^ 64 - 1)"
    using uint64(1,2) [of "fp_f x"] uint64(1,2) [of "fp_f y"] by (intro mult_mono) simp_all
  then have "?X * ?Y + 2 ^ 63 \<le> 2 ^ 128 - 1" by simp
  from zdiv_mono1 [OF this, of "2 ^ 64"] have "(?X * ?Y + 2 ^ 63) div 2 ^ 64 < 2 ^ 64" by simp
  then have sum: "p3 + c2 + c1 + q div 2 ^ 32 < 2 ^ 64" unfolding s .
  let ?P0 = "(fp_f x AND 0xFFFFFFFF) * (fp_f y AND 0xFFFFFFFF)"
    and ?P1 = "(fp_f x AND 0xFFFFFFFF) * drop_bit 32 (fp_f y)"
    and ?P2 = "drop_bit 32 (fp_f x) * (fp_f y AND 0xFFFFFFFF)"
    and ?P3 = "drop_bit 32 (fp_f x) * drop_bit 32 (fp_f y)"
  have U: "uint (fp_f x AND 0xFFFFFFFF) = ul" "uint (drop_bit 32 (fp_f x)) = uh"
    "uint (fp_f y AND 0xFFFFFFFF) = vl" "uint (drop_bit 32 (fp_f y)) = vh"
    unfolding d by (rule uint_and_low uint_drop)+
  have P: "uint ?P0 = p0" "uint ?P1 = p1" "uint ?P2 = p2" "uint ?P3 = p3"
    unfolding p by (intro uint_product U small; unfold p [symmetric]; intro p0 p1 p2 p3)+
  have C: "uint (drop_bit 32 ?P0) = c0" "uint (?P1 AND 0xFFFFFFFF) = m1" "uint (drop_bit 32 ?P1) = c1"
    "uint (?P2 AND 0xFFFFFFFF) = m2" "uint (drop_bit 32 ?P2) = c2"
    unfolding c P [symmetric] by (rule uint_and_low uint_drop)+
  have one: "uint (push_bit (64 - 32 - 1) (1 :: 64 word)) = 2 ^ 31" by simp
  let ?Q = "drop_bit 32 ?P0 + (?P1 AND 0xFFFFFFFF) + (?P2 AND 0xFFFFFFFF) + push_bit (64 - 32 - 1) 1"
  have Q: "uint ?Q = q"
    unfolding q_def by (intro uint_sum C one) (use cb in simp_all)
  have Qd: "uint (drop_bit 32 ?Q) = q div 2 ^ 32" unfolding Q [symmetric] by (rule uint_drop)
  have "0 \<le> q" using cb unfolding q_def by simp
  then have "0 \<le> q div 2 ^ 32" by (simp add: pos_imp_zdiv_nonneg_iff)
  then have "uint (?P3 + drop_bit 32 ?P2 + drop_bit 32 ?P1 + drop_bit 32 ?Q) = p3 + c2 + c1 + q div 2 ^ 32"
    by (intro uint_sum P(4) C Qd sum) (use cb sum in linarith)+
  then show "uint (fp_f (diyfp_mul x y)) = (?X * ?Y + 2 ^ 63) div 2 ^ 64"
    unfolding s by (simp only: diyfp_mul_def diyfp_ctor_def Let_def diyfp.simps)
  show "fp_e (diyfp_mul x y) = fp_e x + fp_e y + 64"
    by (simp only: diyfp_mul_def diyfp_ctor_def Let_def diyfp.simps)
qed

section \<open>Normalization\<close>

lemma uint_push:
  "uint x * 2 ^ n < 2 ^ 64 \<Longrightarrow> uint (push_bit n x :: 64 word) = uint x * 2 ^ n"
proof -
  assume a: "uint x * 2 ^ n < 2 ^ 64"
  have "uint (push_bit n x) = take_bit 64 (push_bit n (uint x))" by (simp add: unsigned_push_bit_eq)
  with a show ?thesis by (simp add: push_bit_eq_mult take_bit_int_eq_self)
qed

lemma normalize_shift:
  assumes "fp_f x \<noteq> 0"
  shows "\<exists>g n. diyfp_normalize x = diyfp_ctor g (fp_e x - int n) \<and> uint g = uint (fp_f x) * 2 ^ n \<and>
    2 ^ 63 \<le> uint g"
  using assms
proof (induction x rule: diyfp_normalize.induct)
  case (1 x)
  show ?case
  proof (cases "drop_bit 63 (fp_f x) = 0")
    case True
    let ?y = "diyfp_ctor (push_bit 1 (fp_f x)) (fp_e x - 1)"
    have y: "uint (fp_f ?y) = 2 * uint (fp_f x)" "fp_e ?y = fp_e x - 1"
      using push_bit_one(1) [OF True] by (simp_all only: diyfp_ctor_def diyfp.simps)
    moreover have "0 < uint (fp_f x)" using uint64_pos [OF "1.prems"] .
    ultimately have "uint (fp_f ?y) \<noteq> 0" by linarith
    then have "fp_f ?y \<noteq> 0" by auto
    with "1.IH" "1.prems" True obtain g n where g: "diyfp_normalize ?y = diyfp_ctor g (fp_e ?y - int n)"
      "uint g = uint (fp_f ?y) * 2 ^ n" "2 ^ 63 \<le> uint g" by blast
    have "diyfp_normalize x = diyfp_normalize ?y"
      using True "1.prems" by (simp add: diyfp_normalize.simps [of x])
    moreover have "fp_e ?y - int n = fp_e x - int (Suc n)" using y(2) by simp
    ultimately have "diyfp_normalize x = diyfp_ctor g (fp_e x - int (Suc n))" using g(1) by (simp only:)
    moreover have "uint g = uint (fp_f x) * 2 ^ Suc n" using g(2) y(1) by (simp only: power_Suc ac_simps)
    ultimately show ?thesis using g(3) by blast
  next
    case False
    have "uint (fp_f x) div 2 ^ 63 \<noteq> 0"
      using False uint_drop [of 63 "fp_f x"] by (metis uint_0_iff)
    then have "2 ^ 63 \<le> uint (fp_f x)" using div_pos_pos_trivial [of "uint (fp_f x)" "2 ^ 63"] uint64(1)
      by fastforce
    moreover have "diyfp_normalize x = x" using False by (simp add: diyfp_normalize.simps [of x])
    ultimately show ?thesis by (intro exI [of _ "fp_f x"] exI [of _ 0]) (simp add: diyfp_ctor_def)
  qed
qed

lemma shift_unique:
  fixes a :: int
  assumes "2 ^ 63 \<le> a * 2 ^ m" "a * 2 ^ m < 2 ^ 64" "2 ^ 63 \<le> a * 2 ^ n" "a * 2 ^ n < 2 ^ 64"
  shows "m = n"
proof -
  have "\<not> i < j" if "2 ^ 63 \<le> a * 2 ^ i" "a * 2 ^ j < 2 ^ 64" for i j
  proof
    assume "i < j"
    then obtain k where k: "j = Suc (i + k)" using less_imp_Suc_add by blast
    have "a * 2 ^ j = (a * 2 ^ i) * 2 * 2 ^ k" by (simp add: k power_add)
    moreover have "2 ^ 64 \<le> (a * 2 ^ i) * 2" using that(1) by simp
    moreover have "(a * 2 ^ i) * 2 * 1 \<le> (a * 2 ^ i) * 2 * 2 ^ k"
      using that(1) by (intro mult_left_mono) simp_all
    ultimately show False using that(2) by linarith
  qed
  with assms show ?thesis by (metis linorder_neqE_nat)
qed

text \<open>The form in which a normalization is used: the shift is the one that is expected.\<close>

lemma normalize_eq:
  assumes "2 ^ 63 \<le> uint (fp_f x) * 2 ^ n" "uint (fp_f x) * 2 ^ n < 2 ^ 64"
  shows "uint (fp_f (diyfp_normalize x)) = uint (fp_f x) * 2 ^ n" "fp_e (diyfp_normalize x) = fp_e x - int n"
proof -
  have "fp_f x \<noteq> 0" using assms(1) by auto
  from normalize_shift [OF this] obtain g m where
    g: "diyfp_normalize x = diyfp_ctor g (fp_e x - int m)" "uint g = uint (fp_f x) * 2 ^ m" "2 ^ 63 \<le> uint g"
    by blast
  with shift_unique [OF _ _ assms, of m] uint64(2) [of g] have "m = n" by simp
  with g show "uint (fp_f (diyfp_normalize x)) = uint (fp_f x) * 2 ^ n"
    "fp_e (diyfp_normalize x) = fp_e x - int n" by (simp_all only: diyfp_ctor_def diyfp.simps)
qed

section \<open>The boundaries\<close>

text \<open>
  The fields of a positive finite number in the format of IEEE 754 with 64 bits, its value, and the
  midpoints between it and its neighbours.
\<close>

definition field_E :: "64 word \<Rightarrow> int" where
  "field_E bits = uint bits div 2 ^ 52"

definition field_F :: "64 word \<Rightarrow> int" where
  "field_F bits = uint bits mod 2 ^ 52"

definition significand :: "64 word \<Rightarrow> int" where
  "significand bits = (if field_E bits = 0 then field_F bits else field_F bits + 2 ^ 52)"

definition binary_exponent :: "64 word \<Rightarrow> int" where
  "binary_exponent bits = (if field_E bits = 0 then -1074 else field_E bits - 1075)"

definition closer_below :: "64 word \<Rightarrow> bool" where
  "closer_below bits \<longleftrightarrow> field_F bits = 0 \<and> 1 < field_E bits"

definition positive_finite :: "64 word \<Rightarrow> bool" where
  "positive_finite bits \<longleftrightarrow> 0 < uint bits \<and> uint bits < 2047 * 2 ^ 52"

lemma significand_range:
  assumes "positive_finite bits"
  shows "1 \<le> significand bits" "significand bits < 2 ^ 53" "closer_below bits \<Longrightarrow> significand bits = 2 ^ 52"
    "-1074 \<le> binary_exponent bits" "binary_exponent bits \<le> 971"
proof -
  have F: "0 \<le> field_F bits" "field_F bits < 2 ^ 52" by (simp_all add: field_F_def)
  have E: "0 \<le> field_E bits" using uint64(1) [of bits] by (simp add: field_E_def pos_imp_zdiv_nonneg_iff)
  have "uint bits \<le> 2047 * 2 ^ 52 - 1" using assms by (simp add: positive_finite_def)
  from zdiv_mono1 [OF this, of "2 ^ 52"] have E2: "field_E bits \<le> 2046" by (simp add: field_E_def)
  have "field_F bits \<noteq> 0" if "field_E bits = 0"
  proof
    assume "field_F bits = 0"
    with that have "uint bits = 0" by (metis field_E_def field_F_def mult_zero_right add_0 mult_div_mod_eq)
    with assms show False by (simp add: positive_finite_def)
  qed
  with F E E2 show "1 \<le> significand bits" "significand bits < 2 ^ 53"
    "closer_below bits \<Longrightarrow> significand bits = 2 ^ 52"
    "-1074 \<le> binary_exponent bits" "binary_exponent bits \<le> 971"
    by (auto simp: significand_def binary_exponent_def closer_below_def)
qed

text \<open>The number of places by which the significand is shifted to fill 64 bits.\<close>

lemma normal_shift:
  fixes f :: int
  assumes "1 \<le> f" "f < 2 ^ 53"
  obtains n where "11 \<le> n" "n \<le> 63" "2 ^ 63 \<le> f * 2 ^ n" "f * 2 ^ n < 2 ^ 64"
proof -
  have "\<exists>n \<le> 63. 2 ^ 63 \<le> f * 2 ^ n"
    using assms(1) by (intro exI [of _ 63]) simp
  define n where "n = (LEAST n. 2 ^ 63 \<le> f * 2 ^ n)"
  have n: "2 ^ 63 \<le> f * 2 ^ n" "n \<le> 63"
    unfolding n_def using assms(1) by (auto intro: LeastI [of _ 63] Least_le)
  have "11 \<le> n"
  proof (rule ccontr)
    assume "\<not> 11 \<le> n"
    then have "(2 :: int) ^ n \<le> 2 ^ 10" by (intro power_increasing) simp_all
    then have "f * 2 ^ n \<le> (2 ^ 53 - 1) * 2 ^ 10" using assms by (intro mult_mono) simp_all
    with n(1) show False by simp
  qed
  then obtain m where m: "n = Suc m" by (cases n) simp_all
  have "\<not> 2 ^ 63 \<le> f * 2 ^ m"
    using not_less_Least [of m "\<lambda>n. 2 ^ 63 \<le> f * 2 ^ n"] m unfolding n_def [symmetric] by simp
  then have "f * 2 ^ n < 2 ^ 64" by (simp add: m)
  with n \<open>11 \<le> n\<close> show ?thesis using that by blast
qed

lemma drop52: "uint (drop_bit 52 bits) = field_E bits"
  unfolding field_E_def by (rule uint_drop)

lemma low52: "uint (bits AND (push_bit 52 1 - 1)) = field_F bits"
proof -
  have "push_bit 52 1 - 1 = (mask 52 :: 64 word)" by (simp add: mask_eq_exp_minus_1)
  then have "bits AND (push_bit 52 1 - 1) = take_bit 52 bits" by (simp only: take_bit_eq_mask)
  then have "uint (bits AND (push_bit 52 1 - 1)) = take_bit 52 (uint bits)"
    by (simp add: unsigned_take_bit_eq)
  then show ?thesis by (simp only: take_bit_eq_mod field_F_def)
qed

text \<open>The conversion of the exponent field to \<^verbatim>\<open>int\<close>.\<close>

lemma sint_small: "uint x < 2 ^ 31 \<Longrightarrow> sint (ucast (x :: 64 word) :: 32 word) = uint x"
proof -
  assume a: "uint x < 2 ^ 31"
  have "uint (ucast x :: 32 word) = uint x"
    using a uint64(1) [of x] by (simp add: unsigned_ucast_eq take_bit_int_eq_self)
  moreover have "signed_take_bit 31 (uint x) = uint x"
    using a order_trans [OF _ uint64(1) [of x], of "- (2 ^ 31)"] by (intro signed_take_bit_int_eq_self) simp_all
  ultimately show ?thesis by (simp add: sint_uint)
qed

definition exact_value :: "64 word \<Rightarrow> diyfp" where
  "exact_value bits = (let E = drop_bit 52 bits; F = bits AND (push_bit 52 1 - 1)
     in if E = 0 then diyfp_ctor F (-1074)
        else diyfp_ctor (F + push_bit 52 1) (sint (ucast E :: 32 word) - 1075))"

lemma exact_value:
  assumes "positive_finite bits"
  shows "uint (fp_f (exact_value bits)) = significand bits" "fp_e (exact_value bits) = binary_exponent bits"
proof -
  have F: "0 \<le> field_F bits" "field_F bits < 2 ^ 52" by (simp_all add: field_F_def)
  have h: "uint (push_bit 52 (1 :: 64 word)) = 2 ^ 52" by simp
  have E0: "drop_bit 52 bits = 0 \<longleftrightarrow> field_E bits = 0"
    using drop52 [of bits] uint_0_iff [of "drop_bit 52 bits"] by simp
  have "uint bits \<le> 2047 * 2 ^ 52 - 1" using assms by (simp add: positive_finite_def)
  from zdiv_mono1 [OF this, of "2 ^ 52"] have "uint (drop_bit 52 bits) < 2 ^ 31"
    unfolding drop52 by (simp add: field_E_def)
  note E = sint_small [OF this, unfolded drop52]
  have "uint ((bits AND (push_bit 52 1 - 1)) + push_bit 52 1) = field_F bits + 2 ^ 52"
    using F by (intro uint_sum low52 h) simp
  then show "uint (fp_f (exact_value bits)) = significand bits" "fp_e (exact_value bits) = binary_exponent bits"
    using E low52 [of bits] E0
    by (simp_all only: exact_value_def significand_def binary_exponent_def diyfp_ctor_def diyfp.simps Let_def
        split: if_split) simp_all
qed

text \<open>
  The boundaries in terms of the shift \<open>n\<close>: the number and its boundaries get the same exponent.
\<close>

definition lower_num :: "64 word \<Rightarrow> nat \<Rightarrow> int" where
  "lower_num bits n = (if closer_below bits then (4 * significand bits - 1) * 2 ^ (n - 2)
     else (2 * significand bits - 1) * 2 ^ (n - 1))"

lemma shift_split:
  fixes f :: int
  assumes "1 \<le> n" "f * 2 ^ n < 2 ^ 64" "n \<le> 64"
  shows "(2 * f + 1) * 2 ^ (n - 1) = f * 2 ^ n + 2 ^ (n - 1)" "f * 2 ^ n + 2 ^ (n - 1) < 2 ^ 64"
proof -
  obtain m where m: "n = Suc m" using assms(1) by (cases n) simp_all
  show "(2 * f + 1) * 2 ^ (n - 1) = f * 2 ^ n + 2 ^ (n - 1)" by (simp add: m algebra_simps)
  have p: "(2 :: int) ^ 64 = 2 ^ (64 - n) * 2 ^ n" using assms(3) by (simp add: power_add [symmetric])
  with assms(2) have "f * 2 ^ n < 2 ^ (64 - n) * 2 ^ n" by simp
  then have "f < 2 ^ (64 - n)" by simp
  then have "f + 1 \<le> 2 ^ (64 - n)" by simp
  then have "(f + 1) * 2 ^ n \<le> 2 ^ 64" unfolding p by (intro mult_right_mono) simp_all
  moreover have "(f + 1) * 2 ^ n = f * 2 ^ n + 2 ^ n" by (simp add: distrib_right)
  moreover have "(2 :: int) ^ (n - 1) < 2 ^ n" by (simp add: m)
  ultimately show "f * 2 ^ n + 2 ^ (n - 1) < 2 ^ 64" by linarith
qed

lemma lower_num_eq:
  assumes "2 \<le> n"
  shows "lower_num bits n = significand bits * 2 ^ n - (if closer_below bits then 2 ^ (n - 2) else 2 ^ (n - 1))"
proof -
  obtain m where "n = Suc (Suc m)" using assms by (metis add_2_eq_Suc le_Suc_ex)
  then show ?thesis by (simp add: lower_num_def algebra_simps)
qed

lemma normalize_to_eq:
  assumes "uint (fp_f x) * 2 ^ n < 2 ^ 64" "fp_e x - e = int n"
  shows "uint (fp_f (diyfp_normalize_to x e)) = uint (fp_f x) * 2 ^ n" "fp_e (diyfp_normalize_to x e) = e"
  using uint_push [OF assms(1)]
  by (simp_all only: diyfp_normalize_to_def Let_def assms(2) nat_int diyfp_ctor_def diyfp.simps)

lemma compute_boundaries_eq:
  "compute_boundaries bits = (let v = exact_value bits;
       m_plus = diyfp_ctor (2 * fp_f v + 1) (fp_e v - 1);
       m_minus = if bits AND (push_bit 52 1 - 1) = 0 \<and> drop_bit 52 bits > 1
         then diyfp_ctor (4 * fp_f v - 1) (fp_e v - 2) else diyfp_ctor (2 * fp_f v - 1) (fp_e v - 1);
       w_plus = diyfp_normalize m_plus
     in \<lparr>w_value = diyfp_normalize v, w_minus = diyfp_normalize_to m_minus (fp_e w_plus), w_plus = w_plus\<rparr>)"
  by (simp only: compute_boundaries_def exact_value_def Let_def) simp

lemma uint_numeral_product:
  "uint x < 2 ^ 53 \<Longrightarrow> uint (2 * x :: 64 word) = 2 * uint x"
  "uint x < 2 ^ 53 \<Longrightarrow> uint (4 * x :: 64 word) = 4 * uint x"
  by (intro uint_product; simp)+

lemma boundaries_exact:
  assumes "positive_finite bits"
  obtains n where "11 \<le> n" "n \<le> 63" "2 ^ 63 \<le> significand bits * 2 ^ n" "significand bits * 2 ^ n < 2 ^ 64"
    "uint (fp_f (w_value (compute_boundaries bits))) = significand bits * 2 ^ n"
    "uint (fp_f (w_plus (compute_boundaries bits))) = significand bits * 2 ^ n + 2 ^ (n - 1)"
    "uint (fp_f (w_minus (compute_boundaries bits))) = lower_num bits n"
    "fp_e (w_value (compute_boundaries bits)) = binary_exponent bits - int n"
    "fp_e (w_plus (compute_boundaries bits)) = binary_exponent bits - int n"
    "fp_e (w_minus (compute_boundaries bits)) = binary_exponent bits - int n"
proof -
  let ?f = "significand bits" and ?e = "binary_exponent bits" and ?v = "exact_value bits"
  note f = significand_range [OF assms] and v = exact_value [OF assms]
  obtain n where n: "11 \<le> n" "n \<le> 63" "2 ^ 63 \<le> ?f * 2 ^ n" "?f * 2 ^ n < 2 ^ 64"
    using normal_shift [OF f(1,2)] by blast
  note split = shift_split [OF _ n(4)]
  let ?p = "diyfp_ctor (2 * fp_f ?v + 1) (fp_e ?v - 1)"
  have up: "uint (2 * fp_f ?v + 1) = 2 * ?f + 1" "uint (2 * fp_f ?v - 1) = 2 * ?f - 1"
    "uint (4 * fp_f ?v - 1) = 4 * ?f - 1"
    using uint_numeral_product [of "fp_f ?v"] f(1,2) v
    by (simp_all add: uint_sum [where b = 1] uint_no_overflow(3))
  have p: "uint (fp_f ?p) = 2 * ?f + 1" "fp_e ?p = ?e - 1"
    using up v(2) by (simp_all only: diyfp_ctor_def diyfp.simps)
  have wv: "uint (fp_f (diyfp_normalize ?v)) = ?f * 2 ^ n" "fp_e (diyfp_normalize ?v) = ?e - int n"
    using normalize_eq [of ?v n] n(3,4) v by (simp_all only:)
  have r: "(2 * ?f + 1) * 2 ^ (n - 1) = ?f * 2 ^ n + 2 ^ (n - 1)" "?f * 2 ^ n + 2 ^ (n - 1) < 2 ^ 64"
    using split n(1,2) by simp_all
  have "2 ^ 63 \<le> ?f * 2 ^ n + 2 ^ (n - 1)" using n(3) by (simp add: add_increasing2)
  then have "uint (fp_f (diyfp_normalize ?p)) = (2 * ?f + 1) * 2 ^ (n - 1)"
    "fp_e (diyfp_normalize ?p) = ?e - 1 - int (n - 1)"
    using normalize_eq [of ?p "n - 1"] r p by (simp_all only:)
  then have wp: "uint (fp_f (diyfp_normalize ?p)) = ?f * 2 ^ n + 2 ^ (n - 1)"
    "fp_e (diyfp_normalize ?p) = ?e - int n"
    using r n(1) by (simp_all add: of_nat_diff)
  have F0: "bits AND (push_bit 52 1 - 1) = 0 \<longleftrightarrow> field_F bits = 0"
    using low52 [of bits] uint_0_iff by metis
  have E1: "drop_bit 52 bits > 1 \<longleftrightarrow> field_E bits > 1"
    using drop52 [of bits] by (simp add: word_less_def)
  have cl: "(bits AND (push_bit 52 1 - 1) = 0 \<and> drop_bit 52 bits > 1) \<longleftrightarrow> closer_below bits"
    unfolding closer_below_def F0 E1 ..
  let ?m = "if bits AND (push_bit 52 1 - 1) = 0 \<and> drop_bit 52 bits > 1
    then diyfp_ctor (4 * fp_f ?v - 1) (fp_e ?v - 2) else diyfp_ctor (2 * fp_f ?v - 1) (fp_e ?v - 1)"
  have "lower_num bits n \<le> ?f * 2 ^ n" using n(1) by (simp add: lower_num_eq)
  with n(4) have below: "lower_num bits n < 2 ^ 64" by linarith
  have m: "uint (fp_f ?m) * 2 ^ (if closer_below bits then n - 2 else n - 1) = lower_num bits n"
    "fp_e ?m - (?e - int n) = int (if closer_below bits then n - 2 else n - 1)"
    unfolding cl using n(1) by (simp_all add: lower_num_def up v diyfp_ctor_def)
  note wm = normalize_to_eq [OF below [folded m(1)] m(2), unfolded m(1)]
  show thesis
    by (rule that [OF n]) (simp_all only: compute_boundaries_eq Let_def boundaries.simps wv wp wm)
qed

end
