(* ===== verification/JsonDigits.thy ===== *)
theory JsonDigits
  imports JsonScaling
begin

text \<open>
  The generation of the digits: the digits that are generated, rounded, denote a number between
  \<open>M_minus\<close> and \<open>M_plus\<close>, and the first of them is not zero.
\<close>

section \<open>Lists of digits\<close>

definition num :: "int list \<Rightarrow> int" where
  "num ds = foldl (\<lambda>n d. 10 * n + d) 0 ds"

lemma num_simps [simp]: "num [] = 0" "num [d] = d" "num (ds @ [d]) = 10 * num ds + d"
  by (simp_all add: num_def)

definition decimal :: "int list \<Rightarrow> bool" where
  "decimal ds \<longleftrightarrow> (\<forall>d \<in> set ds. 0 \<le> d \<and> d \<le> 9) \<and> (ds \<noteq> [] \<longrightarrow> 1 \<le> hd ds)"

lemma decimal_snoc:
  "decimal (ds @ [d]) \<longleftrightarrow> decimal ds \<and> 0 \<le> d \<and> d \<le> 9 \<and> (ds = [] \<longrightarrow> 1 \<le> d)"
  by (cases ds) (auto simp: decimal_def)

lemma num_nonneg: "decimal ds \<Longrightarrow> 0 \<le> num ds"
  by (induction ds rule: rev_induct) (auto simp: decimal_snoc)

lemma num_pos: "decimal ds \<Longrightarrow> ds \<noteq> [] \<Longrightarrow> 1 \<le> num ds"
proof (induction ds rule: rev_induct)
  case (snoc d ds)
  then show ?case by (cases "ds = []") (auto simp: decimal_snoc decimal_def dest: num_nonneg)
qed simp

lemma decrement_last_digit:
  assumes "1 \<le> d" "d \<le> 9"
  shows "decrement_last (map digit_of (ds @ [d])) = map digit_of (ds @ [d - 1])"
proof -
  have "(of_char (digit_of d) :: int) = 0x30 + d"
    using assms by (simp add: digit_of_def)
  then show ?thesis by (simp add: decrement_last_def digit_of_def)
qed

section \<open>Rounding\<close>

lemma round_digits:
  fixes dist delta rest ten_k :: "64 word"
  assumes "decimal (ds @ [d])" "rest \<le> delta" "0 < ten_k"
    "uint delta < uint rest + d * uint ten_k"
  shows "\<exists>d'. grisu2_round (map digit_of (ds @ [d])) dist delta rest ten_k = map digit_of (ds @ [d']) \<and>
    1 \<le> d' \<and> d' \<le> d \<and> uint rest + (d - d') * uint ten_k \<le> uint delta"
  using assms
proof (induction "map digit_of (ds @ [d])" dist delta rest ten_k arbitrary: d rule: grisu2_round.induct)
  case (1 dist delta rest ten_k)
  have t: "0 < uint ten_k" using "1.prems"(3) by (simp add: word_less_def)
  have r: "uint rest \<le> uint delta" using "1.prems"(2) by (simp add: word_le_def)
  have d: "0 \<le> d" "d \<le> 9" using "1.prems"(1) by (simp_all add: decimal_snoc)
  have "d \<noteq> 0" using "1.prems"(4) r by auto
  with d have d1: "1 \<le> d" by simp
  show ?case
  proof (cases "closer dist delta rest ten_k")
    case True
    note p = closer_progress [OF True "1.prems"(2,3)]
    have "uint rest + uint ten_k \<le> uint delta" using p by (simp add: word_le_def)
    with "1.prems"(4) have "1 * uint ten_k < d * uint ten_k" by linarith
    with t have d2: "2 \<le> d" using mult_less_cancel_right [of 1 "uint ten_k" d] by auto
    have m: "decrement_last (map digit_of (ds @ [d])) = map digit_of (ds @ [d - 1])"
      using decrement_last_digit d1 d(2) by blast
    have dm: "decimal (ds @ [d - 1])" using "1.prems"(1) d2 by (simp add: decimal_snoc)
    have lt: "uint delta < uint (rest + ten_k) + (d - 1) * uint ten_k"
      using "1.prems"(4) p(1) by (simp add: algebra_simps)
    have "rest \<le> delta \<and> 0 < ten_k \<and> closer dist delta rest ten_k" using "1.prems"(2,3) True by simp
    from "1.hyps" [OF this m dm p(2) "1.prems"(3) lt] obtain d' where
      d': "grisu2_round (map digit_of (ds @ [d - 1])) dist delta (rest + ten_k) ten_k = map digit_of (ds @ [d'])"
      "1 \<le> d'" "d' \<le> d - 1" "uint (rest + ten_k) + (d - 1 - d') * uint ten_k \<le> uint delta" by blast
    have "grisu2_round (map digit_of (ds @ [d])) dist delta rest ten_k = map digit_of (ds @ [d'])"
      using True "1.prems"(2,3) d'(1) m
      by (subst grisu2_round.simps) simp
    moreover have "uint rest + (d - d') * uint ten_k \<le> uint delta"
      using d'(4) p(1) by (simp add: algebra_simps)
    ultimately show ?thesis using d' by (intro exI [of _ d']) simp
  next
    case False
    then have "grisu2_round (map digit_of (ds @ [d])) dist delta rest ten_k = map digit_of (ds @ [d])"
      by (subst grisu2_round.simps) simp
    with d1 r show ?thesis by (intro exI [of _ d]) simp
  qed
qed

section \<open>The integral part\<close>

text \<open>The digits denote a number between \<open>M - delta\<close> and \<open>M\<close>, both in units of \<open>2 ^ - s\<close>.\<close>

definition between_bounds :: "int \<Rightarrow> int \<Rightarrow> nat \<Rightarrow> int list \<Rightarrow> int \<Rightarrow> bool" where
  "between_bounds M delta s ds n \<longleftrightarrow> decimal ds \<and> ds \<noteq> [] \<and>
     (of_int (M - delta) :: rat) \<le> of_int (num ds) * 10 powi n * 2 ^ s \<and>
     (of_int (num ds) * 10 powi n * 2 ^ s :: rat) \<le> of_int M"

lemma between_integral:
  assumes "decimal ds" "ds \<noteq> []" "M - delta \<le> num ds * 10 ^ k * 2 ^ s" "num ds * 10 ^ k * 2 ^ s \<le> M"
  shows "between_bounds M delta s ds (int k)"
proof -
  have e: "(of_int (num ds) * 10 powi int k * 2 ^ s :: rat) = of_int (num ds * 10 ^ k * 2 ^ s)" by simp
  show ?thesis unfolding between_bounds_def e of_int_le_iff using assms by blast
qed

lemma between_fractional:
  assumes "decimal ds" "ds \<noteq> []" "10 ^ k * (M - delta) \<le> num ds * 2 ^ s" "num ds * 2 ^ s \<le> 10 ^ k * M"
  shows "between_bounds M delta s ds (- int k)"
proof -
  have e: "(of_int (num ds) * 10 powi (- int k) * 2 ^ s :: rat) = of_int (num ds * 2 ^ s) / 10 ^ k"
    by (simp add: power_int_minus field_simps)
  from assms(3,4) have "(of_int (10 ^ k * (M - delta)) :: rat) \<le> of_int (num ds * 2 ^ s)"
    "(of_int (num ds * 2 ^ s) :: rat) \<le> of_int (10 ^ k * M)" unfolding of_int_le_iff .
  then have "(of_int (M - delta) :: rat) \<le> of_int (num ds * 2 ^ s) / 10 ^ k"
    "(of_int (num ds * 2 ^ s) / 10 ^ k :: rat) \<le> of_int M"
    by (simp_all add: field_simps)
  with assms(1,2) show ?thesis unfolding between_bounds_def e by simp
qed

lemma uint_div_mod: "uint (x div y :: 32 word) = uint x div uint y" "uint (x mod y :: 32 word) = uint x mod uint y"
  by (simp_all add: uint_div_distrib uint_mod_distrib)

lemma uint_shifted:
  assumes "uint (x :: 32 word) * 2 ^ s < 2 ^ 64"
  shows "uint (push_bit s (ucast x) :: 64 word) = uint x * 2 ^ s"
proof -
  have "uint (ucast x :: 64 word) = uint x"
    using unsigned_less [of x, where 'a = int] by (simp add: unsigned_ucast_eq take_bit_int_eq_self)
  with uint_push [of "ucast x" s] assms show ?thesis by simp
qed

text \<open>
  \<open>holds M s n ds p1 p2\<close>: the digits \<open>ds\<close> followed by the \<open>n\<close> digits of \<open>p1\<close> and by the fraction
  \<open>p2\<close> make \<open>M\<close>.
\<close>

definition digits_hold :: "int \<Rightarrow> nat \<Rightarrow> nat \<Rightarrow> int list \<Rightarrow> int \<Rightarrow> int \<Rightarrow> bool" where
  "digits_hold M s n ds p1 p2 \<longleftrightarrow> M = (num ds * 10 ^ n + p1) * 2 ^ s + p2 \<and>
     0 \<le> p1 \<and> p1 < 10 ^ n \<and> 0 \<le> p2 \<and> p2 < 2 ^ s \<and> p1 * 2 ^ s + p2 < 2 ^ 64 \<and> decimal ds \<and>
     (ds = [] \<longrightarrow> 0 < n \<and> 10 ^ (n - 1) \<le> p1)"

lemma digits_hold_step:
  assumes "digits_hold M s (Suc n) ds p1 p2"
  shows "digits_hold M s n (ds @ [p1 div 10 ^ n]) (p1 mod 10 ^ n) p2"
    "p1 div 10 ^ n * (10 ^ n * 2 ^ s) + (p1 mod 10 ^ n * 2 ^ s + p2) = p1 * 2 ^ s + p2"
proof -
  define d r where dr: "d = p1 div 10 ^ n" "r = p1 mod 10 ^ n"
  have p: "p1 = d * 10 ^ n + r" unfolding dr by (rule div_mult_mod_eq [symmetric])
  have h: "0 \<le> p1" "p1 < 10 ^ n * 10" "p1 * 2 ^ s + p2 < 2 ^ 64" "decimal ds"
    using assms by (simp_all add: digits_hold_def)
  have d0: "0 \<le> d" using h(1) by (simp add: dr pos_imp_zdiv_nonneg_iff)
  have r: "0 \<le> r" "r < 10 ^ n" by (simp_all add: dr)
  have "d * 10 ^ n < 10 * 10 ^ n" using h(2) p r(1) by linarith
  then have "d < 10" by simp
  with d0 have d: "0 \<le> d" "d \<le> 9" by linarith+
  have e: "d * (10 ^ n * 2 ^ s) + (r * 2 ^ s + p2) = p1 * 2 ^ s + p2" by (simp add: p algebra_simps)
  moreover have "0 \<le> d * (10 ^ n * 2 ^ s)" using d(1) by simp
  ultimately have "r * 2 ^ s + p2 < 2 ^ 64" using h(3) by linarith
  moreover have "1 \<le> d" if "ds = []"
  proof -
    have "10 ^ n \<le> p1" using assms that by (simp add: digits_hold_def)
    from zdiv_mono1 [OF this, of "10 ^ n"] show ?thesis by (simp add: dr)
  qed
  ultimately have "digits_hold M s n (ds @ [d]) r p2"
    using assms d r h(4) p by (simp add: digits_hold_def decimal_snoc) (simp add: algebra_simps)
  then show "digits_hold M s n (ds @ [p1 div 10 ^ n]) (p1 mod 10 ^ n) p2" by (simp only: dr)
  from e show "p1 div 10 ^ n * (10 ^ n * 2 ^ s) + (p1 mod 10 ^ n * 2 ^ s + p2) = p1 * 2 ^ s + p2"
    by (simp only: dr)
qed

text \<open>What the first loop returns: all digits, or the digits left of the point.\<close>

definition integral_result ::
  "int \<Rightarrow> int \<Rightarrow> nat \<Rightarrow> int \<Rightarrow> nat \<Rightarrow> (string \<times> int) option \<times> string \<Rightarrow> bool"
where
  "integral_result M delta s p2 l x \<longleftrightarrow> (case x of
      (Some (buf, k), _) \<Rightarrow> \<exists>ds. buf = map digit_of ds \<and> between_bounds M delta s ds k \<and>
        int (length ds) + k = int l \<and> 0 \<le> k
    | (None, buf) \<Rightarrow> \<exists>ds. buf = map digit_of ds \<and> digits_hold M s 0 ds 0 p2 \<and> delta < p2 \<and> length ds = l)"

lemma integral_digits_spec:
  fixes delta dist p2 :: "64 word"
  assumes "digits_hold M s n ds (uint p1) (uint p2)" "uint delta < uint p1 * 2 ^ s + uint p2"
    "0 < n \<Longrightarrow> uint pow10 = 10 ^ (n - 1)" "10 ^ (n - 1) * 2 ^ s < (2 :: int) ^ 64"
  shows "integral_result M (uint delta) s (uint p2) (length ds + n)
    (integral_digits n pow10 p1 s p2 delta dist (map digit_of ds))"
  using assms
proof (induction n arbitrary: ds p1 pow10)
  case 0
  then have "uint p1 < 1" by (simp add: digits_hold_def)
  then have "uint p1 = 0" using unsigned_greater_eq [of p1, where 'a = int] by linarith
  with 0 show ?case by (auto simp: integral_result_def)
next
  case (Suc n)
  define d r rest where dr: "d = p1 div pow10" "r = p1 mod pow10" "rest = push_bit s (ucast r) + p2"
  have pw: "uint pow10 = 10 ^ n" using Suc.prems(3) by simp
  have ud: "uint d = uint p1 div 10 ^ n" "uint r = uint p1 mod 10 ^ n"
    by (simp_all add: dr uint_div_mod pw)
  note st = digits_hold_step [OF Suc.prems(1), folded ud]
  have r: "uint r * 2 ^ s + uint p2 < 2 ^ 64" using st(1) by (simp add: digits_hold_def)
  have "uint r * 2 ^ s < 2 ^ 64" using r uint64(1) [of p2] by linarith
  from uint_sum [OF uint_shifted [OF this] refl r]
  have ur: "uint rest = uint r * 2 ^ s + uint p2" by (simp only: dr(3))
  have ut: "uint (push_bit s (ucast pow10) :: 64 word) = 10 ^ n * 2 ^ s"
    using Suc.prems(4) uint_shifted [of pow10 s] by (simp add: pw)
  have buf: "map digit_of ds @ [digit_of (uint d)] = map digit_of (ds @ [uint d])" by simp
  have M: "M = num (ds @ [uint d]) * (10 ^ n * 2 ^ s) + uint rest"
    using st(1) by (simp add: digits_hold_def ur algebra_simps)
  show ?case
  proof (cases "rest \<le> delta")
    case True
    have lt: "uint delta < uint rest + uint d * uint (push_bit s (ucast pow10) :: 64 word)"
      using Suc.prems(2) st(2) by (simp add: ur ut)
    have t: "0 < (push_bit s (ucast pow10) :: 64 word)" by (simp add: word_less_def ut)
    have dec: "decimal (ds @ [uint d])" using st(1) by (simp add: digits_hold_def)
    obtain d' where d': "grisu2_round (map digit_of (ds @ [uint d])) dist delta rest (push_bit s (ucast pow10)) =
        map digit_of (ds @ [d'])" "1 \<le> d'" "d' \<le> uint d"
      "uint rest + (uint d - d') * (10 ^ n * 2 ^ s) \<le> uint delta"
      using round_digits [OF dec True t lt, of dist] unfolding ut by blast
    have "decimal (ds @ [d'])" using dec d'(2,3) by (simp add: decimal_snoc)
    moreover have "num (ds @ [d']) * 10 ^ n * 2 ^ s = M - (uint rest + (uint d - d') * (10 ^ n * 2 ^ s))"
      unfolding M by (simp add: algebra_simps)
    moreover have "0 \<le> uint rest + (uint d - d') * (10 ^ n * 2 ^ s)" using d'(3) by simp
    ultimately have "between_bounds M (uint delta) s (ds @ [d']) (int n)"
      using d'(4) by (intro between_integral) simp_all
    moreover have "integral_digits (Suc n) pow10 p1 s p2 delta dist (map digit_of ds) =
        (Some (map digit_of (ds @ [d']), int n), map digit_of (ds @ [uint d]))"
      using True by (simp only: integral_digits.simps Let_def dr [symmetric] buf d'(1) if_True)
    ultimately show ?thesis by (auto simp: integral_result_def intro!: exI [of _ "ds @ [d']"])
  next
    case False
    then have "uint delta < uint r * 2 ^ s + uint p2" by (simp add: word_le_def ur)
    moreover have "uint (pow10 div 10) = 10 ^ (n - 1)" if "0 < n"
      using that by (cases n) (simp_all add: uint_div_mod pw)
    moreover have "10 ^ (n - 1) * 2 ^ s < (2 :: int) ^ 64"
    proof -
      have "10 ^ (n - 1) * 2 ^ s \<le> (10 ^ n * 2 ^ s :: int)"
        by (intro mult_right_mono power_increasing) simp_all
      also have "\<dots> < 2 ^ 64" using Suc.prems(4) by simp
      finally show ?thesis .
    qed
    ultimately have "integral_result M (uint delta) s (uint p2) (length (ds @ [uint d]) + n)
        (integral_digits n (pow10 div 10) r s p2 delta dist (map digit_of (ds @ [uint d])))"
      by (rule Suc.IH [OF st(1)])
    moreover have "integral_digits (Suc n) pow10 p1 s p2 delta dist (map digit_of ds) =
        integral_digits n (pow10 div 10) r s p2 delta dist (map digit_of (ds @ [uint d]))"
      using False by (simp only: integral_digits.simps Let_def dr [symmetric] buf if_False)
    ultimately show ?thesis by (simp only: length_append list.size add_Suc_right add_Suc add_0_right)
  qed
qed

section \<open>The fractional part\<close>

lemma fractional_digits_spec:
  fixes delta dist p2 :: "64 word"
  assumes "1 \<le> s" "s \<le> 60" "uint p2 < 2 ^ s" "10 ^ m * M = num ds * 2 ^ s + uint p2"
    "uint delta = 10 ^ m * delta0" "uint delta < uint p2" "decimal ds" "ds \<noteq> []" "1 \<le> delta0"
  shows "\<exists>ds' j. fractional_digits s m p2 delta dist (map digit_of ds) = (map digit_of ds', - int j) \<and>
    between_bounds M delta0 s ds' (- int j) \<and> length ds' + m = length ds + j \<and> j \<le> 19"
  using assms
proof (induction s m p2 delta dist "map digit_of ds" arbitrary: ds rule: fractional_digits.induct)
  case (1 s m p2 delta dist)
  define d q where dq: "d = drop_bit s (p2 * 10)" "q = next_p2 s p2"
  note a = "1.prems"
  have s60: "(2 :: int) ^ s \<le> 2 ^ 60" using a(2) by (intro power_increasing) simp_all
  have p10: "uint (p2 * 10) = uint p2 * 10" "uint (delta * 10) = uint delta * 10"
    using a(3,6) s60 by (auto intro!: uint_product)
  have ud: "uint d = uint p2 * 10 div 2 ^ s" "uint q = uint p2 * 10 mod 2 ^ s"
    using a(2) by (simp_all add: dq uint_drop p10 next_p2_take)
  then have dq10: "uint d * 2 ^ s + uint q = uint p2 * 10" by (simp only: div_mult_mod_eq)
  have q: "uint q < 2 ^ s" unfolding ud(2) by simp
  have "uint d * 2 ^ s < 10 * 2 ^ s" using dq10 a(3) uint64(1) [of q] by linarith
  then have "uint d < 10" by simp
  then have dec: "decimal (ds @ [uint d])" using a(7,8) uint64(1) [of d] by (simp add: decimal_snoc)
  have M: "10 ^ (m + 1) * M = num (ds @ [uint d]) * 2 ^ s + uint q"
    using a(4) dq10 by (simp add: algebra_simps)
  have delta: "uint (delta * 10) = 10 ^ (m + 1) * delta0" using a(5) p10(2) by simp
  have buf: "map digit_of ds @ [digit_of (uint d)] = map digit_of (ds @ [uint d])" by simp
  note unfold = fractional_digits.simps [of s m p2 delta dist "map digit_of ds"]
  show ?case
  proof (cases "q \<le> delta * 10")
    case False
    have l: "uint (delta * 10) < uint q" using False by (simp add: word_le_def)
    have c: "s < 64 \<and> \<not> q \<le> delta * 10" using False a(2) by simp
    obtain ds' j where IH: "fractional_digits s (m + 1) q (delta * 10) (dist * 10) (map digit_of (ds @ [uint d])) =
        (map digit_of ds', - int j)" "between_bounds M delta0 s ds' (- int j)"
        "length ds' + (m + 1) = length (ds @ [uint d]) + j" "j \<le> 19"
      using "1.hyps" [OF dq(1) buf [symmetric] dq(2) refl refl c a(1,2) q M delta l dec _ a(9)] by blast
    have "fractional_digits s m p2 delta dist (map digit_of ds) = (map digit_of ds', - int j)"
      unfolding unfold Let_def dq [symmetric] buf using c IH(1) by simp
    with IH(2-) show ?thesis by (intro exI [of _ ds'] exI [of _ j]) simp
  next
    case True
    have one: "uint (push_bit s 1 :: 64 word) = 2 ^ s"
      using a(2) s60 uint_push [of 1 s] by simp
    then have t: "0 < (push_bit s 1 :: 64 word)" by (simp add: word_less_def)
    have lt: "uint (delta * 10) < uint q + uint d * uint (push_bit s 1 :: 64 word)"
      unfolding one p10(2) using dq10 a(6) by linarith
    obtain d' where d': "grisu2_round (map digit_of (ds @ [uint d])) (dist * 10) (delta * 10) q (push_bit s 1) =
        map digit_of (ds @ [d'])" "1 \<le> d'" "d' \<le> uint d" "uint q + (uint d - d') * 2 ^ s \<le> uint (delta * 10)"
      using round_digits [OF dec True t lt, of "dist * 10"] unfolding one by blast
    have "decimal (ds @ [d'])" using dec d'(2,3) by (simp add: decimal_snoc)
    moreover have "num (ds @ [d']) * 2 ^ s = 10 ^ (m + 1) * M - (uint q + (uint d - d') * 2 ^ s)"
      unfolding M by (simp add: algebra_simps)
    moreover have "0 \<le> uint q + (uint d - d') * 2 ^ s" using d'(3) by simp
    ultimately have "between_bounds M delta0 s (ds @ [d']) (- int (m + 1))"
      using d'(4) delta by (intro between_fractional) (simp_all add: right_diff_distrib)
    moreover have "fractional_digits s m p2 delta dist (map digit_of ds) =
        (map digit_of (ds @ [d']), - int (m + 1))"
      unfolding unfold Let_def dq [symmetric] buf using True d'(1) by simp
    moreover have "m + 1 \<le> 19"
    proof (rule ccontr)
      assume "\<not> m + 1 \<le> 19"
      then have "(10 :: int) ^ 19 * 1 \<le> 10 ^ m * delta0"
        using a(9) by (intro mult_mono power_increasing) simp_all
      also have "\<dots> < 2 ^ 60" using a(3,5,6) s60 by linarith
      finally show False by simp
    qed
    ultimately show ?thesis by (intro exI [of _ "ds @ [d']"] exI [of _ "m + 1"]) simp
  qed
qed

section \<open>The generation of the digits\<close>

lemma find_largest_pow10_spec:
  assumes "1 \<le> uint p" "find_largest_pow10 p = (k, pow10)"
  shows "1 \<le> k" "k \<le> 10" "uint pow10 = 10 ^ (k - 1)" "10 ^ (k - 1) \<le> uint p" "uint p < 10 ^ k"
  using assms unsigned_less [of p, where 'a = int]
  by (auto simp: find_largest_pow10_def word_le_def split: if_splits)

lemma uint_low: "uint (x AND (push_bit s 1 - 1) :: 64 word) = uint x mod 2 ^ s"
proof -
  have "push_bit s 1 - 1 = (mask s :: 64 word)" by (simp add: mask_eq_exp_minus_1 push_bit_eq_mult)
  then have "uint (x AND (push_bit s 1 - 1)) = take_bit s (uint x)"
    by (simp only: take_bit_eq_mask [symmetric] unsigned_take_bit_eq)
  then show ?thesis by (simp only: take_bit_eq_mod)
qed

lemma digit_gen_spec:
  assumes "fp_e M_plus = - int s" "32 \<le> s" "s \<le> 60" "2 ^ s \<le> uint (fp_f M_plus)"
    "0 < uint (fp_f M_minus)" "uint (fp_f M_minus) < uint (fp_f M_plus)"
  shows "\<exists>ds n. grisu2_digit_gen K M_minus w M_plus = (map digit_of ds, K + n) \<and>
    between_bounds (uint (fp_f M_plus)) (uint (fp_f M_plus) - uint (fp_f M_minus)) s ds n \<and>
    length ds \<le> 29"
proof -
  let ?M = "uint (fp_f M_plus)" and ?m = "uint (fp_f M_minus)"
  define p1 :: "32 word" where "p1 = ucast (drop_bit s (fp_f M_plus))"
  define p2 where "p2 = fp_f M_plus AND (push_bit s 1 - 1)"
  define delta where "delta = fp_f M_plus - fp_f M_minus"
  define dist where "dist = fp_f M_plus - fp_f w"
  obtain k pow10 where kp: "find_largest_pow10 p1 = (k, pow10)" by fastforce
  have ud: "uint delta = ?M - ?m" unfolding delta_def by (rule uint_no_overflow(3) [OF less_imp_le [OF assms(6)]])
  have s32: "(2 :: int) ^ 32 \<le> 2 ^ s" using assms(2) by (intro power_increasing) simp_all
  have "?M div 2 ^ s < 2 ^ 32"
  proof -
    have "?M div 2 ^ s \<le> ?M div 2 ^ 32" using s32 uint64(1) [of "fp_f M_plus"] by (intro zdiv_mono2) simp_all
    also have "\<dots> < 2 ^ 32" by (rule high_half(2) [OF uint64(1,2)])
    finally show ?thesis .
  qed
  moreover have "0 \<le> ?M div 2 ^ s" using uint64(1) by (simp add: pos_imp_zdiv_nonneg_iff)
  ultimately have u1: "uint p1 = ?M div 2 ^ s"
    by (simp add: p1_def unsigned_ucast_eq uint_drop take_bit_int_eq_self)
  have u2: "uint p2 = ?M mod 2 ^ s" unfolding p2_def by (rule uint_low)
  have M: "uint p1 * 2 ^ s + uint p2 = ?M" unfolding u1 u2 by (rule div_mult_mod_eq)
  have p1: "1 \<le> uint p1"
    using zdiv_mono1 [OF assms(4), of "2 ^ s"] by (simp add: u1)
  note pw = find_largest_pow10_spec [OF p1 kp]
  have "uint p2 < 2 ^ s" by (simp add: u2)
  with M p1 pw uint64(2) [of "fp_f M_plus"] have h: "digits_hold ?M s k [] (uint p1) (uint p2)"
    by (simp add: digits_hold_def decimal_def)
  have lt: "uint delta < uint p1 * 2 ^ s + uint p2" using assms(5) by (simp add: ud M)
  have "10 ^ (k - 1) * 2 ^ s \<le> uint p1 * 2 ^ s" using pw(4) by (intro mult_right_mono) simp_all
  with M uint64(1) [of p2] uint64(2) [of "fp_f M_plus"] have "10 ^ (k - 1) * 2 ^ s < (2 :: int) ^ 64" by linarith
  from integral_digits_spec [OF h lt pw(3) this, of dist]
  have res: "integral_result ?M (uint delta) s (uint p2) k (integral_digits k pow10 p1 s p2 delta dist [])" by simp
  have gen: "grisu2_digit_gen K M_minus w M_plus = (case integral_digits k pow10 p1 s p2 delta dist [] of
       (Some (buffer, n), _) \<Rightarrow> (buffer, K + n)
     | (None, buffer) \<Rightarrow> (case fractional_digits s 0 p2 delta dist buffer of (buffer, n) \<Rightarrow> (buffer, K + n)))"
    by (simp only: grisu2_digit_gen_def Let_def diyfp_sub_def diyfp_ctor_def diyfp.simps assms(1) minus_minus
        nat_int p1_def [symmetric] p2_def [symmetric] delta_def [symmetric] dist_def [symmetric] kp prod.case)
  obtain o' buf where x: "integral_digits k pow10 p1 s p2 delta dist [] = (o', buf)" by fastforce
  show ?thesis
  proof (cases o')
    case (Some y)
    with res x obtain ds n where "y = (map digit_of ds, n)" "between_bounds ?M (uint delta) s ds n"
      "int (length ds) + n = int k" "0 \<le> n"
      by (cases y) (auto simp: integral_result_def)
    with pw(2) show ?thesis unfolding gen x Some ud by auto
  next
    case None
    with res x obtain ds where ds: "buf = map digit_of ds" "digits_hold ?M s 0 ds 0 (uint p2)"
      "uint delta < uint p2" "length ds = k" by (auto simp: integral_result_def)
    then have "10 ^ 0 * ?M = num ds * 2 ^ s + uint p2" "uint p2 < 2 ^ s" "decimal ds" "ds \<noteq> []"
      using pw(1) by (auto simp: digits_hold_def)
    moreover have "uint delta = 10 ^ 0 * uint delta" by simp
    ultimately obtain ds' j where
      "fractional_digits s 0 p2 delta dist (map digit_of ds) = (map digit_of ds', - int j)"
      "between_bounds ?M (uint delta) s ds' (- int j)" "length ds' + 0 = length ds + j" "j \<le> 19"
      using fractional_digits_spec [of s p2 0 ?M ds delta "uint delta" dist] assms(2,3,6) ds(3) ud by force
    with pw(2) ds show ?thesis unfolding gen x None ud by auto
  qed
qed

end
