(* ===== verification/JsonPowers.thy ===== *)
theory JsonPowers
  imports JsonGrisu Complex_Main
begin

text \<open>
  The table of Grisu2: every entry is the power of ten it stands for, rounded to 64 bits, and the
  index computed for a binary exponent finds the entry that brings it into the interval the
  generation of the digits needs.
\<close>

section \<open>Every entry is a rounded power of ten\<close>

text \<open>
  \<open>near p (f, e, k)\<close> compares \<open>f * 2^e\<close> with \<open>10^k\<close> where \<open>p\<close> is the power \<open>\<bar>k\<bar>\<close> of five: the error is
  at most half a unit of the last bit.
\<close>

definition half_unit :: "int \<Rightarrow> int \<Rightarrow> int \<Rightarrow> bool" where
  "half_unit x y u \<longleftrightarrow> 2 * x \<le> 2 * y + u \<and> 2 * y \<le> 2 * x + u"

definition near :: "int \<Rightarrow> int \<times> int \<times> int \<Rightarrow> bool" where
  "near p c = (case c of (f, e, k) \<Rightarrow> 2 ^ 63 \<le> f \<and>
     (if 0 \<le> k
      then if k \<le> e then half_unit (f * 2 ^ nat (e - k)) p (2 ^ nat (e - k))
           else half_unit f (p * 2 ^ nat (k - e)) 1
      else e < k \<and> half_unit (f * p) (2 ^ nat (k - e)) p))"

fun chain :: "int \<Rightarrow> int \<Rightarrow> (int \<times> int \<times> int) list \<Rightarrow> bool" where
  "chain p k [] \<longleftrightarrow> True"
| "chain p k ((f, e, k') # cs) \<longleftrightarrow> \<bar>k'\<bar> = k \<and> near p (f, e, k') \<and> chain (p * 390625) (k + 8) cs"

lemma chain_near:
  "chain (5 ^ nat k) k cs \<Longrightarrow> 0 \<le> k \<Longrightarrow> c \<in> set cs \<Longrightarrow> near (5 ^ nat \<bar>snd (snd c)\<bar>) c"
proof (induction cs arbitrary: k)
  case (Cons d cs)
  obtain f e k' where d: "d = (f, e, k')" by (cases d)
  have "nat (k + 8) = nat k + 8" using Cons.prems(2) by simp
  then have "(5 :: int) ^ nat k * 390625 = 5 ^ nat (k + 8)" by (simp add: power_add)
  with Cons.prems d Cons.IH [of "k + 8"] show ?case by auto
qed simp

definition exact_powers :: "(int \<times> int \<times> int) list" where
  "exact_powers = map (\<lambda>(f, e, k). (uint f, e, k)) kCachedPowers"

definition below_one :: "(int \<times> int \<times> int) list" where
  "below_one = rev (take 38 exact_powers)"

lemma exact_powers_split: "set exact_powers = set (take 19 below_one) \<union> set (drop 19 below_one) \<union>
    set (take 21 (drop 38 exact_powers)) \<union> set (drop 59 exact_powers)"
proof -
  have "set xs = set (take n xs) \<union> set (drop n xs)" for n and xs :: "(int \<times> int \<times> int) list"
    by (metis append_take_drop_id set_append)
  from this [of exact_powers 38] this [of below_one 19] this [of "drop 38 exact_powers" 21]
  show ?thesis by (simp add: below_one_def Un_assoc)
qed

lemma chain1: "chain (5 ^ nat 4) 4 (take 19 below_one)"
  by code_simp

lemma chain2: "chain (5 ^ nat 156) 156 (drop 19 below_one)"
  by code_simp

lemma chain3: "chain (5 ^ nat 4) 4 (take 21 (drop 38 exact_powers))"
  by code_simp

lemma chain4: "chain (5 ^ nat 172) 172 (drop 59 exact_powers)"
  by code_simp

lemma all_near: "c \<in> set exact_powers \<Longrightarrow> near (5 ^ nat \<bar>snd (snd c)\<bar>) c"
  using chain_near [OF chain1, of c] chain_near [OF chain2, of c] chain_near [OF chain3, of c]
    chain_near [OF chain4, of c] by (simp add: exact_powers_split) blast

lemma powi_nat: "0 \<le> n \<Longrightarrow> (x :: rat) ^ nat n = x powi n"
  by (simp add: power_int_def)

lemma half_unit_rat:
  assumes "half_unit x y u"
  shows "\<bar>of_int x - of_int y :: rat\<bar> \<le> of_int u / 2"
proof -
  from assms have "(of_int (2 * x) :: rat) \<le> of_int (2 * y + u)" "(of_int (2 * y) :: rat) \<le> of_int (2 * x + u)"
    unfolding half_unit_def of_int_le_iff by blast+
  then have "2 * of_int x \<le> (2 * of_int y + of_int u :: rat)" "2 * of_int y \<le> (2 * of_int x + of_int u :: rat)"
    by simp_all
  then show ?thesis unfolding abs_le_iff by linarith
qed

text \<open>Scaling a difference by a positive number.\<close>

lemma scaled_error:
  fixes a b x y u :: rat
  assumes "\<bar>x - y\<bar> \<le> u / 2" "0 < s" "a = x * s" "b = y * s"
  shows "\<bar>a - b\<bar> \<le> u * s / 2"
proof -
  have "a - b = (x - y) * s" using assms by (simp add: left_diff_distrib)
  then have "\<bar>a - b\<bar> = \<bar>x - y\<bar> * s" using assms(2) by (simp add: abs_mult)
  with mult_right_mono [OF assms(1), of s] assms(2) show ?thesis by simp
qed

lemma ten_powi: "(10 :: rat) powi k = 5 powi k * 2 powi k"
  using power_int_mult_distrib [of "5 :: rat" 2 k] by simp

lemma near_power:
  assumes "near (5 ^ nat \<bar>k\<bar>) (f, e, k)"
  shows "\<bar>of_int f * 2 powi e - 10 powi k :: rat\<bar> \<le> 2 powi e / 2" "2 ^ 63 \<le> f"
proof -
  have two: "(2 :: rat) powi m * 2 powi n = 2 powi (m + n)" for m n by (simp add: power_int_add)
  show "2 ^ 63 \<le> f" using assms by (simp add: near_def)
  show "\<bar>of_int f * 2 powi e - 10 powi k :: rat\<bar> \<le> 2 powi e / 2"
  proof (cases "0 \<le> k")
    case True
    show ?thesis
    proof (cases "k \<le> e")
      case True
      with assms \<open>0 \<le> k\<close> have "half_unit (f * 2 ^ nat (e - k)) (5 ^ nat k) (2 ^ nat (e - k))"
        by (simp add: near_def)
      from half_unit_rat [OF this] True have
        h: "\<bar>of_int f * 2 powi (e - k) - 5 ^ nat k :: rat\<bar> \<le> 2 powi (e - k) / 2"
        by (simp add: powi_nat)
      have "\<bar>of_int f * 2 powi e - 10 powi k :: rat\<bar> \<le> 2 powi (e - k) * 2 powi k / 2"
        by (rule scaled_error [OF h]) (use \<open>0 \<le> k\<close> in \<open>simp_all add: mult.assoc two ten_powi powi_nat\<close>)
      then show ?thesis by (simp add: two)
    next
      case False
      with assms \<open>0 \<le> k\<close> have "half_unit f (5 ^ nat k * 2 ^ nat (k - e)) 1" by (simp add: near_def)
      from half_unit_rat [OF this] False have
        h: "\<bar>of_int f - 5 ^ nat k * 2 powi (k - e) :: rat\<bar> \<le> 1 / 2" by (simp add: powi_nat)
      have "\<bar>of_int f * 2 powi e - 10 powi k :: rat\<bar> \<le> 1 * 2 powi e / 2"
        by (rule scaled_error [OF h]) (use \<open>0 \<le> k\<close> in \<open>simp_all add: mult.assoc two ten_powi powi_nat\<close>)
      then show ?thesis by simp
    qed
  next
    case False
    with assms have e: "e < k" and "half_unit (f * 5 ^ nat (- k)) (2 ^ nat (k - e)) (5 ^ nat (- k))"
      by (simp_all add: near_def)
    from half_unit_rat [OF this(2)] False e have
      h: "\<bar>of_int f * 5 powi (- k) - 2 powi (k - e) :: rat\<bar> \<le> 5 powi (- k) / 2" by (simp add: powi_nat)
    have five: "(5 :: rat) powi (- k) * 5 powi k = 1" by (simp add: power_int_add [symmetric])
    have "\<bar>of_int f * 2 powi e - 10 powi k :: rat\<bar> \<le> 5 powi (- k) * (5 powi k * 2 powi e) / 2"
    proof (rule scaled_error [OF h])
      show "of_int f * 2 powi e = of_int f * 5 powi (- k) * (5 powi k * 2 powi e :: rat)"
        by (metis (no_types) five mult.assoc mult.left_neutral)
      show "10 powi k = 2 powi (k - e) * (5 powi k * 2 powi e :: rat)"
        by (simp add: ten_powi two mult.left_commute)
    qed simp
    then show ?thesis by (metis (no_types) five mult.assoc mult.left_neutral)
  qed
qed

lemma cached_power_near:
  assumes "(f, e, k) \<in> set kCachedPowers"
  shows "\<bar>of_int (uint f) * 2 powi e - 10 powi k :: rat\<bar> \<le> 2 powi e / 2" "2 ^ 63 \<le> uint f"
proof -
  have "(uint f, e, k) \<in> set exact_powers" using assms by (force simp: exact_powers_def)
  from all_near [OF this] near_power [of k "uint f" e] show
    "\<bar>of_int (uint f) * 2 powi e - 10 powi k :: rat\<bar> \<le> 2 powi e / 2" "2 ^ 63 \<le> uint f" by simp_all
qed

section \<open>The index\<close>

definition exponents :: "int list" where
  "exponents = map (\<lambda>(f, e, k). e) kCachedPowers"

definition in_window :: "int list \<Rightarrow> int \<Rightarrow> bool" where
  "in_window es e \<longleftrightarrow> (let i = cached_index e
     in 0 \<le> i \<and> i < 79 \<and> -60 \<le> es ! nat i + e + 64 \<and> es ! nat i + e + 64 \<le> -32)"

lemma windows:
  "list_all (in_window exponents) [-1137..-600]" "list_all (in_window exponents) [-599..-80]"
  "list_all (in_window exponents) [-79..440]" "list_all (in_window exponents) [441..960]"
  by code_simp+

lemma all_windows:
  assumes "-1137 \<le> e" "e \<le> 960"
  shows "in_window exponents e"
proof -
  have "(-1137 \<le> e \<and> e \<le> -600) \<or> (-599 \<le> e \<and> e \<le> -80) \<or> (-79 \<le> e \<and> e \<le> 440) \<or> (441 \<le> e \<and> e \<le> 960)"
    using assms by linarith
  with windows show ?thesis unfolding list_all_iff set_upto Ball_def atLeastAtMost_iff by blast
qed

lemma cached_power_found:
  assumes "-1137 \<le> e" "e \<le> 960" "get_cached_power_for_binary_exponent e = (c_f, c_e, c_k)"
  shows "-60 \<le> c_e + e + 64" "c_e + e + 64 \<le> -32" "(c_f, c_e, c_k) \<in> set kCachedPowers"
proof -
  let ?i = "nat (cached_index e)"
  from all_windows [OF assms(1,2)] have w: "0 \<le> cached_index e" "cached_index e < 79"
    "-60 \<le> exponents ! ?i + e + 64" "exponents ! ?i + e + 64 \<le> -32"
    by (simp_all add: in_window_def Let_def)
  have l: "?i < length kCachedPowers" using w(2) by (simp add: kCachedPowers_def)
  have "kCachedPowers ! ?i = (c_f, c_e, c_k)"
    using assms(3) by (simp add: get_cached_power_for_binary_exponent_def)
  with l w show "-60 \<le> c_e + e + 64" "c_e + e + 64 \<le> -32" "(c_f, c_e, c_k) \<in> set kCachedPowers"
    by (auto simp: exponents_def dest: nth_mem)
qed

end
