(* ===== verification/JsonGrisuCorrect.thy ===== *)
theory JsonGrisuCorrect
  imports JsonDigits JsonPowers
begin

text \<open>
  The digits of Grisu2 denote a decimal number strictly between the two midpoints that separate a
  floating-point number from its neighbours, so that reading them gives the number back.
\<close>

section \<open>The scaled interval lies strictly inside the boundaries\<close>

text \<open>
  In units of the scaled numbers: the product is rounded by at most a half, the power of ten by at
  most a half of its last bit, and one unit is taken away on each side.
\<close>

lemma rounded_product:
  fixes P W :: int
  assumes "W = (P + 2 ^ 63) div 2 ^ 64"
  shows "2 * 2 ^ 64 * W \<le> 2 * P + 2 ^ 64" "2 * P < 2 * 2 ^ 64 * W + 2 ^ 64"
proof -
  define r where "r = (P + 2 ^ 63) mod 2 ^ 64"
  have "W * 2 ^ 64 + r = P + 2 ^ 63" unfolding assms r_def by (rule div_mult_mod_eq)
  moreover have "0 \<le> r" "r < 2 ^ 64" by (simp_all add: r_def)
  ultimately show "2 * 2 ^ 64 * W \<le> 2 * P + 2 ^ 64" "2 * P < 2 * 2 ^ 64 * W + 2 ^ 64" by simp_all
qed

lemma power_error:
  fixes X Y T c :: rat
  assumes "\<bar>Y * c - T\<bar> \<le> c / 2" "0 < c" "0 \<le> X" "X < 2 ^ 64"
  shows "X * Y * c < X * T + 2 ^ 63 * c" "X * T < X * Y * c + 2 ^ 63 * c"
proof -
  have "\<bar>X * (Y * c - T)\<bar> \<le> X * (c / 2)"
    using mult_left_mono [OF assms(1,3)] assms(3) by (simp add: abs_mult)
  also have "\<dots> < 2 ^ 64 * (c / 2)" using assms(2,4) by simp
  finally have "\<bar>X * Y * c - X * T\<bar> < 2 ^ 63 * c" by (simp add: algebra_simps)
  then show "X * Y * c < X * T + 2 ^ 63 * c" "X * T < X * Y * c + 2 ^ 63 * c"
    unfolding abs_less_iff by linarith+
qed

lemma scaled_inside:
  fixes X Y W T c v :: rat
  assumes "\<bar>Y * c - T\<bar> \<le> c / 2" "0 < c" "0 \<le> X" "X < 2 ^ 64"
  shows "2 * 2 ^ 64 * W \<le> 2 * (X * Y) + 2 ^ 64 \<Longrightarrow> v \<le> W - 1 \<Longrightarrow> v * c * 2 ^ 64 < X * T"
    "2 * (X * Y) < 2 * 2 ^ 64 * W + 2 ^ 64 \<Longrightarrow> W + 1 \<le> v \<Longrightarrow> X * T < v * c * 2 ^ 64"
proof -
  note p = power_error [OF assms]
  show "v * c * 2 ^ 64 < X * T" if "2 * 2 ^ 64 * W \<le> 2 * (X * Y) + 2 ^ 64" "v \<le> W - 1"
  proof -
    have "v * 2 ^ 64 \<le> X * Y - 2 ^ 63" using that by simp
    then have "v * 2 ^ 64 * c \<le> (X * Y - 2 ^ 63) * c" using assms(2) by simp
    with p(1) show ?thesis by (simp add: algebra_simps)
  qed
  show "X * T < v * c * 2 ^ 64" if "2 * (X * Y) < 2 * 2 ^ 64 * W + 2 ^ 64" "W + 1 \<le> v"
  proof -
    have "X * Y + 2 ^ 63 \<le> v * 2 ^ 64" using that by simp
    then have "(X * Y + 2 ^ 63) * c \<le> v * 2 ^ 64 * c" using assms(2) by simp
    with p(2) show ?thesis by (simp add: algebra_simps)
  qed
qed

text \<open>The scaled numbers neither overflow nor cross.\<close>

lemma scaled_gap:
  fixes X X' Y W W' :: int
  assumes "W = (X * Y + 2 ^ 63) div 2 ^ 64" "W' = (X' * Y + 2 ^ 63) div 2 ^ 64"
    "2 ^ 63 \<le> Y" "Y < 2 ^ 64" "2 ^ 63 \<le> X'" "X' < 2 ^ 64" "0 \<le> X" "X + 8 \<le> X'"
  shows "0 \<le> W" "W + 3 \<le> W'" "2 ^ 62 \<le> W'" "W' \<le> 2 ^ 64"
proof -
  note r = rounded_product [OF assms(1)] rounded_product [OF assms(2)]
  have "0 \<le> X * Y" using assms(3,7) by simp
  then show "0 \<le> W" using assms(1) by (simp add: pos_imp_zdiv_nonneg_iff)
  have "8 * 2 ^ 63 \<le> (X' - X) * Y" using assms(3,7,8) by (intro mult_mono) simp_all
  then have "8 * 2 ^ 63 \<le> X' * Y - X * Y" by (simp add: left_diff_distrib)
  with r show "W + 3 \<le> W'" by simp
  have "2 ^ 63 * 2 ^ 63 \<le> X' * Y" using assms(3,5) by (intro mult_mono) simp_all
  with r show "2 ^ 62 \<le> W'" by simp
  have "X' * Y \<le> 2 ^ 64 * 2 ^ 64" using assms(3-6) by (intro mult_mono) simp_all
  with r show "W' \<le> 2 ^ 64" by simp
qed

text \<open>The number that the digits \<open>ds\<close> and the exponent \<open>n\<close> denote.\<close>

definition decimal_number :: "int list \<Rightarrow> int \<Rightarrow> rat" where
  "decimal_number ds n = of_int (num ds) * 10 powi n"

lemma shifted_exponent:
  assumes "c_e + e + 64 = - int s"
  shows "(2 :: rat) ^ s * 2 powi c_e * 2 ^ 64 * 2 powi e = 1"
proof -
  have "(2 :: rat) ^ s * 2 powi c_e * 2 ^ 64 * 2 powi e = 2 powi (int s + c_e + 64 + e)"
    by (simp add: power_int_add)
  also have "int s + c_e + 64 + e = 0" using assms by simp
  finally show ?thesis by simp
qed

lemma cancel_scale:
  fixes D T p q :: rat
  assumes "0 < T" "0 < q" "p * q = 1"
  shows "D * T * p < X * T \<Longrightarrow> D < X * q" "X * T < D * T * p \<Longrightarrow> X * q < D"
proof -
  have e: "D * T * p * q = D * T" using assms(3) by (simp add: mult.assoc)
  show "D < X * q" if "D * T * p < X * T"
  proof -
    have "D * T * p * q < X * T * q" by (rule mult_strict_right_mono [OF that assms(2)])
    then have "D * T < (X * q) * T" unfolding e by (simp add: ac_simps)
    with assms(1) show ?thesis by simp
  qed
  show "X * q < D" if "X * T < D * T * p"
  proof -
    have "X * T * q < D * T * p * q" by (rule mult_strict_right_mono [OF that assms(2)])
    then have "(X * q) * T < D * T" unfolding e by (simp add: ac_simps)
    with assms(1) show ?thesis by simp
  qed
qed

lemma grisu2_scaled_spec:
  assumes "fp_e m_minus = e" "fp_e m_plus = e" "-1137 \<le> e" "e \<le> 960"
    "2 ^ 63 \<le> uint (fp_f m_plus)" "uint (fp_f m_minus) + 8 \<le> uint (fp_f m_plus)"
  shows "\<exists>ds n. grisu2_scaled m_minus v m_plus = (map digit_of ds, n) \<and> decimal ds \<and> ds \<noteq> [] \<and>
    length ds \<le> 29 \<and> of_int (uint (fp_f m_minus)) * 2 powi e < decimal_number ds n \<and>
    decimal_number ds n < of_int (uint (fp_f m_plus)) * 2 powi e"
proof -
  let ?X = "uint (fp_f m_minus)" and ?X' = "uint (fp_f m_plus)"
  obtain c_f c_e c_k where c: "get_cached_power_for_binary_exponent e = (c_f, c_e, c_k)"
    using prod_cases3 by blast
  note found = cached_power_found [OF assms(3,4) c]
  note near = cached_power_near [OF found(3)]
  define s where "s = nat (- (c_e + e + 64))"
  have s: "c_e + e + 64 = - int s" "32 \<le> s" "s \<le> 60" using found(1,2) by (simp_all add: s_def)
  define w_minus w_plus M_minus M_plus where w: "w_minus = diyfp_mul m_minus (diyfp_ctor c_f c_e)"
    "w_plus = diyfp_mul m_plus (diyfp_ctor c_f c_e)"
    "M_minus = diyfp_ctor (fp_f w_minus + 1) (fp_e w_minus)"
    "M_plus = diyfp_ctor (fp_f w_plus - 1) (fp_e w_plus)"
  have sel: "fp_f (diyfp_ctor f x) = f" "fp_e (diyfp_ctor f x) = x" for f x
    by (simp_all add: diyfp_ctor_def)
  have W: "uint (fp_f w_minus) = (?X * uint c_f + 2 ^ 63) div 2 ^ 64"
    "uint (fp_f w_plus) = (?X' * uint c_f + 2 ^ 63) div 2 ^ 64"
    unfolding w diyfp_mul_exact sel by (rule refl)+
  note gap = scaled_gap [OF W near(2) uint64(2) assms(5) uint64(2) uint64(1) assms(6)]
  have Mm: "uint (fp_f M_minus) = uint (fp_f w_minus) + 1"
    unfolding w(3) sel using gap(2) uint64(2) [of "fp_f w_plus"] by (intro uint_sum) simp_all
  have Mp: "uint (fp_f M_plus) = uint (fp_f w_plus) - 1"
    unfolding w(4) sel using gap(3) uint_no_overflow(3) [of 1 "fp_f w_plus"] by simp
  have e: "fp_e M_plus = - int s"
    unfolding w sel diyfp_mul_exact(2) assms(2) using s(1) by simp
  have "(2 :: int) ^ s \<le> 2 ^ 60" using s(3) by (intro power_increasing) simp_all
  then have "2 ^ s \<le> uint (fp_f M_plus)" unfolding Mp using gap(3) by simp
  moreover have "0 < uint (fp_f M_minus)" unfolding Mm using uint64(1) [of "fp_f w_minus"] by linarith
  moreover have "uint (fp_f M_minus) < uint (fp_f M_plus)" unfolding Mm Mp using gap(2) by linarith
  ultimately obtain ds n where
    gen: "grisu2_digit_gen (- c_k) M_minus (diyfp_mul v (diyfp_ctor c_f c_e)) M_plus = (map digit_of ds, - c_k + n)"
    and between: "between_bounds (uint (fp_f M_plus)) (uint (fp_f M_plus) - uint (fp_f M_minus)) s ds n"
    and len: "length ds \<le> 29"
    using digit_gen_spec [OF e s(2,3)] by blast
  have result: "grisu2_scaled m_minus v m_plus = (map digit_of ds, - c_k + n)"
    by (simp only: grisu2_scaled_def Let_def assms(2) c prod.case w [symmetric] gen)
  let ?T = "(10 :: rat) powi c_k" and ?D = "decimal_number ds (- c_k + n)"
  have D: "of_int (num ds) * 10 powi n * 2 ^ s = ?D * ?T * 2 ^ s"
  proof -
    have "(10 :: rat) powi n = 10 powi (- c_k + n) * 10 powi c_k" by (simp flip: power_int_add)
    then show ?thesis by (simp add: decimal_number_def)
  qed
  have b: "of_int (uint (fp_f w_minus)) + 1 \<le> ?D * ?T * 2 ^ s" "?D * ?T * 2 ^ s \<le> of_int (uint (fp_f w_plus)) - 1"
    using between unfolding between_bounds_def Mm Mp D [symmetric] by simp_all
  have Xb: "(0 :: rat) \<le> of_int (uint x)" "of_int (uint x) < (2 ^ 64 :: rat)" for x :: "64 word"
  proof -
    have "(of_int 0 :: rat) \<le> of_int (uint x)" unfolding of_int_le_iff by (rule uint64(1))
    then show "(0 :: rat) \<le> of_int (uint x)" by (simp only: of_int_0)
    have "(of_int (uint x) :: rat) < of_int (2 ^ 64)" unfolding of_int_less_iff by (rule uint64(2))
    then show "of_int (uint x) < (2 ^ 64 :: rat)" by (simp only: of_int_power of_int_numeral)
  qed
  have up: "2 * 2 ^ 64 * of_int (uint (fp_f w_plus)) \<le> (2 * (of_int ?X' * of_int (uint c_f)) + 2 ^ 64 :: rat)"
    using rounded_product(1) [OF W(2), folded of_int_le_iff [where 'a = rat]]
    by (simp only: of_int_mult of_int_add of_int_power of_int_numeral)
  have low: "(2 * (of_int ?X * of_int (uint c_f)) :: rat) < 2 * 2 ^ 64 * of_int (uint (fp_f w_minus)) + 2 ^ 64"
    using rounded_product(2) [OF W(1), folded of_int_less_iff [where 'a = rat]]
    by (simp only: of_int_mult of_int_add of_int_power of_int_numeral)
  note shifted = shifted_exponent [OF s(1)]
  have T: "0 < ?T" "(0 :: rat) < 2 powi e" by simp_all
  have "?D * ?T * (2 ^ s * 2 powi c_e * 2 ^ 64) < of_int ?X' * ?T"
    using scaled_inside(1) [OF near(1) _ Xb up b(2)] by (simp add: mult.assoc)
  from cancel_scale(1) [OF T shifted this] have "?D < of_int ?X' * 2 powi e" .
  moreover have "of_int ?X * ?T < ?D * ?T * (2 ^ s * 2 powi c_e * 2 ^ 64)"
    using scaled_inside(2) [OF near(1) _ Xb low b(1)] by (simp add: mult.assoc)
  from cancel_scale(2) [OF T shifted this] have "of_int ?X * 2 powi e < ?D" .
  ultimately show ?thesis
    using result between len unfolding between_bounds_def by blast
qed

section \<open>Every finite number\<close>

text \<open>The midpoints between a number and its neighbours.\<close>

definition upper_midpoint :: "64 word \<Rightarrow> rat" where
  "upper_midpoint bits = of_int (2 * significand bits + 1) * 2 powi (binary_exponent bits - 1)"

definition lower_midpoint :: "64 word \<Rightarrow> rat" where
  "lower_midpoint bits = (if closer_below bits then of_int (4 * significand bits - 1) * 2 powi (binary_exponent bits - 2)
     else of_int (2 * significand bits - 1) * 2 powi (binary_exponent bits - 1))"

lemma shifted_midpoint:
  assumes "k \<le> n"
  shows "of_int (x * 2 ^ (n - k)) * (2 :: rat) powi (e - int n) = of_int x * 2 powi (e - int k)"
proof -
  have "(2 :: rat) ^ (n - k) * 2 powi (e - int n) = 2 powi (int (n - k) + (e - int n))"
    by (simp add: power_int_add)
  also have "int (n - k) + (e - int n) = e - int k" using assms by simp
  finally show ?thesis by (simp add: mult.assoc)
qed

lemma grisu2_between_midpoints:
  assumes "positive_finite bits"
  shows "\<exists>ds n. grisu2 bits = (map digit_of ds, n) \<and> decimal ds \<and> ds \<noteq> [] \<and> length ds \<le> 29 \<and>
    lower_midpoint bits < decimal_number ds n \<and> decimal_number ds n < upper_midpoint bits"
proof -
  let ?b = "compute_boundaries bits" and ?e = "binary_exponent bits" and ?f = "significand bits"
  obtain n where n: "11 \<le> n" "n \<le> 63" "2 ^ 63 \<le> ?f * 2 ^ n" "?f * 2 ^ n < 2 ^ 64"
    "uint (fp_f (w_plus ?b)) = ?f * 2 ^ n + 2 ^ (n - 1)" "uint (fp_f (w_minus ?b)) = lower_num bits n"
    "fp_e (w_plus ?b) = ?e - int n" "fp_e (w_minus ?b) = ?e - int n"
    using boundaries_exact [OF assms] by metis
  note e = significand_range(4,5) [OF assms]
  have "(2 :: int) ^ 10 \<le> 2 ^ (n - 1)" using n(1) by (intro power_increasing) simp_all
  then have "8 \<le> (2 :: int) ^ (n - 1)" by simp
  moreover have "0 \<le> (2 :: int) ^ (n - 2)" by simp
  ultimately have "8 - 2 ^ (n - 2) \<le> (2 :: int) ^ (n - 1)" "8 \<le> (2 :: int) ^ (n - 1)" by linarith+
  then have gap: "lower_num bits n + 8 \<le> ?f * 2 ^ n + 2 ^ (n - 1)" using n(1) by (simp add: lower_num_eq)
  have "2 ^ 63 \<le> ?f * 2 ^ n + 2 ^ (n - 1)" using n(3) by (simp add: add_increasing2)
  then obtain ds k where g: "grisu2_scaled (w_minus ?b) (w_value ?b) (w_plus ?b) = (map digit_of ds, k)"
    "decimal ds" "ds \<noteq> []" "length ds \<le> 29"
    "of_int (lower_num bits n) * 2 powi (?e - int n) < decimal_number ds k"
    "decimal_number ds k < of_int (?f * 2 ^ n + 2 ^ (n - 1)) * 2 powi (?e - int n)"
    using grisu2_scaled_spec [of "w_minus ?b" "?e - int n" "w_plus ?b" "w_value ?b"] n e gap by auto
  have "?f * 2 ^ n + 2 ^ (n - 1) = (2 * ?f + 1) * 2 ^ (n - 1)"
    using shift_split(1) [OF _ n(4)] n(1,2) by simp
  then have "of_int (?f * 2 ^ n + 2 ^ (n - 1)) * 2 powi (?e - int n) = upper_midpoint bits"
    using shifted_midpoint [of 1 n "2 * ?f + 1" ?e] n(1) by (simp only: upper_midpoint_def) simp
  moreover have "of_int (lower_num bits n) * 2 powi (?e - int n) = lower_midpoint bits"
    using shifted_midpoint [of 1 n "2 * ?f - 1" ?e] shifted_midpoint [of 2 n "4 * ?f - 1" ?e] n(1)
    by (simp add: lower_num_def lower_midpoint_def del: of_int_mult of_int_diff)
  moreover have "grisu2 bits = (map digit_of ds, k)" using g(1) by (simp add: grisu2_def Let_def)
  ultimately show ?thesis using g(2-) by (intro exI [of _ ds] exI [of _ k]) simp
qed

end
