(* ===== verification/JsonFloatText.thy ===== *)
theory JsonFloatText
  imports JsonTokens JsonGrisuCorrect
begin

text \<open>
  The text of a floating-point number: it is a number of the JSON grammar with a fraction or an
  exponent, and its value is the number the digits of Grisu2 denote.
\<close>

section \<open>Strings of digits\<close>

definition all_digits :: "int list \<Rightarrow> bool" where
  "all_digits ds \<longleftrightarrow> (\<forall>d \<in> set ds. 0 \<le> d \<and> d \<le> 9)"

lemma all_digits_simps [simp]:
  "all_digits []" "all_digits (d # ds) \<longleftrightarrow> 0 \<le> d \<and> d \<le> 9 \<and> all_digits ds"
  "all_digits (ds @ ds') \<longleftrightarrow> all_digits ds \<and> all_digits ds'" "all_digits (replicate m 0)"
  by (auto simp: all_digits_def)

lemma all_digits_parts: "all_digits ds \<Longrightarrow> all_digits (take n ds)" "all_digits ds \<Longrightarrow> all_digits (drop n ds)"
  by (auto simp: all_digits_def dest: in_set_takeD in_set_dropD)

lemma decimal_all_digits: "decimal ds \<Longrightarrow> all_digits ds"
  by (simp add: decimal_def all_digits_def)

lemma char_of_digit:
  assumes "0 \<le> d" "d \<le> 9"
  shows "is_digit (digit_of d)" "(of_char (digit_of d) :: int) = 0x30 + d"
proof -
  show u: "(of_char (digit_of d) :: int) = 0x30 + d" using assms by (simp add: digit_of_def)
  then have "int (of_char (digit_of d)) = 0x30 + d" by (simp add: int_of_char)
  with assms show "is_digit (digit_of d)" by (simp add: is_digit_def)
qed

lemma map_digit_of: "all_digits ds \<Longrightarrow> \<forall>c \<in> set (map digit_of ds). is_digit c"
  by (auto simp: all_digits_def char_of_digit)

lemma digits_value_map:
  assumes "all_digits ds"
  shows "digits_value (map digit_of ds) = num ds"
proof -
  have "foldl (\<lambda>n c. 10 * n + (of_char c - 0x30)) a (map digit_of ds) = foldl (\<lambda>n d. 10 * n + d) a ds" for a
    using assms by (induction ds arbitrary: a) (auto simp: char_of_digit)
  moreover have "takeWhile is_digit (map digit_of ds) = map digit_of ds"
    using map_digit_of [OF assms] by (simp add: takeWhile_eq_all_conv)
  ultimately show ?thesis by (simp only: digits_value_def num_def)
qed

lemma num_zeros: "num (ds @ replicate m 0) = num ds * 10 ^ m" "num (replicate m 0 @ ds) = num ds"
proof -
  show "num (ds @ replicate m 0) = num ds * 10 ^ m"
  proof (induction m)
    case (Suc m)
    have "ds @ replicate (Suc m) 0 = (ds @ replicate m 0) @ [0]" by (simp add: replicate_append_same)
    then have "num (ds @ replicate (Suc m) 0) = 10 * num (ds @ replicate m 0) + 0" by (simp only: num_simps)
    with Suc show ?case by simp
  qed simp
  have "foldl (\<lambda>n d. 10 * n + d) 0 (replicate m (0 :: int)) = 0" by (induction m) simp_all
  then show "num (replicate m 0 @ ds) = num ds" by (simp add: num_def)
qed

lemma zero_digits: "replicate m (CHR ''0'') = map digit_of (replicate m 0)"
proof -
  have "CHR ''0'' = digit_of 0" by (simp add: digit_of_def char_of_def)
  then show ?thesis by simp
qed

section \<open>The value of the parts of a number\<close>

lemma value_of_parts:
  assumes "digits i" "\<forall>c \<in> set fr. is_digit c" "exponent_part x"
  shows "decimal_value (number_text neg i (if fr = [] then [] else CHR ''.'' # fr) x) =
    (if neg then -1 else 1) * (of_int (digits_value (i @ fr)) * 10 powi (decimal_exponent x - int (length fr)))"
proof -
  have x: "x = [] \<or> (\<exists>c cs. x = c # cs \<and> \<not> is_digit c \<and> c \<noteq> CHR ''.'')"
  proof (cases "x = []")
    case False
    with assms(3) obtain c cs where c: "x = c # cs" "c \<in> {CHR ''e'', CHR ''E''}"
      unfolding exponent_part_def by blast
    from c(2) have "\<not> is_digit c \<and> c \<noteq> CHR ''.''" by (auto simp: is_digit_def)
    with c(1) show ?thesis by blast
  qed simp
  obtain d ds where i: "i = d # ds" "is_digit d" "\<forall>c \<in> set ds. is_digit c"
    using digits_Cons [OF assms(1)] by blast
  from i(2) have d: "d \<noteq> CHR ''-''" "d \<noteq> CHR ''+''" by (auto simp: is_digit_def)
  have sign: "sign_of (number_text neg i f x) = (neg, i @ f @ x)" for f
    using d by (simp add: number_text_def sign_of_def i(1))
  have whole: "takeWhile is_digit (i @ r) = i @ takeWhile is_digit r"
    "dropWhile is_digit (i @ r) = dropWhile is_digit r" for r
    using i by (simp_all add: takeWhile_append dropWhile_append)
  show ?thesis
  proof (cases "fr = []")
    case True
    have x': "takeWhile is_digit x = []" "dropWhile is_digit x = x"
      "(case x of c # cs \<Rightarrow> if c = CHR ''.'' then takeWhile is_digit cs else [] | [] \<Rightarrow> []) = []"
      using x by auto
    show ?thesis unfolding decimal_value_def sign True if_P [OF refl] append_Nil prod.case Let_def whole x'
      by simp
  next
    case False
    have "takeWhile is_digit (fr @ x) = fr" using assms(2) x by (auto simp: takeWhile_append)
    with False show ?thesis
      unfolding decimal_value_def sign by (simp add: whole Let_def is_digit_def [of "CHR ''.''"])
  qed
qed

section \<open>Exponents\<close>

lemma append_exponent_spec:
  assumes "\<bar>e\<bar> < 1000"
  shows "exponent_part (CHR ''e'' # append_exponent e)" "decimal_exponent (CHR ''e'' # append_exponent e) = e"
    "length (append_exponent e) \<le> 4"
proof -
  define k where "k = \<bar>e\<bar>"
  have k: "0 \<le> k" "k < 1000" using assms by (simp_all add: k_def)
  define ds where "ds = (if k < 10 then [0, k] else if k < 100 then [k div 10, k mod 10]
      else [k div 100, k mod 100 div 10, k mod 100 mod 10])"
  have zero: "CHR ''0'' = digit_of 0" by (simp add: digit_of_def char_of_def)
  have a: "append_exponent e = (if e < 0 then ''-'' else ''+'') @ map digit_of ds"
    by (simp add: append_exponent_def Let_def k_def [symmetric] ds_def zero)
  have n: "num ds = k"
  proof -
    have "10 * (k div 10) + k mod 10 = k" by (rule mult_div_mod_eq)
    moreover have "100 * (k div 100) + k mod 100 = k" by (rule mult_div_mod_eq)
    moreover have "10 * (k mod 100 div 10) + k mod 100 mod 10 = k mod 100" by (rule mult_div_mod_eq)
    ultimately show ?thesis by (simp add: ds_def num_def)
  qed
  have all: "all_digits ds"
  proof -
    have "k div 100 < 10" "k mod 100 div 10 < 10" "k mod 100 mod 10 < 10" "k mod 10 < 10"
      using k by simp_all
    moreover have "k < 100 \<longrightarrow> k div 10 \<le> 9"
      using zdiv_mono1 [of k 99 10] by auto
    moreover have "0 \<le> k div 100" "0 \<le> k mod 100 div 10" "0 \<le> k mod 100 mod 10" "0 \<le> k div 10" "0 \<le> k mod 10"
      using k by (simp_all add: pos_imp_zdiv_nonneg_iff)
    ultimately show ?thesis using k(1) unfolding ds_def by (auto simp only: all_digits_simps split: if_split)
  qed
  have ne: "ds \<noteq> []" by (simp add: ds_def)
  show "exponent_part (CHR ''e'' # append_exponent e)"
    unfolding exponent_part_def a using map_digit_of [OF all] ne
    by (intro disjI2 exI [of _ "CHR ''e''"] exI [of _ "if e < 0 then ''-'' else ''+''"]
        exI [of _ "map digit_of ds"]) (auto simp: digits_def)
  have "sign_of (append_exponent e) = (e < 0, map digit_of ds)" by (simp add: a sign_of_def)
  with digits_value_map [OF all] n show "decimal_exponent (CHR ''e'' # append_exponent e) = e"
    by (simp add: decimal_exponent_def Let_def k_def)
  show "length (append_exponent e) \<le> 4" by (simp add: a ds_def)
qed

section \<open>The printed digits\<close>

text \<open>
  \<open>denotes t D\<close>: the text is an unsigned number of the grammar that is not an integer, and its value
  is \<open>D\<close>, with either sign before it.
\<close>

definition denotes :: "string \<Rightarrow> rat \<Rightarrow> bool" where
  "denotes t D \<longleftrightarrow> (\<exists>i f x. t = i @ f @ x \<and> whole_part i \<and> fraction_part f \<and> exponent_part x \<and>
     (f \<noteq> [] \<or> x \<noteq> []) \<and> (\<forall>neg. decimal_value (number_text neg i f x) = (if neg then -1 else 1) * D))"

lemma denotesI:
  assumes "all_digits ds" "ds \<noteq> []" "ds = [0] \<or> hd ds \<noteq> 0" "all_digits fr" "exponent_part x" "fr \<noteq> [] \<or> x \<noteq> []"
    "D = of_int (num (ds @ fr)) * 10 powi (decimal_exponent x - int (length fr))"
    "t = map digit_of ds @ (if fr = [] then [] else CHR ''.'' # map digit_of fr) @ x"
  shows "denotes t D"
proof -
  let ?i = "map digit_of ds" and ?f = "if fr = [] then [] else CHR ''.'' # map digit_of fr"
  have i: "digits ?i" using assms(1,2) map_digit_of by (simp add: digits_def)
  have zero: "digit_of d = CHR ''0'' \<longleftrightarrow> d = 0" if "0 \<le> d" "d \<le> 9" for d
  proof
    assume "digit_of d = CHR ''0''"
    then have "(of_char (digit_of d) :: int) = of_char (CHR ''0'')" by (rule arg_cong)
    with char_of_digit(2) [OF that] show "d = 0" by simp
  qed (simp add: digit_of_def char_of_def)
  obtain d ds' where d: "ds = d # ds'" using assms(2) by (cases ds) simp_all
  with assms(1,3) zero [of d] zero [of 0] i have "whole_part ?i" by (auto simp: whole_part_def)
  moreover have "fraction_part ?f"
    using map_digit_of [OF assms(4)] by (auto simp: fraction_part_def digits_def)
  moreover have "decimal_value (number_text neg ?i ?f x) = (if neg then -1 else 1) * D" for neg
    using value_of_parts [OF i map_digit_of [OF assms(4)] assms(5), of neg]
      digits_value_map [of "ds @ fr"] assms(1,4,7) by simp
  ultimately show ?thesis unfolding denotes_def using assms(5,6,8)
    by (intro exI [of _ ?i] exI [of _ ?f] exI [of _ x]) simp
qed

lemma format_buffer_spec:
  assumes "decimal ds" "ds \<noteq> []" "\<bar>int (length ds) + e - 1\<bar> < 1000"
  shows "denotes (format_buffer (map digit_of ds) e (-4) 15) (decimal_number ds e)"
    "length (format_buffer (map digit_of ds) e (-4) 15) \<le> length ds + 17"
proof -
  let ?k = "int (length ds)" and ?n = "int (length ds) + e"
  note all = decimal_all_digits [OF assms(1)]
  have hd: "hd ds \<noteq> 0" using assms(1,2) by (auto simp: decimal_def)
  have k: "1 \<le> ?k" using assms(2) by (cases ds) simp_all
  note x = append_exponent_spec [OF assms(3)]
  have no_exponent: "exponent_part []" "decimal_exponent [] = 0"
    by (simp_all add: exponent_part_def decimal_exponent_def)
  have powi: "(10 :: rat) ^ m * 10 powi j = 10 powi (int m + j)" for m j by (simp add: power_int_add)
  consider (large) "?k \<le> ?n" "?n \<le> 15" | (inside) "?n < ?k" "0 < ?n" "?n \<le> 15"
    | (small) "?n < ?k" "-4 < ?n" "?n \<le> 0" | (exponent) "\<not> (?k \<le> ?n \<and> ?n \<le> 15)" "\<not> (0 < ?n \<and> ?n \<le> 15)"
      "\<not> (-4 < ?n \<and> ?n \<le> 0)"
    by linarith
  then have "denotes (format_buffer (map digit_of ds) e (-4) 15) (decimal_number ds e) \<and>
    length (format_buffer (map digit_of ds) e (-4) 15) \<le> length ds + 17"
  proof cases
    case large
    then have t: "format_buffer (map digit_of ds) e (-4) 15 =
        map digit_of (ds @ replicate (nat e) 0) @ (CHR ''.'' # map digit_of [0]) @ []"
      by (simp add: format_buffer_def Let_def zero_digits) (simp add: digit_of_def char_of_def)
    have "num ((ds @ replicate (nat e) 0) @ [0]) = 10 * (num ds * 10 ^ nat e)"
      by (simp only: num_simps num_zeros)
    then have "decimal_number ds e = of_int (num ((ds @ replicate (nat e) 0) @ [0])) * 10 powi (decimal_exponent [] - int (length [0 :: int]))"
      using large powi_nat [of e 10] by (simp add: decimal_number_def no_exponent power_int_minus)
    then have "denotes (format_buffer (map digit_of ds) e (-4) 15) (decimal_number ds e)"
      unfolding t using all assms(2) hd no_exponent
      by (intro denotesI [of "ds @ replicate (nat e) 0" "[0]" "[]"]) simp_all
    with large k show ?thesis by (simp add: t)
  next
    case inside
    then have t: "format_buffer (map digit_of ds) e (-4) 15 =
        map digit_of (take (nat ?n) ds) @ (CHR ''.'' # map digit_of (drop (nat ?n) ds)) @ []"
      by (simp add: format_buffer_def Let_def take_map drop_map)
    have l: "length (drop (nat ?n) ds) = nat (- e)" using inside by simp
    then have ne: "drop (nat ?n) ds \<noteq> []" using inside by auto
    have "decimal_number ds e = of_int (num (take (nat ?n) ds @ drop (nat ?n) ds)) *
        10 powi (decimal_exponent [] - int (length (drop (nat ?n) ds)))"
      unfolding l using inside by (simp add: decimal_number_def no_exponent)
    then have "denotes (format_buffer (map digit_of ds) e (-4) 15) (decimal_number ds e)"
      unfolding t using all_digits_parts [OF all] assms(2) hd no_exponent ne inside
      by (intro denotesI [of "take (nat ?n) ds" "drop (nat ?n) ds" "[]"]) simp_all
    moreover have "length (take (nat ?n) ds) + length (drop (nat ?n) ds) = length ds"
      by (metis append_take_drop_id length_append)
    ultimately show ?thesis by (simp add: t)
  next
    case small
    have t: "format_buffer (map digit_of ds) e (-4) 15 =
        map digit_of [0] @ (CHR ''.'' # map digit_of (replicate (nat (- ?n)) 0 @ ds)) @ []"
      using small by (simp add: format_buffer_def Let_def zero_digits) (simp add: digit_of_def char_of_def)
    have "decimal_number ds e = of_int (num ([0] @ replicate (nat (- ?n)) 0 @ ds)) *
        10 powi (decimal_exponent [] - int (length (replicate (nat (- ?n)) 0 @ ds)))"
    proof -
      have "num ([0] @ replicate (nat (- ?n)) 0 @ ds) = num ds"
        using num_zeros(2) [of "Suc (nat (- ?n))" ds] by simp
      moreover have "decimal_exponent [] - int (length (replicate (nat (- ?n)) (0 :: int) @ ds)) = e"
        using small(3) no_exponent by simp
      ultimately show ?thesis by (simp only: decimal_number_def)
    qed
    then have "denotes (format_buffer (map digit_of ds) e (-4) 15) (decimal_number ds e)"
      unfolding t using all assms(2) no_exponent
      by (intro denotesI [of "[0]" "replicate (nat (- ?n)) 0 @ ds" "[]"]) simp_all
    with small show ?thesis by (simp add: t)
  next
    case exponent
    let ?x = "CHR ''e'' # append_exponent (?n - 1)"
    obtain d ds' where d: "ds = d # ds'" using assms(2) by (cases ds) simp_all
    have t: "format_buffer (map digit_of ds) e (-4) 15 =
        map digit_of [d] @ (if ds' = [] then [] else CHR ''.'' # map digit_of ds') @ ?x"
      unfolding format_buffer_def Let_def length_map if_not_P [OF exponent(1)] if_not_P [OF exponent(2)]
        if_not_P [OF exponent(3)] by (simp add: d)
    have "decimal_number ds e = of_int (num ([d] @ ds')) * 10 powi (decimal_exponent ?x - int (length ds'))"
      unfolding x(2) by (simp add: d decimal_number_def)
    then have "denotes (format_buffer (map digit_of ds) e (-4) 15) (decimal_number ds e)"
      unfolding t using all hd x(1) d by (intro denotesI [of "[d]" ds' ?x]) simp_all
    moreover have "length (format_buffer (map digit_of ds) e (-4) 15) \<le> length ds + 17"
      unfolding t using x(3) by (cases ds') (simp_all add: d)
    ultimately show ?thesis by blast
  qed
  then show "denotes (format_buffer (map digit_of ds) e (-4) 15) (decimal_number ds e)"
    "length (format_buffer (map digit_of ds) e (-4) 15) \<le> length ds + 17" by blast+
qed

section \<open>The range of the exponents\<close>

lemma num_range:
  assumes "decimal ds" "ds \<noteq> []"
  shows "10 ^ (length ds - 1) \<le> num ds" "num ds < 10 ^ length ds"
proof -
  have "num ds < 10 ^ length ds \<and> (ds \<noteq> [] \<longrightarrow> 10 ^ (length ds - 1) \<le> num ds)" using assms(1)
  proof (induction ds rule: rev_induct)
    case (snoc d ds)
    then have d: "decimal ds" "0 \<le> d" "d \<le> 9" by (simp_all add: decimal_snoc)
    show ?case
    proof (cases "ds = []")
      case True
      with snoc.prems show ?thesis by (simp add: decimal_def)
    next
      case False
      then obtain n where n: "length ds = Suc n" by (cases ds) simp_all
      with snoc.IH [OF d(1)] d(2,3) False show ?thesis by simp
    qed
  qed simp
  with assms(2) show "10 ^ (length ds - 1) \<le> num ds" "num ds < 10 ^ length ds" by simp_all
qed

lemma decimal_number_range:
  assumes "decimal ds" "ds \<noteq> []"
  shows "(10 :: rat) powi (int (length ds) + e - 1) \<le> decimal_number ds e"
    "decimal_number ds e < 10 powi (int (length ds) + e)"
proof -
  note r = num_range [OF assms, folded of_int_le_iff [where 'a = rat] of_int_less_iff [where 'a = rat]]
  have "int (length ds) - 1 = int (length ds - 1)" using assms(2) by (cases ds) simp_all
  then have "(10 :: rat) powi (int (length ds) + e - 1) = 10 ^ (length ds - 1) * 10 powi e"
    by (metis add_diff_eq add.commute power_int_add power_int_of_nat zero_neq_numeral diff_add_eq)
  with r(1) show "(10 :: rat) powi (int (length ds) + e - 1) \<le> decimal_number ds e"
    by (simp add: decimal_number_def)
  have "(10 :: rat) powi (int (length ds) + e) = 10 ^ length ds * 10 powi e" by (simp add: power_int_add)
  with r(2) show "decimal_number ds e < 10 powi (int (length ds) + e)"
    by (simp add: decimal_number_def)
qed

lemma midpoint_range:
  assumes "positive_finite bits"
  shows "upper_midpoint bits \<le> 2 ^ 1024 - 2 ^ 970" "10 powi (-324) \<le> lower_midpoint bits"
proof -
  note f = significand_range [OF assms]
  have two: "(2 :: rat) powi m \<le> 2 powi n" if "m \<le> n" for m n
    using that by (intro power_int_increasing) simp_all
  have "(of_int (2 * significand bits + 1) :: rat) \<le> of_int (2 * 2 ^ 53 - 1)"
    unfolding of_int_le_iff using f(2) by simp
  moreover have "(2 :: rat) powi (binary_exponent bits - 1) \<le> 2 powi 970" using f(5) by (intro two) simp
  ultimately have "upper_midpoint bits \<le> of_int (2 * 2 ^ 53 - 1) * 2 powi 970"
    unfolding upper_midpoint_def using f(1) by (intro mult_mono) simp_all
  also have "\<dots> = 2 ^ 1024 - 2 ^ 970" by simp
  finally show "upper_midpoint bits \<le> 2 ^ 1024 - 2 ^ 970" .
  have small: "2 powi (-1076) \<le> of_int x * (2 :: rat) powi y" if "1 \<le> x" "-1076 \<le> y" for x y
  proof -
    have "1 * 2 powi (-1076) \<le> of_int x * (2 :: rat) powi y"
      using that(1) two [OF that(2)] by (intro mult_mono) simp_all
    then show ?thesis by simp
  qed
  have "(10 :: rat) powi (-324) \<le> 2 powi (-1076)" by (simp add: power_int_minus)
  also have "\<dots> \<le> lower_midpoint bits"
  proof (cases "closer_below bits")
    case True
    have "2 powi (-1076) \<le> of_int (4 * significand bits - 1) * (2 :: rat) powi (binary_exponent bits - 2)"
      by (rule small) (use f(1,4) in simp_all)
    then show ?thesis by (simp only: lower_midpoint_def True if_True)
  next
    case False
    have "2 powi (-1076) \<le> of_int (2 * significand bits - 1) * (2 :: rat) powi (binary_exponent bits - 1)"
      by (rule small) (use f(1,4) in simp_all)
    then show ?thesis by (simp only: lower_midpoint_def False if_False)
  qed
  finally show "10 powi (-324) \<le> lower_midpoint bits" .
qed

lemma exponent_range:
  assumes "decimal ds" "ds \<noteq> []" "positive_finite bits"
    "lower_midpoint bits < decimal_number ds e" "decimal_number ds e < upper_midpoint bits"
  shows "\<bar>int (length ds) + e - 1\<bar> < 1000"
proof -
  note r = decimal_number_range [OF assms(1,2), of e] and m = midpoint_range [OF assms(3)]
  have ten: "m < n" if "(10 :: rat) powi m < 10 powi n" for m n
    using that power_int_increasing [of n m "10 :: rat"] by (cases "m < n") simp_all
  have "(2 :: rat) ^ 1024 - 2 ^ 970 \<le> 10 powi 309" by simp
  with r(1) assms(5) m(1) have "(10 :: rat) powi (int (length ds) + e - 1) < 10 powi 309" by linarith
  then have "int (length ds) + e - 1 < 309" by (rule ten)
  moreover have "(10 :: rat) powi (-324) < 10 powi (int (length ds) + e)"
    using r(2) assms(4) m(2) by linarith
  then have "-324 < int (length ds) + e" by (rule ten)
  ultimately show ?thesis by linarith
qed

section \<open>The text of every finite number\<close>

definition magnitude :: "64 word \<Rightarrow> 64 word" where
  "magnitude bits = bits AND 0x7FFFFFFFFFFFFFFF"

definition finite_bits :: "64 word \<Rightarrow> bool" where
  "finite_bits bits \<longleftrightarrow> uint (magnitude bits) < 2047 * 2 ^ 52"

definition float_value :: "64 word \<Rightarrow> rat" where
  "float_value bits = (if bit bits 63 then -1 else 1) *
     (if magnitude bits = 0 then 0
      else of_int (significand (magnitude bits)) * 2 powi binary_exponent (magnitude bits))"

text \<open>
  The rounding \<open>fl\<close> returns the number for every number between the midpoints: what rounding to the
  nearest means for it.
\<close>

definition rounds_to :: "(rat \<Rightarrow> rat) \<Rightarrow> 64 word \<Rightarrow> bool" where
  "rounds_to fl bits \<longleftrightarrow> (let sign = (if bit bits 63 then -1 else 1) in
     if magnitude bits = 0 then fl 0 = 0
     else \<forall>x. lower_midpoint (magnitude bits) < x \<and> x < upper_midpoint (magnitude bits) \<longrightarrow>
       fl (sign * x) = float_value bits)"

lemma to_chars_text:
  assumes "finite_bits bits"
  shows "\<exists>t D. to_chars bits = (if bit bits 63 then ''-'' else []) @ t \<and> denotes t D \<and> length t \<le> 46 \<and>
    (if magnitude bits = 0 then D = 0
     else lower_midpoint (magnitude bits) < D \<and> D < upper_midpoint (magnitude bits))"
proof (cases "magnitude bits = 0")
  case True
  then have "to_chars bits = (if bit bits 63 then ''-'' else []) @ ''0.0''"
    by (simp add: to_chars_def magnitude_def Let_def)
  moreover have "denotes ''0.0'' 0"
    by (rule denotesI [of "[0]" "[0]" "[]"])
      (simp_all add: exponent_part_def decimal_exponent_def num_def digit_of_def char_of_def)
  ultimately show ?thesis using True by (intro exI [of _ "''0.0''"] exI [of _ 0]) simp
next
  case False
  have "0 < uint (magnitude bits)" using False by (rule uint64_pos)
  with assms have p: "positive_finite (magnitude bits)" by (simp add: positive_finite_def finite_bits_def)
  obtain ds n where g: "grisu2 (magnitude bits) = (map digit_of ds, n)" "decimal ds" "ds \<noteq> []" "length ds \<le> 29"
    "lower_midpoint (magnitude bits) < decimal_number ds n" "decimal_number ds n < upper_midpoint (magnitude bits)"
    using grisu2_between_midpoints [OF p] by blast
  note f = format_buffer_spec [OF g(2,3) exponent_range [OF g(2,3) p g(5,6)]]
  have "to_chars bits = (if bit bits 63 then ''-'' else []) @ format_buffer (map digit_of ds) n (-4) 15"
    using False g(1) by (simp add: to_chars_def magnitude_def Let_def)
  with f g False show ?thesis
    by (intro exI [of _ "format_buffer (map digit_of ds) n (-4) 15"] exI [of _ "decimal_number ds n"]) simp
qed

lemma to_chars_reads_back:
  assumes "finite_bits bits" "rounds_to fl bits"
  obtains i f x where "to_chars bits = number_text (bit bits 63) i f x" "whole_part i" "fraction_part f"
    "exponent_part x" "f \<noteq> [] \<or> x \<noteq> []" "strtod fl (to_chars bits) = Some (float_value bits)"
proof -
  let ?m = "magnitude bits" and ?s = "if bit bits 63 then -1 else 1 :: rat"
  obtain t D where t: "to_chars bits = (if bit bits 63 then ''-'' else []) @ t" "denotes t D"
    "if ?m = 0 then D = 0 else lower_midpoint ?m < D \<and> D < upper_midpoint ?m"
    using to_chars_text [OF assms(1)] by blast
  obtain i f x where p: "t = i @ f @ x" "whole_part i" "fraction_part f" "exponent_part x" "f \<noteq> [] \<or> x \<noteq> []"
    "decimal_value (number_text (bit bits 63) i f x) = ?s * D"
    using t(2) unfolding denotes_def by metis
  have n: "to_chars bits = number_text (bit bits 63) i f x" by (simp add: t(1) p(1) number_text_def)
  have fl: "fl (?s * D) = float_value bits"
    using assms(2) t(3) by (auto simp: rounds_to_def float_value_def Let_def split: if_splits)
  have "\<bar>?s * D\<bar> < 2 ^ 1024 - 2 ^ 970"
  proof (cases "?m = 0")
    case False
    then have "positive_finite ?m"
      using uint64_pos [OF False] assms(1) by (simp add: positive_finite_def finite_bits_def)
    note r = midpoint_range [OF this]
    have "(0 :: rat) < 10 powi (-324)" by simp
    then have "0 < D \<and> D < 2 ^ 1024 - 2 ^ 970" using r t(3) False by (auto simp del: power_int_minus)
    then show ?thesis by (simp add: abs_mult)
  qed (use t(3) in simp)
  then have "strtod fl (to_chars bits) = Some (float_value bits)"
    by (simp add: strtod_def n p(6) fl Let_def del: abs_mult)
  with that n p show thesis by blast
qed

end
