(* ===== verification/JsonDumpCorrect.thy ===== *)
theory JsonDumpCorrect
  imports JsonIntegerText JsonEscapeSafe JsonFloatText JsonLayout
begin

text \<open>
  What \<^verbatim>\<open>dump\<close> prints is a text of the grammar, compact or with any indentation up to 1024, and the
  parser returns the value from it, with its members in the order of their names.
\<close>

section \<open>Values that can be printed\<close>

definition utf8_string :: "string \<Rightarrow> bool" where
  "utf8_string s \<longleftrightarrow> (\<exists>cps. (\<forall>cp \<in> set cps. scalar cp) \<and> s = utf8 cps)"

text \<open>The value of the text: the members in order, and an integer with a sign only when negative.\<close>

fun canonical :: "json \<Rightarrow> json" where
  "canonical (Object ms) = Object (sort_key fst (map (\<lambda>(k, v). (k, canonical v)) ms))"
| "canonical (Array vs) = Array (map canonical vs)"
| "canonical (Number_integer i) = (if sint i < 0 then Number_integer i else Number_unsigned i)"
| "canonical v = v"

text \<open>
  The names of an object are distinct, strings are UTF-8, and a floating point number is the one its
  64 bits stand for and the one the rounding of \<^verbatim>\<open>strtod\<close> gives.
\<close>

fun dumpable :: "(rat \<Rightarrow> rat) \<Rightarrow> (rat \<Rightarrow> 64 word) \<Rightarrow> json \<Rightarrow> bool" where
  "dumpable fl repr (Object ms) \<longleftrightarrow>
     distinct (map fst ms) \<and> (\<forall>(k, v) \<in> set ms. utf8_string k \<and> dumpable fl repr v)"
| "dumpable fl repr (Array vs) \<longleftrightarrow> (\<forall>v \<in> set vs. dumpable fl repr v)"
| "dumpable fl repr (String s) \<longleftrightarrow> utf8_string s"
| "dumpable fl repr (Number_float x) \<longleftrightarrow>
     finite_bits (repr x) \<and> rounds_to fl (repr x) \<and> float_value (repr x) = x"
| "dumpable fl repr Discarded \<longleftrightarrow> False"
| "dumpable fl repr v \<longleftrightarrow> True"

section \<open>Indentation\<close>

definition wider :: "serializer \<Rightarrow> serializer \<Rightarrow> bool" where
  "wider s s' \<longleftrightarrow> length (indent_string s) \<le> length (indent_string s') \<and>
     (whitespace (indent_string s) \<longrightarrow> whitespace (indent_string s'))"

lemma wider_trans: "wider s s' \<Longrightarrow> wider s' s'' \<Longrightarrow> wider s s''"
  by (auto simp: wider_def)

lemma wider_refl [simp]: "wider s s" "wider s (write_characters cs s)" "wider (write_characters cs s) s"
  by (simp_all add: wider_def write_characters_def)

text \<open>
  The string for the indentation is long enough for the current level, and doubling it once makes it
  long enough for the next one.
\<close>

definition room :: "32 word \<Rightarrow> 32 word \<Rightarrow> serializer \<Rightarrow> bool" where
  "room step level s \<longleftrightarrow> whitespace (indent_string s) \<and> unat level \<le> length (indent_string s) \<and>
     (unat step \<le> length (indent_string s) \<or> level = 0 \<and> unat step \<le> 2 * length (indent_string s))"

lemma room_wider: "room step level s \<Longrightarrow> wider s s' \<Longrightarrow> room step level s'"
  by (auto simp: room_def wider_def)

lemma whitespace_blanks: "whitespace (replicate n (CHR '' ''))"
  by (induction n) (simp_all add: is_whitespace_def)

lemma whitespace_take: "whitespace w \<Longrightarrow> whitespace (take n w)"
  using set_take_subset [of n w] by (auto simp: whitespace_def)

lemma wider_grow: "wider s (grow_indent n s)"
  by (auto simp: wider_def grow_indent_def whitespace_blanks)

lemma room_grow:
  assumes "room step level s"
  shows "room step (level + step) (grow_indent (level + step) s)"
proof -
  have "unat (level + step) \<le> unat level + unat step" by (simp add: unat_word_ariths)
  with assms wider_grow [of s "level + step"] show ?thesis
    by (auto simp: room_def wider_def grow_indent_def)
qed

section \<open>Printing\<close>

definition prints :: "serializer \<Rightarrow> (unit, serializer) result \<Rightarrow> string \<Rightarrow> bool" where
  "prints s r t \<longleftrightarrow> (\<exists>s'. r = returns () s' \<and> written s' = written s @ t \<and> wider s s')"

lemma prints_written: "prints s (returns () (write_characters cs s)) cs"
  by (simp add: prints_def write_characters_def wider_def)

lemma prints_nothing: "prints s (returns () s) []"
  by (simp add: prints_def)

lemma prints_write: "prints (write_characters cs s) r t \<Longrightarrow> prints s r (cs @ t)"
  by (fastforce simp: prints_def write_characters_def wider_def)

lemma prints_then:
  assumes "prints s r t" "\<And>s'. wider s s' \<Longrightarrow> prints s' (k s') t'"
  shows "prints s (then_do r k) (t @ t')"
proof -
  obtain s1 where s1: "r = returns () s1" "written s1 = written s @ t" "wider s s1"
    using assms(1) by (auto simp: prints_def)
  from assms(2) [OF s1(3)] obtain s2 where
    "k s1 = returns () s2" "written s2 = written s1 @ t'" "wider s1 s2" by (auto simp: prints_def)
  with s1 show ?thesis by (auto simp: prints_def then_do_def intro: wider_trans)
qed

text \<open>A step whose text depends on the state before it.\<close>

lemma prints_then_ex:
  assumes "prints s r t" "\<And>s'. wider s s' \<Longrightarrow> \<exists>t'. prints s' (k s') t' \<and> P t'"
  shows "\<exists>t'. prints s (then_do r k) (t @ t') \<and> P t'"
proof -
  obtain s1 where s1: "r = returns () s1" "written s1 = written s @ t" "wider s s1"
    using assms(1) by (auto simp: prints_def)
  from assms(2) [OF s1(3)] obtain t' s2 where
    "k s1 = returns () s2" "written s2 = written s1 @ t'" "wider s1 s2" "P t'" by (auto simp: prints_def)
  with s1 show ?thesis by (auto simp: prints_def then_do_def intro!: exI [of _ t'] intro: wider_trans)
qed

lemma prints_indent:
  assumes "unat n \<le> length (indent_string s)"
  shows "prints s (write_indent n s) (take (unat n) (indent_string s))"
  using assms by (simp add: write_indent_def Let_def prints_written)

lemma prints_escaped: "utf8_string k \<Longrightarrow> \<exists>e. prints s (dump_escaped k ea s) e \<and> json_chars e k"
proof -
  assume "utf8_string k"
  then obtain cps where cps: "\<forall>cp \<in> set cps. scalar cp" "k = utf8 cps" by (auto simp: utf8_string_def)
  have "prints s (dump_escaped k ea s) (escaped_text ea cps)"
    using dump_escaped_utf8 [OF cps(1), of ea s] prints_written [of s] by (simp add: cps(2) write_characters_def)
  with escaped_text_chars [OF cps(1)] cps(2) show ?thesis by blast
qed

section \<open>Members and elements\<close>

lemma members_after_space: "json_members fl e xs \<Longrightarrow> whitespace w \<Longrightarrow> json_members fl (w @ e) xs"
proof (erule json_members.cases)
  fix w1 k n w' w'' e' v w'''
  assume "whitespace w" "e = w1 @ CHR 0x22 # k @ CHR 0x22 # w' @ CHR '':'' # w'' @ e' @ w'''" "xs = [(n, v)]"
    "whitespace w1" "json_chars k n" "whitespace w'" "whitespace w''" "json_value fl e' v" "whitespace w'''"
  then show "json_members fl (w @ e) xs"
    using member [of "w @ w1" k n w' w'' fl e' v w'''] by simp
next
  fix w1 k n w' w'' e' v w''' es ms
  assume "whitespace w" "e = w1 @ CHR 0x22 # k @ CHR 0x22 # w' @ CHR '':'' # w'' @ e' @ w''' @ CHR '','' # es"
    "xs = (n, v) # ms" "whitespace w1" "json_chars k n" "whitespace w'" "whitespace w''"
    "json_value fl e' v" "whitespace w'''" "json_members fl es ms"
  then show "json_members fl (w @ e) xs"
    using members [of "w @ w1" k n w' w'' fl e' v w''' es ms] by simp
qed

lemma elements_after_space: "json_elements fl e xs \<Longrightarrow> whitespace w \<Longrightarrow> json_elements fl (w @ e) xs"
proof (erule json_elements.cases)
  fix w1 e' v w'
  assume "whitespace w" "e = w1 @ e' @ w'" "xs = [v]" "whitespace w1" "json_value fl e' v" "whitespace w'"
  then show "json_elements fl (w @ e) xs" using element [of "w @ w1" fl e' v w'] by simp
next
  fix w1 e' v w' es vs
  assume "whitespace w" "e = w1 @ e' @ w' @ CHR '','' # es" "xs = v # vs" "whitespace w1"
    "json_value fl e' v" "whitespace w'" "json_elements fl es vs"
  then show "json_elements fl (w @ e) xs" using elements [of "w @ w1" fl e' v w' es vs] by simp
qed

text \<open>A value prints a text of the grammar for its canonical form, from every state with room.\<close>

definition prints_value ::
  "(rat \<Rightarrow> rat) \<Rightarrow> (rat \<Rightarrow> 64 word) \<Rightarrow> bool \<Rightarrow> bool \<Rightarrow> 32 word \<Rightarrow> 32 word \<Rightarrow> json \<Rightarrow> bool"
where
  "prints_value fl repr pretty ea step level v \<longleftrightarrow> (\<forall>s. (pretty \<longrightarrow> room step level s) \<longrightarrow>
     (\<exists>t. prints s (dump_value repr pretty ea step level v s) t \<and> json_value fl t (canonical v)))"

definition separator :: "bool \<Rightarrow> string" where
  "separator pretty = (if pretty then '','' @ [CHR 0x0A] else '','')"

lemma separator_space: obtains w where "separator pretty = CHR '','' # w" "whitespace w"
  by (auto simp: separator_def is_whitespace_def intro: that [of "if pretty then [CHR 0x0A] else []"] split: if_splits)

lemma line_start:
  assumes "pretty \<longrightarrow> room step level s"
  obtains w where "prints s (if pretty then write_indent level s else returns () s) w" "whitespace w"
proof (cases pretty)
  case True
  with assms have "prints s (write_indent level s) (take (unat level) (indent_string s))"
    "whitespace (take (unat level) (indent_string s))"
    by (simp_all add: room_def prints_indent whitespace_take)
  with True that show thesis by simp
next
  case False
  with that [of "[]"] show thesis by (simp add: prints_nothing)
qed

lemma elements_printed:
  assumes "\<forall>v \<in> set vs. prints_value fl repr pretty ea step level v" "vs \<noteq> []" "pretty \<longrightarrow> room step level s"
  shows "\<exists>t. prints s (dump_elements repr pretty ea step level vs s) t \<and>
    (\<forall>w. whitespace w \<longrightarrow> json_elements fl (t @ w) (map canonical vs))"
  using assms
proof (induction vs arbitrary: s)
  case (Cons v vs)
  obtain w where w: "prints s (if pretty then write_indent level s else returns () s) w" "whitespace w"
    using line_start [OF Cons.prems(3)] by blast
  have room: "pretty \<longrightarrow> room step level s'" if "wider s s'" for s'
    using Cons.prems(3) that room_wider by blast
  let ?rest = "\<lambda>s. if vs = [] then returns () s
    else dump_elements repr pretty ea step level vs (write_characters (separator pretty) s)"
  let ?good = "\<lambda>t. \<forall>w'. whitespace w' \<longrightarrow> json_elements fl (w @ t @ w') (map canonical (v # vs))"
  have tail: "\<exists>t'. prints s2 (then_do (dump_value repr pretty ea step level v s2) ?rest) t' \<and> ?good t'"
    if s2: "wider s s2" for s2
  proof -
    obtain e where e: "prints s2 (dump_value repr pretty ea step level v s2) e" "json_value fl e (canonical v)"
      using Cons.prems(1) room [OF s2] unfolding prints_value_def by (metis list.set_intros(1))
    have "\<exists>t'. prints s3 (?rest s3) t' \<and> ?good (e @ t')" if s3: "wider s2 s3" for s3
    proof (cases "vs = []")
      case True
      with prints_nothing [of s3] element [OF w(2) e(2)] show ?thesis by (intro exI [of _ "[]"]) simp
    next
      case False
      obtain sp where sp: "separator pretty = CHR '','' # sp" "whitespace sp" by (rule separator_space)
      have "wider s (write_characters (separator pretty) s3)"
        using s2 s3 by (blast intro: wider_trans wider_refl)
      from Cons.IH [OF _ False room [OF this]] Cons.prems(1) obtain t where
        t: "prints (write_characters (separator pretty) s3)
            (dump_elements repr pretty ea step level vs (write_characters (separator pretty) s3)) t"
          "\<forall>w'. whitespace w' \<longrightarrow> json_elements fl (t @ w') (map canonical vs)" by auto
      have "?good (e @ separator pretty @ t)"
        using elements [OF w(2) e(2), of "[]"] elements_after_space [OF _ sp(2)] t(2) by (simp add: sp(1))
      with prints_write [OF t(1)] False show ?thesis by auto
    qed
    from prints_then_ex [of s2 _ e ?rest "\<lambda>t. ?good (e @ t)", OF e(1) this] show ?thesis by auto
  qed
  have "dump_elements repr pretty ea step level (v # vs) s =
    then_do (if pretty then write_indent level s else returns () s)
      (\<lambda>s. then_do (dump_value repr pretty ea step level v s) ?rest)"
    by (simp add: separator_def cong: if_cong)
  with prints_then_ex [of s _ w "\<lambda>s. then_do (dump_value repr pretty ea step level v s) ?rest" ?good, OF w(1) tail]
  show ?case by auto
qed simp

lemma members_printed:
  assumes "\<forall>(k, v) \<in> set ms. utf8_string k \<and> prints_value fl repr pretty ea step level v" "ms \<noteq> []"
    "pretty \<longrightarrow> room step level s"
  shows "\<exists>t. prints s (dump_members repr pretty ea step level ms s) t \<and>
    (\<forall>w. whitespace w \<longrightarrow> json_members fl (t @ w) (map (\<lambda>(k, v). (k, canonical v)) ms))"
  using assms
proof (induction ms arbitrary: s)
  case (Cons m ms)
  obtain k v where m: "m = (k, v)" by (cases m)
  obtain w where w: "prints s (if pretty then write_indent level s else returns () s) w" "whitespace w"
    using line_start [OF Cons.prems(3)] by blast
  have room: "pretty \<longrightarrow> room step level s'" if "wider s s'" for s'
    using Cons.prems(3) that room_wider by blast
  have k: "utf8_string k" and v: "prints_value fl repr pretty ea step level v" using Cons.prems(1) by (auto simp: m)
  let ?colon = "if pretty then '': '' else '':''" and ?ms = "map (\<lambda>(k, v). (k, canonical v)) ms"
  let ?rest = "\<lambda>s. if ms = [] then returns () s
    else dump_members repr pretty ea step level ms (write_characters (separator pretty) s)"
  let ?val = "\<lambda>s. then_do (dump_value repr pretty ea step level v (write_characters (CHR 0x22 # ?colon) s)) ?rest"
  let ?name = "\<lambda>s. then_do (dump_escaped k ea (write_character (CHR 0x22) s)) ?val"
  let ?good = "\<lambda>t. \<forall>w'. whitespace w' \<longrightarrow> json_members fl (w @ t @ w') ((k, canonical v) # ?ms)"
  have colon: "?colon = CHR '':'' # (if pretty then '' '' else [])" "whitespace (if pretty then '' '' else [])"
    by (simp_all add: is_whitespace_def)
  have name: "\<exists>t. prints s2 (?name s2) t \<and> ?good t" if s2: "wider s s2" for s2
  proof -
    let ?s2 = "write_character (CHR 0x22) s2"
    obtain e where e: "prints ?s2 (dump_escaped k ea ?s2) e" "json_chars e k" using prints_escaped [OF k] by blast
    have "\<exists>t. prints s3 (?val s3) t \<and> ?good (CHR 0x22 # e @ t)" if "wider ?s2 s3" for s3
    proof -
      let ?s3 = "write_characters (CHR 0x22 # ?colon) s3"
      have s3: "wider s ?s3" using s2 that by (blast intro: wider_trans wider_refl)
      obtain x where x: "prints ?s3 (dump_value repr pretty ea step level v ?s3) x" "json_value fl x (canonical v)"
        using v room [OF s3] unfolding prints_value_def by blast
      have "\<exists>t. prints s4 (?rest s4) t \<and> ?good (CHR 0x22 # e @ (CHR 0x22 # ?colon) @ x @ t)"
        if "wider ?s3 s4" for s4
      proof (cases "ms = []")
        case True
        with prints_nothing [of s4] member [OF w(2) e(2) _ colon(2) x(2), of "[]"] show ?thesis
          unfolding colon(1) by (intro exI [of _ "[]"]) simp
      next
        case False
        obtain sp where sp: "separator pretty = CHR '','' # sp" "whitespace sp" by (rule separator_space)
        have "wider s (write_characters (separator pretty) s4)"
          using s3 that by (blast intro: wider_trans wider_refl)
        from Cons.IH [OF _ False room [OF this]] Cons.prems(1) obtain t where
          t: "prints (write_characters (separator pretty) s4)
              (dump_members repr pretty ea step level ms (write_characters (separator pretty) s4)) t"
            "\<forall>w'. whitespace w' \<longrightarrow> json_members fl (t @ w') ?ms" by auto
        have "?good (CHR 0x22 # e @ (CHR 0x22 # ?colon) @ x @ separator pretty @ t)"
          using members [OF w(2) e(2) _ colon(2) x(2), of "[]" "[]"] members_after_space [OF _ sp(2)] t(2)
          unfolding colon(1) sp(1) by simp
        with prints_write [OF t(1)] False show ?thesis by auto
      qed
      from prints_then_ex [of ?s3 _ x ?rest "\<lambda>t. ?good (CHR 0x22 # e @ (CHR 0x22 # ?colon) @ x @ t)", OF x(1) this]
      obtain t where "prints ?s3 (then_do (dump_value repr pretty ea step level v ?s3) ?rest) (x @ t)"
        "?good (CHR 0x22 # e @ (CHR 0x22 # ?colon) @ x @ t)" by blast
      with prints_write [of _ s3] show ?thesis by blast
    qed
    from prints_then_ex [of ?s2 _ e ?val "\<lambda>t. ?good (CHR 0x22 # e @ t)", OF e(1) this] obtain t where
      "prints ?s2 (?name s2) (e @ t)" "?good (CHR 0x22 # e @ t)" by blast
    with prints_write [of "[CHR 0x22]" s2 "?name s2" "e @ t"] show ?thesis
      by (intro exI [of _ "CHR 0x22 # e @ t"]) simp
  qed
  have "dump_members repr pretty ea step level (m # ms) s =
    then_do (if pretty then write_indent level s else returns () s) ?name"
    by (simp add: m separator_def cong: if_cong)
  with prints_then_ex [of s _ w ?name ?good, OF w(1) name] show ?case by (auto simp: m)
qed simp

section \<open>Values\<close>

lemma insort_key_map:
  "insort_key fst (k, f v) (map (\<lambda>(k, v). (k, f v)) ys) = map (\<lambda>(k, v). (k, f v)) (insort_key fst (k, v) ys)"
  by (induction ys) auto

lemma sort_key_map: "sort_key fst (map (\<lambda>(k, v). (k, f v)) xs) = map (\<lambda>(k, v). (k, f v)) (sort_key fst xs)"
  by (induction xs) (auto simp: insort_key_map)

lemma integer_text: "json_value fl (to_string (sint i)) (canonical (Number_integer i))"
  using integer_value [of i fl] unsigned_value [of fl i]
  by (auto simp: to_string_def unat_of_sint(2) not_less)

lemma finite_isfinite: "finite_bits bits \<Longrightarrow> isfinite bits"
proof -
  assume f: "finite_bits bits"
  have "uint (drop_bit 52 bits AND 0x7FF) = uint (magnitude bits) div 2 ^ 52"
  proof -
    have "drop_bit 52 bits AND 0x7FF = drop_bit 52 (magnitude bits)"
      by (simp add: magnitude_def drop_bit_and)
    then show ?thesis by (simp add: uint_drop)
  qed
  moreover have "uint (magnitude bits) div 2 ^ 52 < 2047" using f by (simp add: finite_bits_def)
  ultimately show ?thesis by (auto simp: isfinite_def)
qed

lemma float_text:
  assumes "finite_bits bits" "rounds_to fl bits"
  shows "json_value fl (to_chars bits) (Number_float (float_value bits))"
proof -
  obtain i f x where p: "to_chars bits = number_text (bit bits 63) i f x" "whole_part i" "fraction_part f"
    "exponent_part x" "f \<noteq> [] \<or> x \<noteq> []" "strtod fl (to_chars bits) = Some (float_value bits)"
    using to_chars_reads_back [OF assms] by blast
  have "converted fl (number_token (bit bits 63) f x) (to_chars bits) = Some (Number_float (float_value bits))"
    using p(5,6) by (auto simp: number_token_def converted_def)
  then have "json_number fl (to_chars bits) (Number_float (float_value bits))"
    using json_number.number [OF p(2-4), of fl "bit bits 63"] by (simp add: p(1))
  then show ?thesis by (rule json_value_json_elements_json_members.number)
qed

lemma scalar_printed:
  assumes "dump_value repr pretty ea step level v = (\<lambda>s. returns () (write_characters t s))"
    "json_value fl t (canonical v)"
  shows "prints_value fl repr pretty ea step level v"
  using assms prints_written by (auto simp: prints_value_def)

text \<open>What is printed between the brackets of an array or an object that is not empty.\<close>

lemma bracketed:
  assumes "\<And>s. pretty \<longrightarrow> room step (if pretty then level + step else level) s \<Longrightarrow> \<exists>t. prints s (body s) t \<and> P t"
    "pretty \<longrightarrow> room step level s"
    "\<And>w t w'. P t \<Longrightarrow> whitespace w \<Longrightarrow> whitespace w' \<Longrightarrow> Q (opening # w @ t @ w' @ [closing])"
  shows "\<exists>t. prints s (if pretty then
      then_do (body (grow_indent (level + step) (write_characters (opening # [CHR 0x0A]) s))) (\<lambda>s.
        then_do (write_indent level (write_character (CHR 0x0A) s)) (\<lambda>s. returns () (write_character closing s)))
    else then_do (body (write_character opening s)) (\<lambda>s. returns () (write_character closing s))) t \<and> Q t"
proof (cases pretty)
  case False
  from assms(1) [of "write_character opening s"] False obtain t where
    t: "prints (write_character opening s) (body (write_character opening s)) t" "P t" by auto
  have "prints (write_character opening s)
      (then_do (body (write_character opening s)) (\<lambda>s. returns () (write_character closing s))) (t @ [closing])"
    by (rule prints_then [OF t(1) prints_written])
  from prints_write [OF this] assms(3) [OF t(2), of "[]" "[]"] False show ?thesis by auto
next
  case True
  let ?s = "write_characters (opening # [CHR 0x0A]) s"
  let ?g = "grow_indent (level + step) ?s"
  have r: "room step level ?s" using room_wider [OF _ wider_refl(2)] assms(2) True by blast
  from assms(1) [of ?g] room_grow [OF r] True obtain t where t: "prints ?g (body ?g) t" "P t" by auto
  have "prints ?s (body ?g) t"
    using t(1) wider_grow [of ?s "level + step"] by (auto simp: prints_def grow_indent_def intro: wider_trans)
  moreover have "\<exists>t'. prints s' (then_do (write_indent level (write_character (CHR 0x0A) s'))
      (\<lambda>s. returns () (write_character closing s))) t' \<and> Q ((opening # [CHR 0x0A]) @ t @ t')" if "wider ?s s'" for s'
  proof -
    let ?s' = "write_character (CHR 0x0A) s'" and ?w = "take (unat level) (indent_string (write_character (CHR 0x0A) s'))"
    have "room step level ?s'" using r that by (blast intro: room_wider wider_trans wider_refl)
    then have i: "prints ?s' (write_indent level ?s') ?w" "whitespace ?w"
      by (simp_all add: room_def prints_indent whitespace_take)
    have "prints ?s' (then_do (write_indent level ?s') (\<lambda>s. returns () (write_character closing s))) (?w @ [closing])"
      by (rule prints_then [OF i(1) prints_written])
    from prints_write [OF this] assms(3) [OF t(2), of "[CHR 0x0A]" "CHR 0x0A # ?w"] i(2) show ?thesis
      by (auto simp: is_whitespace_def)
  qed
  ultimately have "\<exists>t'. prints ?s (then_do (body ?g) (\<lambda>s. then_do (write_indent level (write_character (CHR 0x0A) s))
      (\<lambda>s. returns () (write_character closing s)))) (t @ t') \<and> Q ((opening # [CHR 0x0A]) @ t @ t')"
    by (rule prints_then_ex)
  then obtain t' where t': "prints ?s (then_do (body ?g) (\<lambda>s. then_do (write_indent level (write_character (CHR 0x0A) s))
      (\<lambda>s. returns () (write_character closing s)))) (t @ t')" "Q ((opening # [CHR 0x0A]) @ t @ t')" by blast
  from prints_write [OF t'(1)] t'(2) True show ?thesis by (intro exI [of _ "(opening # [CHR 0x0A]) @ t @ t'"]) simp
qed

lemma object_printed:
  assumes "\<forall>(k, v) \<in> set ms. utf8_string k \<and> (\<forall>level. prints_value fl repr pretty ea step level v)"
  shows "prints_value fl repr pretty ea step level (Object ms)"
proof (cases "ms = []")
  case True
  show ?thesis
    by (rule scalar_printed [of _ _ _ _ _ _ "''{}''"]) (use True empty_object [of "[]" fl] in auto)
next
  case False
  let ?ms = "sort_key fst ms" and ?level = "if pretty then level + step else level"
  let ?body = "dump_members repr pretty ea step ?level ?ms"
  have nonempty: "?ms \<noteq> []" using False by (metis set_sort set_empty)
  have body: "\<exists>t. prints s (?body s) t \<and>
      (\<forall>w. whitespace w \<longrightarrow> json_members fl (t @ w) (map (\<lambda>(k, v). (k, canonical v)) ?ms))"
    if "pretty \<longrightarrow> room step ?level s" for s
    using assms by (intro members_printed nonempty that) auto
  have close: "json_value fl (CHR ''{'' # w @ t @ w' @ [CHR ''}'']) (canonical (Object ms))"
    if "\<forall>w. whitespace w \<longrightarrow> json_members fl (t @ w) (map (\<lambda>(k, v). (k, canonical v)) ?ms)"
      "whitespace w" "whitespace w'" for w t w'
    using object [OF members_after_space [OF _ that(2), of fl "t @ w'"]] that(1,3) by (simp add: sort_key_map)
  show ?thesis unfolding prints_value_def
  proof (intro allI impI)
    fix s assume r: "pretty \<longrightarrow> room step level s"
    from bracketed [where body = ?body and Q = "\<lambda>t. json_value fl t (canonical (Object ms))", OF body r close]
    show "\<exists>t. prints s (dump_value repr pretty ea step level (Object ms) s) t \<and> json_value fl t (canonical (Object ms))"
      using False by (cases pretty) (simp_all add: Let_def)
  qed
qed

lemma array_printed:
  assumes "\<forall>v \<in> set vs. \<forall>level. prints_value fl repr pretty ea step level v"
  shows "prints_value fl repr pretty ea step level (Array vs)"
proof (cases "vs = []")
  case True
  show ?thesis
    by (rule scalar_printed [of _ _ _ _ _ _ "''[]''"]) (use True empty_array [of "[]" fl] in auto)
next
  case False
  let ?level = "if pretty then level + step else level"
  let ?body = "dump_elements repr pretty ea step ?level vs"
  have body: "\<exists>t. prints s (?body s) t \<and> (\<forall>w. whitespace w \<longrightarrow> json_elements fl (t @ w) (map canonical vs))"
    if "pretty \<longrightarrow> room step ?level s" for s
    using assms by (intro elements_printed False that) auto
  have close: "json_value fl (CHR ''['' # w @ t @ w' @ [CHR '']'']) (canonical (Array vs))"
    if "\<forall>w. whitespace w \<longrightarrow> json_elements fl (t @ w) (map canonical vs)" "whitespace w" "whitespace w'" for w t w'
    using array [OF elements_after_space [OF _ that(2), of fl "t @ w'"]] that(1,3) by simp
  show ?thesis unfolding prints_value_def
  proof (intro allI impI)
    fix s assume r: "pretty \<longrightarrow> room step level s"
    from bracketed [where body = ?body and Q = "\<lambda>t. json_value fl t (canonical (Array vs))", OF body r close]
    show "\<exists>t. prints s (dump_value repr pretty ea step level (Array vs) s) t \<and> json_value fl t (canonical (Array vs))"
      using False by (cases pretty) (simp_all add: Let_def)
  qed
qed

lemma string_printed:
  assumes "utf8_string str"
  shows "prints_value fl repr pretty ea step level (String str)"
  unfolding prints_value_def
proof (intro allI impI)
  fix s
  obtain e where e: "prints (write_character (CHR 0x22) s) (dump_escaped str ea (write_character (CHR 0x22) s)) e"
    "json_chars e str" using prints_escaped [OF assms] by blast
  have "prints (write_character (CHR 0x22) s) (then_do (dump_escaped str ea (write_character (CHR 0x22) s))
      (\<lambda>s. returns () (write_character (CHR 0x22) s))) (e @ [CHR 0x22])"
    by (rule prints_then [OF e(1) prints_written])
  from prints_write [OF this] string [OF e(2), of fl] show
    "\<exists>t. prints s (dump_value repr pretty ea step level (String str) s) t \<and> json_value fl t (canonical (String str))"
    by auto
qed

lemma value_printed: "dumpable fl repr v \<Longrightarrow> prints_value fl repr pretty ea step level v"
proof (induction v arbitrary: level)
  case Null
  then show ?case by (auto intro!: scalar_printed null)
next
  case (Boolean b)
  then show ?case using true [of fl] false [of fl] by (auto intro!: scalar_printed)
next
  case (Number_integer i)
  show ?case by (rule scalar_printed [OF _ integer_text]) (simp add: fun_eq_iff dump_integer_text)
next
  case (Number_unsigned u)
  show ?case
    by (rule scalar_printed [of _ _ _ _ _ _ "nat_to_string (unat u)"])
      (simp_all add: fun_eq_iff dump_unsigned_text unsigned_value)
next
  case (Number_float x)
  then show ?case using float_text [of "repr x" fl]
    by (intro scalar_printed [of _ _ _ _ _ _ "to_chars (repr x)"])
      (simp_all add: fun_eq_iff dump_float_def finite_isfinite)
next
  case (String str)
  then show ?case by (simp add: string_printed)
next
  case (Array vs)
  then show ?case by (intro array_printed) auto
next
  case (Object ms)
  then show ?case by (intro object_printed) (fastforce elim: snds.cases)
qed simp

section \<open>Whole values\<close>

lemma distinct_sorted_names: "distinct (map fst ms) \<Longrightarrow> distinct (map fst (sort_key fst ms))"
  by (subst mset_eq_imp_distinct_iff [of _ "map fst ms"]) simp_all

lemma obj_update_new: "k \<notin> fst ` set ms \<Longrightarrow> obj_update k v ms = ms @ [(k, v)]"
  by (induction ms) auto

lemma fold_obj_update:
  "distinct (map fst (acc @ ms)) \<Longrightarrow> fold (\<lambda>(k, v). obj_update k v) ms acc = acc @ ms"
proof (induction ms arbitrary: acc)
  case (Cons m ms)
  then show ?case using Cons.IH [of "acc @ [m]"] by (cases m) (auto simp: obj_update_new)
qed simp

lemma normalize_canonical: "dumpable fl repr v \<Longrightarrow> normalize (canonical v) = canonical v"
proof (induction v)
  case (Object ms)
  let ?ms = "sort_key fst ms"
  have "normalize (canonical v) = canonical v" if "(k, v) \<in> set ms" for k v
    using Object that by (fastforce intro: snds.intros)
  then have n: "map (\<lambda>(k, v). (k, normalize v)) (map (\<lambda>(k, v). (k, canonical v)) ?ms) =
      map (\<lambda>(k, v). (k, canonical v)) ?ms" by (auto simp: split_beta)
  have "map fst (map (\<lambda>(k, v). (k, canonical v)) ?ms) = map fst ?ms" by (simp add: split_beta)
  moreover have "distinct (map fst ?ms)" using Object.prems by (intro distinct_sorted_names) simp
  ultimately have "distinct (map fst (map (\<lambda>(k, v). (k, canonical v)) ?ms))" by (simp only:)
  then have "fold (\<lambda>(k, v). obj_update k v) (map (\<lambda>(k, v). (k, canonical v)) ?ms) [] =
      map (\<lambda>(k, v). (k, canonical v)) ?ms" using fold_obj_update [of "[]"] by simp
  with n show ?case by (simp only: canonical.simps sort_key_map normalize.simps)
qed (auto simp: map_idI)

text \<open>\<^verbatim>\<open>static_cast<unsigned int>(indent)\<close> and the state \<^verbatim>\<open>dump\<close> begins in.\<close>

lemma room_at_start:
  assumes "0 \<le> indent" "indent \<le> 1024" "whitespace [ichar]"
  shows "room (of_int indent) 0 (serializer_ctor ichar h)"
proof -
  have "whitespace (replicate n ichar)" for n using assms(3) by (induction n) simp_all
  moreover have "unat (of_int indent :: 32 word) = nat indent"
    using assms(1,2) by (simp add: unat_eq_nat_uint uint_word_of_int)
  moreover have "nat indent \<le> 1024" using assms(2) by simp
  ultimately show ?thesis by (simp add: room_def serializer_ctor_def)
qed

lemma json_dump_text:
  assumes "dumpable fl repr v" "indent < 0 \<or> indent \<le> 1024 \<and> whitespace [ichar]"
  obtains t where "json_dump repr indent ichar ea h v = Inr t" "json_value fl t (canonical v)"
proof -
  let ?s = "serializer_ctor ichar h" and ?step = "if indent \<ge> 0 then of_int indent else 0"
  have "indent \<ge> 0 \<longrightarrow> room ?step 0 ?s" using room_at_start [of indent ichar h] assms(2) by auto
  with value_printed [OF assms(1), of "indent \<ge> 0" ea ?step 0] obtain t where
    t: "prints ?s (dump_value repr (indent \<ge> 0) ea ?step 0 v ?s) t" "json_value fl t (canonical v)"
    unfolding prints_value_def by blast
  have "json_dump repr indent ichar ea h v = Inr t"
    using t(1) by (cases "indent \<ge> 0") (auto simp: json_dump_def prints_def Let_def serializer_ctor_def)
  with that t(2) show thesis by blast
qed

lemma json_dump_parse:
  assumes "dumpable fl repr v" "indent < 0 \<or> indent \<le> 1024 \<and> whitespace [ichar]"
  shows "\<exists>t. json_dump repr indent ichar ea h v = Inr t \<and> json_parse fl t = Inr (canonical v)"
proof -
  obtain t where t: "json_dump repr indent ichar ea h v = Inr t" "json_value fl t (canonical v)"
    using json_dump_text [OF assms] by blast
  from parse_reads_value [OF t(2) _ _ may_follow_value [OF t(2)], of "[]" "[]"] normalize_canonical [OF assms(1)]
  have "json_parse fl t = Inr (canonical v)" by simp
  with t(1) show ?thesis by blast
qed

end
