(* ===== verification/JsonDumpSafe.thy ===== *)
theory JsonDumpSafe
  imports JsonDumpCorrect
begin

text \<open>
  Printing any value, whatever the bytes of its strings, with an indentation of at most 1024: it
  returns, or throws the type error 316 with the strict error handler. A larger indentation reads
  past the end of the string for the indentation.
\<close>

section \<open>Ending well\<close>

definition longer :: "serializer \<Rightarrow> serializer \<Rightarrow> bool" where
  "longer s s' \<longleftrightarrow> length (indent_string s) \<le> length (indent_string s') \<and> error_handler s' = error_handler s"

lemma longer_trans: "longer s s' \<Longrightarrow> longer s' s'' \<Longrightarrow> longer s s''"
  by (simp add: longer_def)

lemma longer_write [simp]: "longer s s" "longer s (write_characters cs s)" "longer (write_characters cs s) s"
  by (simp_all add: longer_def write_characters_def)

lemma longer_grow: "longer s (grow_indent n s)"
  by (simp add: longer_def grow_indent_def)

definition fits :: "32 word \<Rightarrow> 32 word \<Rightarrow> serializer \<Rightarrow> bool" where
  "fits step level s \<longleftrightarrow> unat level \<le> length (indent_string s) \<and>
     (unat step \<le> length (indent_string s) \<or> level = 0 \<and> unat step \<le> 2 * length (indent_string s))"

lemma fits_longer: "fits step level s \<Longrightarrow> longer s s' \<Longrightarrow> fits step level s'"
  by (auto simp: fits_def longer_def)

lemma fits_grow:
  assumes "fits step level s"
  shows "fits step (level + step) (grow_indent (level + step) s)"
proof -
  have "unat (level + step) \<le> unat level + unat step" by (simp add: unat_word_ariths)
  with assms show ?thesis by (auto simp: fits_def grow_indent_def)
qed

definition ends_well :: "serializer \<Rightarrow> (unit, serializer) result \<Rightarrow> bool" where
  "ends_well s r \<longleftrightarrow> (\<exists>s'. r = returns () s' \<and> longer s s') \<or>
     error_handler s = Strict \<and> (\<exists>m s'. r = raises (Json_type_error 316 m) s')"

lemma ends_well_returns: "longer s s' \<Longrightarrow> ends_well s (returns () s')"
  by (simp add: ends_well_def)

lemma ends_well_longer: "ends_well s' r \<Longrightarrow> longer s s' \<Longrightarrow> ends_well s r"
  by (auto simp: ends_well_def longer_def)

lemma ends_well_then:
  assumes "ends_well s r" "\<And>s'. longer s s' \<Longrightarrow> ends_well s' (k s')"
  shows "ends_well s (then_do r k)"
proof -
  consider s' where "r = returns () s'" "longer s s'"
    | m s' where "r = raises (Json_type_error 316 m) s'" "error_handler s = Strict"
    using assms(1) by (auto simp: ends_well_def)
  then show ?thesis
  proof cases
    case 1
    with ends_well_longer [OF assms(2) [OF 1(2)] 1(2)] show ?thesis by (simp add: then_do_def)
  qed (simp add: then_do_def ends_well_def)
qed

lemma escaped_ends_well: "ends_well s (dump_escaped str ea s)"
  using dump_escaped_safe [of str ea s] by (auto simp: ends_well_def same_settings_def longer_def)

lemma indent_ends_well:
  "unat n \<le> length (indent_string s) \<Longrightarrow> ends_well s (write_indent n s)"
  by (simp add: write_indent_def Let_def ends_well_def)

lemma line_ends_well:
  assumes "pretty \<longrightarrow> fits step level s"
  shows "ends_well s (if pretty then write_indent level s else returns () s)"
  using assms by (auto simp: fits_def ends_well_returns intro: indent_ends_well)

lemma if_ends_well: "(\<not> b \<Longrightarrow> ends_well s r) \<Longrightarrow> ends_well s (if b then returns () s else r)"
  by (simp add: ends_well_returns)

section \<open>Values\<close>

definition value_ends_well :: "(rat \<Rightarrow> 64 word) \<Rightarrow> bool \<Rightarrow> bool \<Rightarrow> 32 word \<Rightarrow> 32 word \<Rightarrow> json \<Rightarrow> bool" where
  "value_ends_well repr pretty ea step level v \<longleftrightarrow>
     (\<forall>s. (pretty \<longrightarrow> fits step level s) \<longrightarrow> ends_well s (dump_value repr pretty ea step level v s))"

lemma written_ends_well:
  "value_ends_well repr pretty ea step level v \<Longrightarrow> pretty \<longrightarrow> fits step level s \<Longrightarrow>
     ends_well s (dump_value repr pretty ea step level v (write_characters cs s))"
  unfolding value_ends_well_def by (meson ends_well_longer fits_longer longer_write(2))

lemma elements_end_well:
  assumes "\<forall>v \<in> set vs. value_ends_well repr pretty ea step level v" "pretty \<longrightarrow> fits step level s"
  shows "ends_well s (dump_elements repr pretty ea step level vs s)"
  using assms
proof (induction vs arbitrary: s)
  case (Cons v vs)
  have fits: "pretty \<longrightarrow> fits step level s'" if "longer s s'" for s'
    using Cons.prems(2) that fits_longer by blast
  have rest: "ends_well s' (dump_elements repr pretty ea step level vs (write_characters cs s'))"
    if "longer s s'" for s' cs
    using Cons.IH [of "write_characters cs s'"] Cons.prems(1) fits that
    by (meson ends_well_longer list.set_intros(2) longer_trans longer_write(2))
  show ?case unfolding dump_elements.simps
  proof (intro ends_well_then line_ends_well [OF Cons.prems(2)] if_ends_well)
    fix s1 s2 assume s: "longer s s1"
    then show "ends_well s1 (dump_value repr pretty ea step level v s1)"
      using Cons.prems(1) fits by (simp add: value_ends_well_def)
    assume "longer s1 s2"
    with s show "ends_well s2 (dump_elements repr pretty ea step level vs
        (write_characters (if pretty then '','' @ [CHR 0x0A] else '','') s2))"
      by (blast intro: rest longer_trans)
  qed
qed (simp add: ends_well_returns)

lemma members_end_well:
  assumes "\<forall>(k, v) \<in> set ms. value_ends_well repr pretty ea step level v" "pretty \<longrightarrow> fits step level s"
  shows "ends_well s (dump_members repr pretty ea step level ms s)"
  using assms
proof (induction ms arbitrary: s)
  case (Cons m ms)
  obtain k v where m: "m = (k, v)" by (cases m)
  have fits: "pretty \<longrightarrow> fits step level s'" if "longer s s'" for s'
    using Cons.prems(2) that fits_longer by blast
  have rest: "ends_well s' (dump_members repr pretty ea step level ms (write_characters cs s'))"
    if "longer s s'" for s' cs
    using Cons.IH [of "write_characters cs s'"] Cons.prems(1) fits that
    by (meson ends_well_longer list.set_intros(2) longer_trans longer_write(2))
  have v: "ends_well s' (dump_value repr pretty ea step level v (write_characters cs s'))" if "longer s s'" for s' cs
    using Cons.prems(1) fits [OF that] by (auto simp: m intro: written_ends_well)
  have k: "ends_well s' (dump_escaped k ea (write_characters cs s'))" for s' cs
    using escaped_ends_well longer_write(2) by (rule ends_well_longer)
  show ?case unfolding m dump_members.simps
  proof (intro ends_well_then line_ends_well [OF Cons.prems(2)] if_ends_well)
    fix s1 s2 s3 assume s1: "longer s s1"
    show "ends_well s1 (dump_escaped k ea (write_character (CHR 0x22) s1))" by (rule k)
    assume "longer s1 s2"
    with s1 have s2: "longer s s2" by (rule longer_trans)
    then show "ends_well s2 (dump_value repr pretty ea step level v
        (write_characters (CHR 0x22 # (if pretty then '': '' else '':'')) s2))" by (rule v)
    assume "longer s2 s3"
    with s2 show "ends_well s3 (dump_members repr pretty ea step level ms
        (write_characters (if pretty then '','' @ [CHR 0x0A] else '','') s3))"
      by (blast intro: rest longer_trans)
  qed
qed (simp add: ends_well_returns)

text \<open>The brackets around the elements or members.\<close>

lemma brackets_end_well:
  assumes "\<And>s. pretty \<longrightarrow> fits step (if pretty then level + step else level) s \<Longrightarrow> ends_well s (body s)"
    "pretty \<longrightarrow> fits step level s"
  shows "ends_well s (if pretty then
      then_do (body (grow_indent (level + step) (write_characters opening s))) (\<lambda>s.
        then_do (write_indent level (write_characters x s)) (\<lambda>s. returns () (write_characters closing s)))
    else then_do (body (write_characters opening' s)) (\<lambda>s. returns () (write_characters closing s)))"
proof (cases pretty)
  case True
  let ?s = "write_characters opening s"
  have f: "fits step level ?s" using fits_longer [OF _ longer_write(2)] assms(2) True by blast
  have s: "longer s (grow_indent (level + step) ?s)"
    by (rule longer_trans [OF longer_write(2) longer_grow])
  have b: "ends_well s (body (grow_indent (level + step) ?s))"
    using assms(1) [of "grow_indent (level + step) ?s"] fits_grow [OF f] True s by (simp add: ends_well_longer)
  have "ends_well s' (then_do (write_indent level (write_characters x s')) (\<lambda>s. returns () (write_characters closing s)))"
    if "longer s s'" for s'
  proof (rule ends_well_then)
    have "fits step level (write_characters x s')"
      using assms(2) True that by (blast intro: fits_longer longer_write longer_trans)
    then have "ends_well (write_characters x s') (write_indent level (write_characters x s'))"
      by (intro indent_ends_well) (simp add: fits_def)
    then show "ends_well s' (write_indent level (write_characters x s'))"
      by (rule ends_well_longer) simp
  qed (simp add: ends_well_returns)
  with ends_well_then [OF b] True show ?thesis by simp
next
  case False
  with assms(1) [of "write_characters opening' s"] have "ends_well s (body (write_characters opening' s))"
    by (auto intro: ends_well_longer)
  with False show ?thesis by (auto intro!: ends_well_then ends_well_returns)
qed

lemma all_values_end_well: "value_ends_well repr pretty ea step level v"
proof (induction v arbitrary: level)
  case (Array vs)
  let ?body = "dump_elements repr pretty ea step (if pretty then level + step else level) vs"
  have body: "ends_well s (?body s)" if "pretty \<longrightarrow> fits step (if pretty then level + step else level) s" for s
    using Array that by (intro elements_end_well) auto
  from brackets_end_well [where body = ?body and pretty = pretty and step = step, OF body] show ?case
    by (cases pretty) (auto simp: value_ends_well_def Let_def ends_well_returns)
next
  case (Object ms)
  let ?body = "dump_members repr pretty ea step (if pretty then level + step else level) (sort_key fst ms)"
  have body: "ends_well s (?body s)" if "pretty \<longrightarrow> fits step (if pretty then level + step else level) s" for s
    using Object that by (intro members_end_well) (fastforce elim: snds.cases)+
  from brackets_end_well [where body = ?body and pretty = pretty and step = step, OF body] show ?case
    by (cases pretty) (auto simp: value_ends_well_def Let_def ends_well_returns)
next
  case (String str)
  have "ends_well s (dump_escaped str ea (write_characters cs s))" for s cs
    using escaped_ends_well longer_write(2) by (rule ends_well_longer)
  then show ?case by (auto simp: value_ends_well_def intro!: ends_well_then ends_well_returns)
qed (simp_all add: value_ends_well_def ends_well_returns dump_integer_text dump_unsigned_text dump_float_def)

section \<open>Whole values\<close>

lemma fits_at_start:
  assumes "0 \<le> indent" "indent \<le> 1024"
  shows "fits (of_int indent) 0 (serializer_ctor ichar h)"
proof -
  have "unat (of_int indent :: 32 word) = nat indent"
    using assms by (simp add: unat_eq_nat_uint uint_word_of_int)
  moreover have "nat indent \<le> 1024" using assms(2) by simp
  ultimately show ?thesis by (simp add: fits_def serializer_ctor_def)
qed

lemma json_dump_safe:
  assumes "indent \<le> 1024"
  shows "(\<exists>t. json_dump repr indent ichar ea h v = Inr t) \<or>
    h = Strict \<and> (\<exists>m. json_dump repr indent ichar ea h v = Inl (Json_type_error 316 m))"
proof -
  let ?s = "serializer_ctor ichar h" and ?step = "if indent \<ge> 0 then of_int indent else 0"
  have "indent \<ge> 0 \<longrightarrow> fits ?step 0 ?s" using fits_at_start [of indent ichar h] assms by auto
  then have "ends_well ?s (dump_value repr (indent \<ge> 0) ea ?step 0 v ?s)"
    using all_values_end_well [of repr "indent \<ge> 0" ea ?step 0 v] by (simp add: value_ends_well_def)
  then show ?thesis
    by (cases "indent \<ge> 0") (auto simp: json_dump_def ends_well_def Let_def serializer_ctor_def)
qed

text \<open>The size is doubled once only, so that the first line is already too long.\<close>

lemma json_dump_too_wide:
  assumes "1025 < indent" "indent < 2 ^ 31" "v = Object ms \<and> ms \<noteq> [] \<or> v = Array vs \<and> vs \<noteq> []"
  shows "json_dump repr indent ichar ea h v = Inl (Undefined Bad_index)"
proof -
  have n: "unat (of_int indent :: 32 word) = nat indent"
    using assms(1,2) by (simp add: unat_eq_nat_uint uint_word_of_int)
  have w: "write_indent (of_int indent) (grow_indent (of_int indent) (write_characters cs (serializer_ctor ichar h))) =
      raises (Undefined Bad_index) (grow_indent (of_int indent) (write_characters cs (serializer_ctor ichar h)))" for cs
    using n assms(1) by (auto simp: write_indent_def grow_indent_def serializer_ctor_def write_characters_def Let_def)
  from assms(3) show ?thesis
  proof (elim disjE conjE)
    assume v: "v = Object ms" "ms \<noteq> []"
    then obtain k x xs where "sort_key fst ms = (k, x) # xs" by (metis list.exhaust prod.exhaust set_empty set_sort)
    with v assms(1) show ?thesis by (simp add: json_dump_def Let_def w then_do_def)
  next
    assume v: "v = Array vs" "vs \<noteq> []"
    then obtain x xs where "vs = x # xs" by (cases vs) auto
    with v assms(1) show ?thesis by (simp add: json_dump_def Let_def w then_do_def)
  qed
qed

end
