(* ===== verification/JsonAnyInput.thy ===== *)
theory JsonAnyInput
  imports JsonDumpSafe
begin

text \<open>
  The scanner on any sequence of bytes: what every token carries. A string is UTF-8, the value of a
  floating point number comes from the rounding, and the settings stay as they are.
\<close>

section \<open>Tokens of any input\<close>

text \<open>A number is never a string, and the value of a \<^verbatim>\<open>double\<close> is one that \<^verbatim>\<open>strtod\<close> returns.\<close>

definition rounded :: "(rat \<Rightarrow> rat) \<Rightarrow> rat \<Rightarrow> bool" where
  "rounded fl x \<longleftrightarrow> (\<exists>y. \<bar>y\<bar> < 2 ^ 1024 - 2 ^ 970 \<and> x = fl y)"

definition keeps :: "(rat \<Rightarrow> rat) \<Rightarrow> lexer \<Rightarrow> token_type \<times> lexer \<Rightarrow> bool" where
  "keeps fl l r \<longleftrightarrow> settled (snd r) = settled l \<and> fst r \<noteq> Value_string \<and>
     (fst r = Value_float \<longrightarrow> (\<forall>x. value_float (snd r) = Some x \<longrightarrow> rounded fl x))"

lemma strtod_rounded: "strtod fl s = Some x \<Longrightarrow> rounded fl x"
  by (auto simp: strtod_def rounded_def Let_def not_le split: if_splits)

lemma keeps_fail: "keeps fl l (fail m l')" if "settled l' = settled l"
  using that by (simp add: keeps_def fail_def settled_def)

lemma keeps_float: "keeps fl l (scan_float fl l')" if "settled l' = settled l"
  using that by (auto simp: keeps_def scan_float_def settled_def strtod_rounded)

lemma keeps_done: "keeps fl l (scan_number_done fl t l)"
proof -
  have f: "keeps fl l (scan_float fl (unget l))" by (rule keeps_float) simp
  have "settled (unget l) = settled l" by simp
  then have "keeps fl l (Value_unsigned, (unget l)\<lparr>value_unsigned := x\<rparr>)"
    "keeps fl l (Value_integer, (unget l)\<lparr>value_integer := x\<rparr>)" for x
    by (simp_all add: keeps_def settled_def)
  with f show ?thesis by (simp add: scan_number_done_def Let_def split: option.split)
qed

lemma keeps_cong: "settled l' = settled l \<Longrightarrow> keeps fl l' r \<Longrightarrow> keeps fl l r"
  by (simp add: keeps_def)

lemma keeps_read:
  "keeps fl (get l) r \<Longrightarrow> keeps fl l r" "keeps fl (add_current l) r \<Longrightarrow> keeps fl l r"
  "keeps fl (add c l) r \<Longrightarrow> keeps fl l r" "keeps fl (reset l) r \<Longrightarrow> keeps fl l r"
  by (simp_all add: keeps_def)

lemma keeps_done_get: "keeps fl l (scan_number_done fl t (get l))"
  by (rule keeps_cong [OF _ keeps_done]) simp

lemma keeps_any2: "keeps fl l (scan_number_any2 fl t l)"
proof (induction fl t l rule: scan_number_any2.induct)
  case (1 fl t l)
  then show ?case
    by (auto simp: scan_number_any2.simps [of fl t l] Let_def keeps_done_get intro: keeps_read)
qed

lemma keeps_sign: "keeps fl l (scan_number_sign fl t l)"
  by (auto simp: scan_number_sign_def Let_def intro: keeps_cong [OF _ keeps_any2] keeps_fail)

lemma keeps_exponent: "keeps fl l (scan_number_exponent fl l)"
  by (auto simp: scan_number_exponent_def Let_def
      intro: keeps_cong [OF _ keeps_any2] keeps_cong [OF _ keeps_sign] keeps_fail)

lemma keeps_decimal2: "keeps fl l (scan_number_decimal2 fl t l)"
proof (induction fl t l rule: scan_number_decimal2.induct)
  case (1 fl t l)
  then show ?case
    by (auto simp: scan_number_decimal2.simps [of fl t l] Let_def keeps_done_get is_digit_def
        intro: keeps_read keeps_cong [OF _ keeps_exponent])
qed

lemma keeps_decimal1: "keeps fl l (scan_number_decimal1 fl l)"
  by (auto simp: scan_number_decimal1_def Let_def intro: keeps_cong [OF _ keeps_decimal2] keeps_fail)

lemma keeps_any1: "keeps fl l (scan_number_any1 fl t l)"
proof (induction fl t l rule: scan_number_any1.induct)
  case (1 fl t l)
  then show ?case
    by (auto simp: scan_number_any1.simps [of fl t l] Let_def keeps_done_get is_digit_def
        intro: keeps_read keeps_cong [OF _ keeps_exponent] keeps_cong [OF _ keeps_decimal1])
qed

lemma keeps_zero: "keeps fl l (scan_number_zero fl t l)"
  by (auto simp: scan_number_zero_def Let_def keeps_done_get
      intro: keeps_cong [OF _ keeps_exponent] keeps_cong [OF _ keeps_decimal1])

lemma keeps_minus: "keeps fl l (scan_number_minus fl l)"
  by (auto simp: scan_number_minus_def Let_def
      intro: keeps_cong [OF _ keeps_zero] keeps_cong [OF _ keeps_any1] keeps_fail)

lemma keeps_number: "keeps fl l (scan_number fl l)"
  by (auto simp: scan_number_def Let_def
      intro: keeps_cong [OF _ keeps_zero] keeps_cong [OF _ keeps_any1] keeps_cong [OF _ keeps_minus])

lemma keeps_literal: "t \<noteq> Value_string \<and> t \<noteq> Value_float \<Longrightarrow> keeps fl l (literal_rest cs t l)"
proof (induction cs arbitrary: l)
  case (Cons c cs)
  from Cons.IH [OF Cons.prems, of "get l"] show ?case by (auto simp: Let_def intro: keeps_read keeps_fail)
qed (simp add: keeps_def)

section \<open>Strings of any input\<close>

lemma json_char_utf8: "json_char e d \<Longrightarrow> \<exists>cp. scalar cp \<and> d = codepoint_bytes cp"
proof (induction rule: json_char.induct)
  case (plain c)
  then have "(of_char c :: int) < 0x80" "0 \<le> (of_char c :: int)" by (simp_all add: plain_def int_of_char)
  then show ?case by (intro exI [of _ "of_char c"]) (simp add: codepoint_bytes_def scalar_def)
next
  case (short x y)
  then have "(of_char y :: int) < 0x80" "0 \<le> (of_char y :: int)" by (auto simp: short_escapes_def)
  then show ?case by (intro exI [of _ "of_char y"]) (simp add: codepoint_bytes_def scalar_def)
next
  case (surrogates h1 hi h2 lo)
  then have "scalar (0x10000 + (hi - 0xD800) * 0x400 + (lo - 0xDC00))"
    by (auto simp: scalar_def high_surrogate_def low_surrogate_value_def)
  then show ?case by blast
qed auto

lemma json_chars_utf8: "json_chars e d \<Longrightarrow> utf8_string d"
proof (induction rule: json_chars.induct)
  case Nil
  show ?case by (auto simp: utf8_string_def utf8_def intro: exI [of _ "[]"])
next
  case (Cons e d e' d')
  from json_char_utf8 [OF Cons.hyps(1)] obtain cp where "scalar cp" "d = codepoint_bytes cp" by blast
  moreover from Cons.IH obtain cps where "\<forall>cp \<in> set cps. scalar cp" "d' = utf8 cps"
    by (auto simp: utf8_string_def)
  ultimately show ?case unfolding utf8_string_def by (intro exI [of _ "cp # cps"]) (simp add: utf8_def)
qed

lemma skip_whitespace_state:
  "settled (skip_whitespace l) = settled l" "\<not> next_unget (skip_whitespace l)"
  "0 < chars_read_total (position (skip_whitespace l))"
proof (induction l rule: skip_whitespace.induct)
  case (1 l)
  { case 1 from "1.IH" show ?case by (simp add: skip_whitespace.simps [of l] Let_def) }
  { case 2 from "1.IH" show ?case by (simp add: skip_whitespace.simps [of l] Let_def lexer_frame) }
  { case 3 from "1.IH" show ?case by (simp add: skip_whitespace.simps [of l] Let_def) }
qed

text \<open>What the parser relies on after reading a token.\<close>

definition token_ok :: "(rat \<Rightarrow> rat) \<Rightarrow> token_type \<Rightarrow> lexer \<Rightarrow> bool" where
  "token_ok fl t l \<longleftrightarrow> (t \<noteq> Parse_error \<longrightarrow> settled l) \<and>
     (t = Value_string \<longrightarrow> utf8_string (token_buffer l)) \<and>
     (t = Value_float \<longrightarrow> (\<forall>x. value_float l = Some x \<longrightarrow> rounded fl x))"

lemma keeps_token_ok: "keeps fl l r \<Longrightarrow> settled l \<Longrightarrow> token_ok fl (fst r) (snd r)"
  by (auto simp: keeps_def token_ok_def)

lemma scan_token_ok:
  assumes "settled l" "\<not> next_unget l" "0 < chars_read_total (position l)"
  shows "token_ok fl (fst (scan_token fl l)) (snd (scan_token fl l))"
proof -
  have simple: "token_ok fl t l" if "t \<noteq> Value_string" "t \<noteq> Value_float" for t
    using that assms(1) by (simp add: token_ok_def)
  have lit: "token_ok fl (fst (scan_literal s t l)) (snd (scan_literal s t l))"
    if "t \<noteq> Value_string" "t \<noteq> Value_float" for s t
    unfolding scan_literal_def using that by (intro keeps_token_ok [OF keeps_literal assms(1)]) simp
  have num: "token_ok fl (fst (scan_number fl l)) (snd (scan_number fl l))"
    by (rule keeps_token_ok [OF keeps_number assms(1)])
  have f: "token_ok fl (fst (fail m l)) (snd (fail m l))" for m
    by (rule keeps_token_ok [OF keeps_fail assms(1)]) simp
  have str: "token_ok fl (fst (scan_string l)) (snd (scan_string l))"
  proof -
    obtain t l' where s: "scan_string_loop (reset l) = (t, l')" by fastforce
    have "reading l (ia l) (token_buffer l)" using assms by (simp add: reading_def)
    from string_loop_sound [OF reading_add(3) [OF this] s] show ?thesis
    proof (elim disjE conjE exE)
      fix e d s' assume "t = Value_string" "json_chars e d" "reading l' s' ('''' @ d)"
      then show ?thesis using s by (simp add: scan_string_def token_ok_def reading_def json_chars_utf8)
    qed (use s in \<open>simp add: scan_string_def token_ok_def\<close>)
  qed
  show ?thesis unfolding scan_token_def using simple lit num f str by simp
qed

lemma scan_ok: "settled l \<Longrightarrow> scan fl l = (t, l') \<Longrightarrow> token_ok fl t l'"
proof -
  assume l: "settled l" and s: "scan fl l = (t, l')"
  have tok: "token_ok fl (fst (scan_token fl (skip_whitespace m))) (snd (scan_token fl (skip_whitespace m)))"
    if "settled m" for m using that by (intro scan_token_ok) (simp_all add: skip_whitespace_state)
  have skip: "skip_comments (skip_whitespace m) = (True, skip_whitespace m)" if "settled m" for m
    using that skip_whitespace_state(1) [of m] by (simp add: settled_def skip_comments.simps)
  obtain b m where b: "(if chars_read_total (position l) = 0 then skip_bom l else (True, l)) = (b, m)" by fastforce
  have m: "settled m" using b l by (auto simp: skip_bom_def Let_def split: if_splits)
  show ?thesis
  proof (cases b)
    case True
    then have "(t, l') = scan_token fl (skip_whitespace m)" using s b skip [OF m] by (simp add: scan_def)
    with tok [OF m] show ?thesis by (metis fst_conv snd_conv)
  next
    case False
    then have "t = Parse_error" using s b by (simp add: scan_def fail_def)
    then show ?thesis by (simp add: token_ok_def)
  qed
qed

end
