(* ===== verification/JsonContract.thy ===== *)
theory JsonContract
  imports JsonAnyInput
begin

text \<open>
  The contract between the loop of the parser and a handler of its events, as a locale: the handler
  accepts every event the grammar allows next. The loop then ends as it does with the acceptor, with
  a value, or with an error it reports as \<^verbatim>\<open>parse_error\<close> 101 or \<^verbatim>\<open>out_of_range\<close> 406.
\<close>

section \<open>The contract\<close>

definition goes_on :: "(bool, 's) result \<Rightarrow> ('s \<Rightarrow> bool) \<Rightarrow> bool" where
  "goes_on r P \<longleftrightarrow> (\<exists>s. r = returns True s \<and> P s)"

text \<open>
  \<open>ready states s\<close>: the handler waits for a value inside the open arrays (\<open>True\<close>) and objects;
  \<open>after states s\<close>: it has had a value or the begin of the innermost one.
\<close>

locale sax_handler =
  fixes fl :: "rat \<Rightarrow> rat" and sx :: "'s sax" and ready after :: "bool list \<Rightarrow> 's \<Rightarrow> bool"
  assumes null_ok: "ready st s \<Longrightarrow> goes_on (JsonSax.null sx s) (after st)"
    and boolean_ok: "ready st s \<Longrightarrow> goes_on (boolean sx b s) (after st)"
    and integer_ok: "ready st s \<Longrightarrow> goes_on (number_integer sx i s) (after st)"
    and unsigned_ok: "ready st s \<Longrightarrow> goes_on (number_unsigned sx i s) (after st)"
    and float_ok: "ready st s \<Longrightarrow> rounded fl x \<Longrightarrow> goes_on (number_float sx x t s) (after st)"
    and string_ok: "ready st s \<Longrightarrow> utf8_string d \<Longrightarrow> goes_on (string_value sx d s) (after st)"
    and start_array_ok: "ready st s \<Longrightarrow> goes_on (start_array sx s) (after (True # st))"
    and start_object_ok: "ready st s \<Longrightarrow> goes_on (start_object sx s) (after (False # st))"
    and key_ok: "after (False # st) s \<Longrightarrow> utf8_string d \<Longrightarrow> goes_on (key sx d s) (ready (False # st))"
    and element_ok: "after (True # st) s \<Longrightarrow> ready (True # st) s"
    and end_array_ok: "after (True # st) s \<Longrightarrow> goes_on (end_array sx s) (after st)"
    and end_object_ok: "after (False # st) s \<Longrightarrow> goes_on (end_object sx s) (after st)"

text \<open>The errors of the parser.\<close>

definition documented :: "error \<Rightarrow> bool" where
  "documented e \<longleftrightarrow> (\<exists>n m. e = Json_parse_error 101 n m) \<or> (\<exists>m. e = Json_out_of_range 406 m)"

lemma documented_simps [simp]:
  "documented (parse_error_create 101 p m)" "documented (out_of_range_create 406 m)"
  by (simp_all add: documented_def parse_error_create_def out_of_range_create_def)

definition parser_ok :: "(rat \<Rightarrow> rat) \<Rightarrow> parser \<Rightarrow> bool" where
  "parser_ok fl p \<longleftrightarrow> token_ok fl (last_token p) (m_lexer p)"

lemma parser_ok_get_token: "settled (m_lexer p) \<Longrightarrow> parser_ok fl (get_token fl p)"
  using scan_ok [of "m_lexer p" fl] by (simp add: parser_ok_def get_token_def split: prod.split)

lemma parser_ok_settled: "parser_ok fl p \<Longrightarrow> last_token p \<noteq> Parse_error \<Longrightarrow> settled (m_lexer p)"
  by (simp add: parser_ok_def token_ok_def)

text \<open>
  A pass of the loop with a handler and the same pass with the acceptor: they do the same, and the
  handler is in the state the contract asks for; or the handler is told of an error.
\<close>

text \<open>A state of the handler the contract speaks of.\<close>

definition known :: "(bool list \<Rightarrow> 's \<Rightarrow> bool) \<Rightarrow> (bool list \<Rightarrow> 's \<Rightarrow> bool) \<Rightarrow> 's \<Rightarrow> bool" where
  "known ready after s \<longleftrightarrow> (\<exists>states. ready states s \<or> after states s)"

definition reported ::
  "'s sax \<Rightarrow> (bool list \<Rightarrow> 's \<Rightarrow> bool) \<Rightarrow> (bool list \<Rightarrow> 's \<Rightarrow> bool) \<Rightarrow> parser \<Rightarrow> (error + bool) \<Rightarrow> 's \<Rightarrow> bool"
where
  "reported sx ready after p r s \<longleftrightarrow>
     (\<exists>ex s'. documented ex \<and> known ready after s' \<and> report sx p ex s' = (r, s))"

definition agrees :: "(rat \<Rightarrow> rat) \<Rightarrow> 's sax \<Rightarrow> (bool list \<Rightarrow> 's \<Rightarrow> bool) \<Rightarrow> (bool list \<Rightarrow> 's \<Rightarrow> bool) \<Rightarrow>
  's progress \<Rightarrow> unit progress \<Rightarrow> bool"
where
  "agrees fl sx ready after x y \<longleftrightarrow> (case x of (c, states, p, s) \<Rightarrow> case c of
       Continue \<Rightarrow> y = (Continue, states, p, ()) \<and> ready states s \<and> parser_ok fl p
     | Evaluate \<Rightarrow> y = (Evaluate, states, p, ()) \<and> after states s \<and> settled (m_lexer p)
     | Finished r \<Rightarrow> r = Inr True \<and> y = (Finished (Inr True), states, p, ()) \<and> after [] s \<or>
         y = (Finished (Inr False), states, p, ()) \<and> reported sx ready after p r s)"

lemma acceptor_simps [simp]:
  "JsonSax.null json_sax_acceptor = returns True" "boolean json_sax_acceptor b = returns True"
  "number_integer json_sax_acceptor i = returns True" "number_unsigned json_sax_acceptor i = returns True"
  "number_float json_sax_acceptor x t = returns True" "string_value json_sax_acceptor d = returns True"
  "start_object json_sax_acceptor = returns True" "key json_sax_acceptor d = returns True"
  "end_object json_sax_acceptor = returns True" "start_array json_sax_acceptor = returns True"
  "end_array json_sax_acceptor = returns True" "report json_sax_acceptor p ex u = returns False ()"
  by (simp_all add: json_sax_acceptor_def report_def)

section \<open>Passes of the loop\<close>

context sax_handler
begin

lemma knownI: "ready states s \<Longrightarrow> known ready after s" "after states s \<Longrightarrow> known ready after s"
  by (auto simp: known_def)

lemma agree_unless:
  assumes "goes_on r P" "\<And>s. P s \<Longrightarrow> agrees fl sx ready after (k s) y"
  shows "agrees fl sx ready after (unless_refused r states p k) y"
  using assms by (auto simp: goes_on_def)

lemma agree_report:
  "documented ex \<Longrightarrow> known ready after s \<Longrightarrow> agrees fl sx ready after (finish states p (report sx p ex s))
     (finish states p (returns False ()))"
  by (auto simp: agrees_def finish_def reported_def split: prod.split)

lemma agree_syntax_error:
  "known ready after s \<Longrightarrow> agrees fl sx ready after (syntax_error sx t c states p s)
     (syntax_error json_sax_acceptor t c states p ())"
  by (simp add: syntax_error_def agree_report)

lemma agree_evaluate:
  "after states s \<Longrightarrow> settled (m_lexer p) \<Longrightarrow>
     agrees fl sx ready after (Evaluate, states, p, s) (Evaluate, states, p, ())"
  by (simp add: agrees_def)

lemma agree_close:
  assumes "goes_on r (after st)" "settled (m_lexer p)"
  shows "agrees fl sx ready after (unless_refused r states p (\<lambda>s. (Evaluate, st, p, s))) (Evaluate, st, p, ())"
  using assms by (auto simp: goes_on_def agree_evaluate)

lemma agree_continue:
  "ready states s \<Longrightarrow> parser_ok fl p \<Longrightarrow>
     agrees fl sx ready after (Continue, states, p, s) (Continue, states, p, ())"
  by (simp add: agrees_def)

lemma agree_key:
  assumes "after (False # st) s" "parser_ok fl p"
  shows "agrees fl sx ready after (parse_key fl sx (False # st) states p s)
    (parse_key fl json_sax_acceptor (False # st) states p ())"
proof (cases "last_token p = Value_string")
  case True
  let ?p = "get_token fl p"
  from assms(2) True have l: "settled (m_lexer p)" "utf8_string (token_buffer (m_lexer p))"
    by (simp_all add: parser_ok_def token_ok_def)
  note ok = parser_ok_get_token [OF l(1)]
  have "agrees fl sx ready after
      (let p = get_token fl p in if last_token p \<noteq> Name_separator
        then syntax_error sx Name_separator ''object separator'' states p s'
        else (Continue, False # st, get_token fl p, s'))
      (let p = get_token fl p in if last_token p \<noteq> Name_separator
        then syntax_error json_sax_acceptor Name_separator ''object separator'' states p ()
        else (Continue, False # st, get_token fl p, ()))"
    if "ready (False # st) s'" for s'
  proof (cases "last_token ?p = Name_separator")
    case True
    then have "parser_ok fl (get_token fl ?p)" using parser_ok_settled [OF ok] by (simp add: parser_ok_get_token)
    with True that show ?thesis by (simp add: Let_def agree_continue)
  qed (simp add: Let_def agree_syntax_error [OF knownI(1) [OF that]])
  from agree_unless [OF key_ok [OF assms(1) l(2)] this] True show ?thesis by (simp add: parse_key_def)
qed (simp add: parse_key_def agree_syntax_error [of s, OF knownI(2) [OF assms(1)]])

lemma agree_begin_object:
  assumes "ready states s" "settled (m_lexer p)"
  shows "agrees fl sx ready after (parse_begin_object fl sx states p s)
    (parse_begin_object fl json_sax_acceptor states p ())"
proof -
  let ?p = "get_token fl p"
  note ok = parser_ok_get_token [OF assms(2)]
  have "agrees fl sx ready after
      (let p = get_token fl p in if last_token p = End_object
        then unless_refused (end_object sx s') states p (\<lambda>s. (Evaluate, states, p, s))
        else parse_key fl sx (False # states) states p s')
      (let p = get_token fl p in if last_token p = End_object
        then unless_refused (end_object json_sax_acceptor ()) states p (\<lambda>s. (Evaluate, states, p, s))
        else parse_key fl json_sax_acceptor (False # states) states p ())"
    if s': "after (False # states) s'" for s'
  proof (cases "last_token ?p = End_object")
    case True
    with parser_ok_settled [OF ok] agree_close [OF end_object_ok [OF s']] show ?thesis
      by (simp add: Let_def)
  next
    case False
    with agree_key [OF s' ok] show ?thesis by (simp add: Let_def)
  qed
  from agree_unless [OF start_object_ok [OF assms(1)] this] show ?thesis by (simp add: parse_begin_object_def)
qed

lemma agree_begin_array:
  assumes "ready states s" "settled (m_lexer p)"
  shows "agrees fl sx ready after (parse_begin_array fl sx states p s)
    (parse_begin_array fl json_sax_acceptor states p ())"
proof -
  let ?p = "get_token fl p"
  note ok = parser_ok_get_token [OF assms(2)]
  have "agrees fl sx ready after
      (let p = get_token fl p in if last_token p = End_array
        then unless_refused (end_array sx s') states p (\<lambda>s. (Evaluate, states, p, s))
        else (Continue, True # states, p, s'))
      (let p = get_token fl p in if last_token p = End_array
        then unless_refused (end_array json_sax_acceptor ()) states p (\<lambda>s. (Evaluate, states, p, s))
        else (Continue, True # states, p, ()))"
    if s': "after (True # states) s'" for s'
  proof (cases "last_token ?p = End_array")
    case True
    with parser_ok_settled [OF ok] agree_close [OF end_array_ok [OF s']] show ?thesis
      by (simp add: Let_def)
  next
    case False
    with agree_continue [OF element_ok [OF s'] ok] show ?thesis by (simp add: Let_def)
  qed
  from agree_unless [OF start_array_ok [OF assms(1)] this] show ?thesis by (simp add: parse_begin_array_def)
qed

lemma agree_scalar:
  assumes "goes_on r (after states)" "settled (m_lexer p)"
  shows "agrees fl sx ready after (parse_scalar r states p) (parse_scalar (returns True ()) states p)"
  using agree_close [OF assms] by (simp add: parse_scalar_def)

lemma agree_float:
  assumes "ready states s" "parser_ok fl p" "last_token p = Value_float"
  shows "agrees fl sx ready after (parse_float sx states p s) (parse_float json_sax_acceptor states p ())"
proof (cases "value_float (m_lexer p)")
  case None
  then show ?thesis by (simp add: parse_float_def agree_report [OF _ knownI(1) [OF assms(1)]])
next
  case (Some x)
  with assms(2,3) have "rounded fl x" "settled (m_lexer p)" by (simp_all add: parser_ok_def token_ok_def)
  from agree_close [OF float_ok [OF assms(1) this(1)] this(2)] Some show ?thesis
    by (simp add: parse_float_def)
qed

lemma agree_value:
  assumes "ready states s" "parser_ok fl p"
  shows "agrees fl sx ready after (parse_value fl sx states p s) (parse_value fl json_sax_acceptor states p ())"
proof -
  have l: "settled (m_lexer p)" if "last_token p \<noteq> Parse_error" using parser_ok_settled [OF assms(2) that] .
  note err = agree_syntax_error [of s, OF knownI(1) [OF assms(1)]] agree_report [of _ s, OF _ knownI(1) [OF assms(1)]]
  show ?thesis
  proof (cases "last_token p")
    case Value_float
    with agree_float [OF assms Value_float] show ?thesis by (simp add: parse_value_def)
  next
    case Value_string
    with assms(2) have "utf8_string (token_buffer (m_lexer p))" by (simp add: parser_ok_def token_ok_def)
    from agree_scalar [OF string_ok [OF assms(1) this] l] Value_string show ?thesis
      by (simp add: parse_value_def)
  next
    case End_of_input
    then show ?thesis
      by (simp add: parse_value_def parse_end_of_input_def err)
  qed (use l agree_begin_object [OF assms(1)] agree_begin_array [OF assms(1)] err
      agree_scalar [OF null_ok [OF assms(1)]] agree_scalar [OF boolean_ok [OF assms(1)]]
      agree_scalar [OF integer_ok [OF assms(1)]] agree_scalar [OF unsigned_ok [OF assms(1)]]
      in \<open>simp_all add: parse_value_def\<close>)
qed

lemma agree_state:
  assumes "after states s" "settled (m_lexer p)"
  shows "agrees fl sx ready after (evaluate_state fl sx states p s)
    (evaluate_state fl json_sax_acceptor states p ())"
proof (cases states)
  case Nil
  with assms show ?thesis by (simp add: evaluate_state_def agrees_def)
next
  case (Cons b st)
  let ?p = "get_token fl p"
  note ok = parser_ok_get_token [OF assms(2)]
  have l: "settled (m_lexer ?p)" if "last_token ?p \<noteq> Parse_error" using parser_ok_settled [OF ok that] .
  show ?thesis
  proof (cases b)
    case True
    with assms(1) Cons have s: "after (True # st) s" by simp
    have "agrees fl sx ready after (array_state fl sx (True # st) p s)
        (array_state fl json_sax_acceptor (True # st) p ())"
      using agree_continue [OF element_ok [OF s] parser_ok_get_token [OF l]] agree_syntax_error [of s, OF knownI(2) [OF assms(1)]]
        agree_close [OF end_array_ok [OF s] l]
      by (simp add: array_state_def Let_def)
    with Cons True show ?thesis by (simp add: evaluate_state_def)
  next
    case False
    with assms(1) Cons have s: "after (False # st) s" by simp
    have "agrees fl sx ready after (object_state fl sx (False # st) p s)
        (object_state fl json_sax_acceptor (False # st) p ())"
      using agree_key [OF s parser_ok_get_token [OF l]] agree_syntax_error [of s, OF knownI(2) [OF assms(1)]]
        agree_close [OF end_object_ok [OF s] l]
      by (simp add: object_state_def Let_def)
    with Cons False show ?thesis by (simp add: evaluate_state_def)
  qed
qed

section \<open>The loop\<close>

lemma loop_agrees:
  assumes "if skip then after states s \<and> settled (m_lexer p) else ready states s \<and> parser_ok fl p"
  shows "(\<exists>p' s'. sax_parse_loop fl sx skip states p s = (Inr True, p', s') \<and> after [] s' \<and>
      sax_parse_loop fl json_sax_acceptor skip states p () = (Inr True, p', ())) \<or>
    (\<exists>r p' s'. sax_parse_loop fl sx skip states p s = (r, p', s') \<and> reported sx ready after p' r s' \<and>
      sax_parse_loop fl json_sax_acceptor skip states p () = (Inr False, p', ()))"
  using assms
proof (induction "loop_measure skip p" arbitrary: skip states p s rule: less_induct)
  case less
  note loops = sax_parse_loop.simps [of fl sx skip states p s]
    sax_parse_loop.simps [of fl json_sax_acceptor skip states p "()"]
  obtain c st1 p1 s1 where v: "value_part fl sx skip states p s = (c, st1, p1, s1)" by (metis prod_cases4)
  have a: "agrees fl sx ready after (c, st1, p1, s1) (value_part fl json_sax_acceptor skip states p ())"
    using less.prems agree_value [of states s p] agree_evaluate [of states s p]
    by (auto simp: value_part_def v [symmetric] split: if_splits)
  show ?case
  proof (cases c)
    case (Finished r)
    with a show ?thesis unfolding loops v by (auto simp: agrees_def)
  next
    case Continue
    with a have y: "value_part fl json_sax_acceptor skip states p () = (Continue, st1, p1, ())"
      "ready st1 s1" "parser_ok fl p1" by (simp_all add: agrees_def)
    from less.hyps [OF value_part_continue [OF v [unfolded Continue]], of st1 s1] y(2,3) show ?thesis
      unfolding loops v y(1) Continue by simp
  next
    case Evaluate
    with a have y: "value_part fl json_sax_acceptor skip states p () = (Evaluate, st1, p1, ())"
      "after st1 s1" "settled (m_lexer p1)" by (simp_all add: agrees_def)
    obtain d st2 p2 s2 where e: "evaluate_state fl sx st1 p1 s1 = (d, st2, p2, s2)" by (metis prod_cases4)
    have b: "agrees fl sx ready after (d, st2, p2, s2) (evaluate_state fl json_sax_acceptor st1 p1 ())"
      using agree_state [OF y(2,3)] by (simp add: e)
    show ?thesis
    proof (cases d)
      case (Finished r)
      with b show ?thesis unfolding loops v y(1) Evaluate by (auto simp: agrees_def e)
    next
      case d: Continue
      with b have z: "evaluate_state fl json_sax_acceptor st1 p1 () = (Continue, st2, p2, ())"
        "ready st2 s2" "parser_ok fl p2" by (simp_all add: agrees_def)
      from less.hyps [OF _ , of False p2 st2 s2] value_part_evaluate [OF v [unfolded Evaluate] e] d z(2,3)
      show ?thesis unfolding loops v y(1) Evaluate by (simp add: e z(1))
    next
      case d: Evaluate
      with b have z: "evaluate_state fl json_sax_acceptor st1 p1 () = (Evaluate, st2, p2, ())"
        "after st2 s2" "settled (m_lexer p2)" by (simp_all add: agrees_def)
      from less.hyps [OF _ , of True p2 st2 s2] value_part_evaluate [OF v [unfolded Evaluate] e] d z(2,3)
      show ?thesis unfolding loops v y(1) Evaluate by (simp add: e z(1))
    qed
  qed
qed

lemma internal_agrees:
  assumes "ready [] s"
  shows "(\<exists>p' s'. sax_parse_internal fl sx (parser_ctor fl False i) s = (Inr True, p', s') \<and> after [] s' \<and>
      sax_parse_internal fl json_sax_acceptor (parser_ctor fl False i) () = (Inr True, p', ())) \<or>
    (\<exists>r p' s'. sax_parse_internal fl sx (parser_ctor fl False i) s = (r, p', s') \<and> reported sx ready after p' r s' \<and>
      sax_parse_internal fl json_sax_acceptor (parser_ctor fl False i) () = (Inr False, p', ()))"
proof -
  have "settled (lexer_ctor i False)" by (simp add: settled_def lexer_ctor_def)
  then have "parser_ok fl (parser_ctor fl False i)"
    unfolding parser_ctor_def by (intro parser_ok_get_token) simp
  with assms loop_agrees [of False "[]" s "parser_ctor fl False i"] show ?thesis
    by (simp add: sax_parse_internal_def)
qed

end

end
