(* ===== verification/JsonTyped.thy ===== *)
theory JsonTyped
  imports JsonContract
begin

text \<open>
  \<^verbatim>\<open>json_sax_dom_parser\<close> keeps the contract of the handlers: its stack of references follows the stack
  of the parser, and the value it builds is well typed. So \<^verbatim>\<open>json::parse\<close> of any bytes returns a well
  typed value or throws a documented error.
\<close>

section \<open>Well-typed values\<close>

fun well_typed :: "(rat \<Rightarrow> rat) \<Rightarrow> json \<Rightarrow> bool" where
  "well_typed fl (Object ms) \<longleftrightarrow>
     distinct (map fst ms) \<and> (\<forall>(k, v) \<in> set ms. utf8_string k \<and> well_typed fl v)"
| "well_typed fl (Array vs) \<longleftrightarrow> (\<forall>v \<in> set vs. well_typed fl v)"
| "well_typed fl (String s) \<longleftrightarrow> utf8_string s"
| "well_typed fl (Number_float x) \<longleftrightarrow> rounded fl x"
| "well_typed fl Discarded \<longleftrightarrow> False"
| "well_typed fl v \<longleftrightarrow> True"

lemma set_obj_update: "set (obj_update k v ms) \<subseteq> insert (k, v) (set ms)"
  by (induction k v ms rule: obj_update.induct) auto

lemma names_obj_update:
  "map fst (obj_update k v ms) = map fst ms @ (if k \<in> fst ` set ms then [] else [k])"
  by (induction k v ms rule: obj_update.induct) auto

lemma well_typed_obj_update:
  assumes "well_typed fl (Object ms)" "utf8_string k" "well_typed fl v"
  shows "well_typed fl (Object (obj_update k v ms))"
  using assms set_obj_update [of k v ms] by (auto simp: names_obj_update)

lemma well_typed_member: "well_typed fl (Object ms) \<Longrightarrow> well_typed fl (JsonValue.member k ms)"
  by (auto simp: JsonValue.member_def dest!: map_of_SomeD split: option.split)

lemma well_typed_update:
  "well_typed fl j \<Longrightarrow> json_at r j = Some x \<Longrightarrow> well_typed fl (f x) \<Longrightarrow> well_typed fl (json_update r f j)"
proof (induction r f j rule: json_update.induct)
  case (2 n r f vs)
  then have n: "n < length vs" "json_at r (vs ! n) = Some x" by (auto split: if_splits)
  with 2 have "well_typed fl (json_update r f (vs ! n))" by simp
  with 2(2) show ?case by (auto dest!: set_update_subset_insert [THEN subsetD])
next
  case (3 k r f ms)
  then obtain v where v: "map_of ms k = Some v" "json_at r v = Some x" by (auto split: option.splits)
  then have m: "JsonValue.member k ms = v" by (simp add: JsonValue.member_def)
  from 3(2) v(1) have "utf8_string k" "well_typed fl v" by (auto dest: map_of_SomeD)
  with 3 v(2) m show ?case unfolding json_update.simps by (intro well_typed_obj_update) auto
qed auto

section \<open>The stack of references\<close>

definition is_container :: "bool \<Rightarrow> json option \<Rightarrow> bool" where
  "is_container in_array x \<longleftrightarrow> (case x of
       Some (Array vs) \<Rightarrow> in_array
     | Some (Object ms) \<Rightarrow> \<not> in_array
     | _ \<Rightarrow> False)"

text \<open>Every reference leads to an array or an object, one step below the reference before it.\<close>

fun frames :: "json \<Rightarrow> bool list \<Rightarrow> ref list \<Rightarrow> bool" where
  "frames j [] [] \<longleftrightarrow> True"
| "frames j (b # bs) (r # rs) \<longleftrightarrow> is_container b (json_at r j) \<and>
     (if rs = [] then r = [] else \<exists>a. r = hd rs @ [a]) \<and> frames j bs rs"
| "frames j _ _ \<longleftrightarrow> False"

lemma container_kind:
  "t \<noteq> [] \<Longrightarrow> is_container b (Some (json_update t f x)) = is_container b (Some x)"
  by (cases "(t, f, x)" rule: json_update.cases) (auto simp: is_container_def)

text \<open>Writing below the innermost container, or to it when it stays one, keeps the stack.\<close>

lemma frames_update:
  assumes "frames j bs rs" "rs \<noteq> []" "q = hd rs @ t" "json_at q j = Some x"
    "t = [] \<Longrightarrow> is_container (hd bs) (Some (f x))"
  shows "frames (json_update q f j) bs rs"
  using assms
proof (induction bs arbitrary: rs t)
  case Nil
  then show ?case by (cases rs) simp_all
next
  case (Cons b bs)
  then obtain r rs' where rs: "rs = r # rs'" by (cases rs) auto
  from Cons.prems(3,4) rs obtain y where y: "json_at r j = Some y" "json_at t y = Some x"
    by (auto simp: json_at_append split: option.splits)
  have at: "json_at r (json_update q f j) = Some (json_update t f y)"
    using json_at_update [OF y(1)] by (simp add: Cons.prems(3) rs json_update_append)
  have "is_container b (Some (json_update t f y))"
  proof (cases "t = []")
    case True
    with Cons.prems(5) y(2) show ?thesis by simp
  next
    case False
    with Cons.prems(1) rs y(1) show ?thesis by (simp add: container_kind)
  qed
  moreover have "frames (json_update q f j) bs rs'"
  proof (cases "rs' = []")
    case True
    with Cons.prems(1) rs show ?thesis by (cases bs) simp_all
  next
    case False
    with Cons.prems(1) rs obtain a where "r = hd rs' @ [a]" by auto
    with Cons.prems rs False show ?thesis
      by (intro Cons.IH [of rs' "a # t"]) auto
  qed
  ultimately show ?case using Cons.prems(1) rs at by simp
qed

section \<open>The builder keeps the contract\<close>

definition dom_after :: "(rat \<Rightarrow> rat) \<Rightarrow> bool list \<Rightarrow> dom_parser \<Rightarrow> bool" where
  "dom_after fl states d \<longleftrightarrow> frames (root d) states (ref_stack d) \<and> well_typed fl (root d) \<and>
     \<not> errored d \<and> allow_exceptions d"

text \<open>Inside an object the pointer to the member has been set.\<close>

definition dom_ready :: "(rat \<Rightarrow> rat) \<Rightarrow> bool list \<Rightarrow> dom_parser \<Rightarrow> bool" where
  "dom_ready fl states d \<longleftrightarrow> dom_after fl states d \<and> (states \<noteq> [] \<and> \<not> hd states \<longrightarrow>
     (\<exists>k x. object_element d = Some (hd (ref_stack d) @ [Key k]) \<and>
       json_at (hd (ref_stack d) @ [Key k]) (root d) = Some x))"

lemma frames_lengths: "frames j bs rs \<Longrightarrow> length rs = length bs"
  by (induction j bs rs rule: frames.induct) auto

lemma well_typed_at: "well_typed fl j \<Longrightarrow> json_at r j = Some x \<Longrightarrow> well_typed fl x"
  by (induction r j rule: json_at.induct) (auto split: if_splits option.splits dest!: map_of_SomeD)

text \<open>The place of the next value, one step below the innermost container.\<close>

lemma ready_place:
  assumes "dom_ready fl states d" "well_typed fl v"
  shows "\<exists>r j. handle_value v d = returns r (d\<lparr>root := j\<rparr>) \<and> json_at r j = Some v \<and> well_typed fl j \<and>
    frames j states (ref_stack d) \<and> (if ref_stack d = [] then r = [] else \<exists>a. r = hd (ref_stack d) @ [a])"
proof -
  from assms(1) have d: "frames (root d) states (ref_stack d)" "well_typed fl (root d)"
    by (simp_all add: dom_ready_def dom_after_def)
  show ?thesis
  proof (cases states)
    case Nil
    with d(1) assms(2) show ?thesis by (cases "ref_stack d") (simp_all add: handle_value_def)
  next
    case (Cons b st)
    with d(1) obtain q rs where q: "ref_stack d = q # rs" "is_container b (json_at q (root d))"
      by (cases "ref_stack d") auto
    show ?thesis
    proof (cases b)
      case True
      with q(2) obtain vs where vs: "json_at q (root d) = Some (Array vs)"
        by (auto simp: is_container_def split: option.splits json.splits)
      let ?j = "json_update q (\<lambda>j. Array (vs @ [v])) (root d)"
      have "json_at (q @ [Index (length vs)]) ?j = Some v"
        using json_at_update [OF vs] by (simp add: json_at_append)
      moreover have "well_typed fl ?j"
        using well_typed_update [OF d(2) vs, of "\<lambda>j. Array (vs @ [v])"] well_typed_at [OF d(2) vs] assms(2) by simp
      moreover have "frames ?j states (ref_stack d)"
        using q(1) Cons True by (intro frames_update [OF d(1) _ _ vs, of "[]"]) (simp_all add: is_container_def)
      ultimately show ?thesis using q(1) vs by (auto simp: handle_value_def)
    next
      case False
      with q(2) obtain ms where ms: "json_at q (root d) = Some (Object ms)"
        by (auto simp: is_container_def split: option.splits json.splits)
      from assms(1) Cons False q(1) obtain k x where
        k: "object_element d = Some (q @ [Key k])" "json_at (q @ [Key k]) (root d) = Some x"
        by (auto simp: dom_ready_def)
      let ?j = "json_update (q @ [Key k]) (\<lambda>j. v) (root d)"
      have "json_at (q @ [Key k]) ?j = Some v" by (rule json_at_update [OF k(2)])
      moreover have "well_typed fl ?j" by (rule well_typed_update [OF d(2) k(2) assms(2)])
      moreover have "frames ?j states (ref_stack d)"
        using q(1) by (intro frames_update [OF d(1) _ _ k(2), of "[Key k]"]) simp_all
      ultimately show ?thesis using q(1) ms k(1) by (auto simp: handle_value_def)
    qed
  qed
qed

lemma dom_value_ok:
  assumes "dom_ready fl states d" "well_typed fl v"
  shows "goes_on (dom_value v d) (dom_after fl states)"
  using ready_place [OF assms] assms(1)
  by (auto simp: dom_value_def goes_on_def dom_ready_def dom_after_def)

lemma dom_start_ok:
  assumes "dom_ready fl states d" "well_typed fl v" "is_container b (Some v)"
  shows "goes_on (dom_start v d) (dom_after fl (b # states))"
  using ready_place [OF assms(1,2)] assms(1,3)
  by (auto simp: dom_start_def goes_on_def dom_ready_def dom_after_def split: if_splits)

lemma dom_key_ok:
  assumes "dom_after fl (False # states) d" "utf8_string k"
  shows "goes_on (dom_key k d) (dom_ready fl (False # states))"
proof -
  from assms(1) have d: "frames (root d) (False # states) (ref_stack d)" "well_typed fl (root d)"
    by (simp_all add: dom_after_def)
  then obtain q rs where q: "ref_stack d = q # rs" "is_container False (json_at q (root d))"
    by (cases "ref_stack d") auto
  then obtain ms where ms: "json_at q (root d) = Some (Object ms)"
    by (auto simp: is_container_def split: option.splits json.splits)
  let ?f = "\<lambda>j :: json. Object (obj_update k (JsonValue.member k ms) ms)"
  let ?d = "d\<lparr>object_element := Some (q @ [Key k]), root := json_update q ?f (root d)\<rparr>"
  note m = well_typed_at [OF d(2) ms]
  have "well_typed fl (root ?d)"
    using well_typed_update [OF d(2) ms, of ?f] well_typed_obj_update [OF m assms(2) well_typed_member [OF m]]
    by simp
  moreover have "frames (json_update q ?f (root d)) (False # states) (ref_stack d)" using q(1)
    by (intro frames_update [OF d(1) _ _ ms, of "[]"]) (simp_all add: is_container_def)
  moreover have "json_at (q @ [Key k]) (root ?d) = Some (JsonValue.member k ms)"
    using json_at_update [OF ms, of ?f] by (simp add: json_at_append)
  ultimately have "dom_ready fl (False # states) ?d"
    using assms(1) q(1) by (simp add: dom_ready_def dom_after_def)
  then show ?thesis using q(1) ms by (simp add: goes_on_def dom_key_def)
qed

lemma dom_end_ok:
  "dom_after fl (True # states) d \<Longrightarrow> goes_on (dom_end_array d) (dom_after fl states)"
  "dom_after fl (False # states) d \<Longrightarrow> goes_on (dom_end_object d) (dom_after fl states)"
  by (cases "ref_stack d"; fastforce simp: goes_on_def dom_end_array_def dom_end_object_def dom_after_def
      is_container_def split: option.splits json.splits)+

interpretation dom: sax_handler fl json_sax_dom_parser "dom_ready fl" "dom_after fl" for fl
  by unfold_locales
    (auto simp: json_sax_dom_parser_def dom_start_array_def dom_start_object_def dom_ready_def
      intro!: dom_value_ok dom_key_ok dom_end_ok dom_start_ok
      simp: is_container_def)

text \<open>The acceptor keeps the contract, too: it is in the same state after every event.\<close>

interpretation acceptor: sax_handler fl json_sax_acceptor "\<lambda>states u. True" "\<lambda>states u. True" for fl
  by unfold_locales (simp_all add: goes_on_def)

section \<open>Parsing any bytes\<close>

lemma dom_report:
  assumes "allow_exceptions d"
  shows "report json_sax_dom_parser p ex d = raises ex (d\<lparr>errored := True\<rparr>)"
  using assms by (simp add: report_def json_sax_dom_parser_def dom_parse_error_def)

lemma dom_reported:
  assumes "reported json_sax_dom_parser (dom_ready fl) (dom_after fl) p r d"
  shows "\<exists>ex. r = Inl ex \<and> documented ex"
proof -
  from assms obtain ex d' where e: "documented ex" "known (dom_ready fl) (dom_after fl) d'"
    "report json_sax_dom_parser p ex d' = (r, d)" by (auto simp: reported_def)
  from e(2) have "allow_exceptions d'" by (auto simp: known_def dom_ready_def dom_after_def)
  with dom_report e(1,3) show ?thesis by auto
qed

lemma dom_ready_start: "dom_ready fl [] (dom_parser_ctor Null True)"
  by (simp add: dom_ready_def dom_after_def dom_parser_ctor_def)

lemma parse_any:
  "(\<exists>v. json_parse fl i = Inr v \<and> well_typed fl v \<and>
      accept fl True (parser_ctor fl False i) = returns True ()) \<or>
   (\<exists>e. json_parse fl i = Inl e \<and> documented e \<and>
      accept fl True (parser_ctor fl False i) = returns False ())"
proof -
  let ?p = "parser_ctor fl False i" and ?d = "dom_parser_ctor Null True"
  from dom.internal_agrees [OF dom_ready_start, of fl i]
  consider p' d where "sax_parse_internal fl json_sax_dom_parser ?p ?d = (Inr True, p', d)" "dom_after fl [] d"
      "sax_parse_internal fl json_sax_acceptor ?p () = (Inr True, p', ())"
    | r p' d where "sax_parse_internal fl json_sax_dom_parser ?p ?d = (r, p', d)"
      "reported json_sax_dom_parser (dom_ready fl) (dom_after fl) p' r d"
      "sax_parse_internal fl json_sax_acceptor ?p () = (Inr False, p', ())" by blast
  then show ?thesis
  proof cases
    case 1
    then have d: "\<not> errored d" "allow_exceptions d" "well_typed fl (root d)" by (simp_all add: dom_after_def)
    show ?thesis
    proof (cases "last_token (get_token fl p') = End_of_input")
      case True
      with 1 d show ?thesis by (simp add: json_parse_def parser_parse_def accept_def sax_parse_def Let_def)
    next
      case False
      with 1 d(2) show ?thesis
        by (simp add: json_parse_def parser_parse_def accept_def sax_parse_def Let_def dom_report trailing_error_def)
    qed
  next
    case 2
    with dom_reported [OF 2(2)] show ?thesis
      by (auto simp: json_parse_def parser_parse_def accept_def sax_parse_def Let_def)
  qed
qed

section \<open>Values that were parsed can be printed\<close>

text \<open>
  The bits of every \<^verbatim>\<open>double\<close> the rounding gives stand for it, and the rounding gives it back.
\<close>

definition represents :: "(rat \<Rightarrow> rat) \<Rightarrow> (rat \<Rightarrow> 64 word) \<Rightarrow> bool" where
  "represents fl repr \<longleftrightarrow> (\<forall>x. rounded fl x \<longrightarrow>
     finite_bits (repr x) \<and> rounds_to fl (repr x) \<and> float_value (repr x) = x)"

lemma well_typed_dumpable: "represents fl repr \<Longrightarrow> well_typed fl v \<Longrightarrow> dumpable fl repr v"
proof (induction v)
  case (Object ms)
  then show ?case by (fastforce elim: snds.cases)
qed (auto simp: represents_def)

end
