(* ===== verification/JsonProperties.thy ===== *)
theory JsonProperties
  imports JsonTyped
begin

text \<open>
  The properties of the JSON library: the parser returns the value of every text of the grammar,
  and the scanner of strings decodes exactly the well-formed ones.
\<close>

text \<open>C9. \<^verbatim>\<open>json::parse\<close> returns, for every text of the JSON grammar with white space around it
  and with or without a byte order mark, the value the grammar assigns to it, where the last of
  several members with the same name counts; \<^verbatim>\<open>accept\<close> accepts the text.\<close>

theorem parse_returns_value:
  assumes "json_value fl e v" "whitespace w" "whitespace w'" "may_follow_bom bom (w @ e @ w')"
  shows "json_parse fl (bom @ w @ e @ w') = Inr (normalize v) \<and>
    accept fl True (parser_ctor fl False (bom @ w @ e @ w')) = returns True ()"
  using parse_reads_value [OF assms] accept_reads_value [OF assms] by simp

theorem parse_returns_value_witness:
  "json_parse (\<lambda>x. x) (byte_order_mark @ '' '' @ ''[null]'' @ '' '') = Inr (Array [Null])"
proof -
  have "json_value (\<lambda>x. x) ''[null]'' (Array [Null])"
    using array_text_value [of "\<lambda>x. x" "[''null'']" "[Null]" "[]" "[]"]
    by (simp add: array_text_def json_value_json_elements_json_members.null)
  from parse_returns_value [OF this, of "'' ''" "'' ''" byte_order_mark] show ?thesis
    by (simp add: may_follow_bom_def is_whitespace_def)
qed

text \<open>C10. \<^verbatim>\<open>json::parse\<close> is total: on any sequence of bytes it returns a well-typed value or throws one
  of the parse errors 101, 102 and 103 that its comment lists, or the out-of-range error 406 for a
  number; it never dereferences a null pointer, an empty stack or a pointer to a value of another kind,
  so its assertions on the stack hold. Well typed means that the names of every object are
  distinct, all strings are UTF-8 of Unicode scalar values, floating point numbers come from
  \<^verbatim>\<open>strtod\<close>, and nothing is discarded. \<^verbatim>\<open>accept\<close> returns for every text whether \<^verbatim>\<open>parse\<close> returns a
  value, and never throws.\<close>

theorem parse_total:
  "(\<exists>v. json_parse fl i = Inr v \<and> well_typed fl v \<and>
      accept fl True (parser_ctor fl False i) = returns True ()) \<or>
   (\<exists>e. json_parse fl i = Inl e \<and>
      ((\<exists>k n m. e = Json_parse_error k n m \<and> k \<in> {101, 102, 103}) \<or> (\<exists>m. e = Json_out_of_range 406 m)) \<and>
      accept fl True (parser_ctor fl False i) = returns False ())"
  using parse_any [of fl i] unfolding documented_def by blast

text \<open>C15. The loop of the parser ends: every pass that goes on decreases the measure of twice the input
  left plus one for a token not yet used, which is at most twice the length of the text and one when
  the loop begins; so it makes at most that many passes, whatever the handler does.\<close>

theorem parser_loop_terminates:
  "loop_measure False (parser_ctor fl False i) \<le> 2 * length i + 1 \<and>
   (value_part fl sx skip states p s = (Continue, states1, p1, s1) \<longrightarrow>
      loop_measure False p1 < loop_measure skip p) \<and>
   (value_part fl sx skip states p s = (Evaluate, states1, p1, s1) \<and>
    evaluate_state fl sx states1 p1 s1 = (c, states2, p2, s2) \<and> (c = Continue \<or> c = Evaluate) \<longrightarrow>
      loop_measure (c = Evaluate) p2 < loop_measure skip p)"
proof -
  have "input_left (parser_ctor fl False i) \<le> length i"
    using get_token_progress(1) [of fl "\<lparr>last_token = Uninitialized, m_lexer = lexer_ctor i False\<rparr>"]
    by (simp add: parser_ctor_def lexer_ctor_def pending_input_def)
  then have "loop_measure False (parser_ctor fl False i) \<le> 2 * length i + 1" by (simp add: loop_measure_def)
  with value_part_continue [of fl sx skip states p s states1 p1 s1]
    value_part_evaluate [of fl sx skip states p s states1 p1 s1 c states2 p2 s2] show ?thesis by blast
qed

theorem parser_loop_terminates_witness:
  "value_part (\<lambda>x. x) json_sax_acceptor False [] (parser_ctor (\<lambda>x. x) False ''[1]'') () =
     (Continue, [True], get_token (\<lambda>x. x) (parser_ctor (\<lambda>x. x) False ''[1]''), ()) \<and>
   loop_measure False (get_token (\<lambda>x. x) (parser_ctor (\<lambda>x. x) False ''[1]'')) <
     loop_measure False (parser_ctor (\<lambda>x. x) False ''[1]'')"
proof -
  have "value_part (\<lambda>x. x) json_sax_acceptor False [] (parser_ctor (\<lambda>x. x) False ''[1]'') () =
     (Continue, [True], get_token (\<lambda>x. x) (parser_ctor (\<lambda>x. x) False ''[1]''), ())"
    by code_simp
  with parser_loop_terminates [of "\<lambda>x. x" "''[1]''" json_sax_acceptor False "[]"
      "parser_ctor (\<lambda>x. x) False ''[1]''" "()" "[True]" "get_token (\<lambda>x. x) (parser_ctor (\<lambda>x. x) False ''[1]'')" "()"]
  show ?thesis by blast
qed

text \<open>C14. The scanner of strings, started after the opening quote, returns a string token with the
  bytes \<open>d\<close> in its buffer and \<open>rest\<close> left of the input exactly when the input is a sequence of
  characters and escapes that is well formed by RFC 8259 and UTF-8 and denotes \<open>d\<close>, a closing
  quote, and \<open>rest\<close>.\<close>

theorem scan_string_exact:
  assumes "reading l s ''''"
  shows "(\<exists>l'. scan_string_loop l = (Value_string, l') \<and> token_buffer l' = d \<and> reading l' rest d) \<longleftrightarrow>
    (\<exists>e. s = e @ CHR 0x22 # rest \<and> json_chars e d)"
proof
  assume "\<exists>l'. scan_string_loop l = (Value_string, l') \<and> token_buffer l' = d \<and> reading l' rest d"
  then obtain l' where l': "scan_string_loop l = (Value_string, l')" "reading l' rest d" by blast
  from string_loop_sound [OF assms l'(1)] l'(2) show "\<exists>e. s = e @ CHR 0x22 # rest \<and> json_chars e d"
    by (auto simp: reading_def)
next
  assume "\<exists>e. s = e @ CHR 0x22 # rest \<and> json_chars e d"
  with string_loop_accepts [of _ d l rest "[]"] assms show
    "\<exists>l'. scan_string_loop l = (Value_string, l') \<and> token_buffer l' = d \<and> reading l' rest d"
    by (fastforce simp: reading_def)
qed

theorem scan_string_exact_witness:
  "\<exists>l'. scan_string_loop (get (lexer_ctor (CHR 0x22 # ''ab'' @ [CHR 0x22, CHR '','']) False)) =
     (Value_string, l') \<and> token_buffer l' = ''ab''"
proof -
  have "reading (get (lexer_ctor (CHR 0x22 # ''ab'' @ [CHR 0x22, CHR '','']) False))
      (''ab'' @ CHR 0x22 # '','') ''''"
    by (simp add: reading_def lexer_ctor_def settled_def get_def get_character_def Let_def)
  moreover have "json_chars ''ab'' ''ab''" by (rule plain_chars) (simp add: plain_def)
  ultimately show ?thesis using scan_string_exact [of _ "''ab'' @ CHR 0x22 # '',''" "''ab''" "'',''"] by blast
qed

section \<open>Printing of numbers\<close>

text \<open>C16. For every positive finite \<^verbatim>\<open>double\<close>, Grisu2 generates at least one and at most 29 digits, the
  first of which is not zero, and the decimal number they denote lies strictly between the two
  midpoints that separate the number from its neighbours.\<close>

theorem grisu2_digits_identify:
  assumes "positive_finite bits"
  shows "\<exists>ds n. grisu2 bits = (map digit_of ds, n) \<and> decimal ds \<and> 1 \<le> length ds \<and> length ds \<le> 29 \<and>
    lower_midpoint bits < decimal_number ds n \<and> decimal_number ds n < upper_midpoint bits"
  using grisu2_between_midpoints [OF assms] by (metis One_nat_def Suc_leI length_greater_0_conv)

theorem grisu2_digits_identify_witness:
  "\<exists>ds n. grisu2 0x3FB999999999999A = (map digit_of ds, n) \<and> 1 \<le> length ds \<and>
     decimal_number ds n < upper_midpoint 0x3FB999999999999A"
proof -
  have "positive_finite 0x3FB999999999999A" by (simp add: positive_finite_def)
  from grisu2_digits_identify [OF this] show ?thesis by blast
qed

text \<open>C17. The text of every finite \<^verbatim>\<open>double\<close> fits into the buffer of 64 characters, and the parser reads
  it back as the same number, when \<^verbatim>\<open>strtod\<close> rounds the numbers between the midpoints around it to
  it.\<close>

theorem float_text_round_trip:
  assumes "finite_bits bits" "rounds_to fl bits"
  shows "json_parse fl (to_chars bits) = Inr (Number_float (float_value bits)) \<and> length (to_chars bits) \<le> 64"
proof -
  have "json_value fl (to_chars bits) (Number_float (float_value bits))" by (rule float_text [OF assms])
  from parse_reads_value [OF this _ _ may_follow_value [OF this], of "[]" "[]"]
  have "json_parse fl (to_chars bits) = Inr (Number_float (float_value bits))" by simp
  moreover have "length (to_chars bits) \<le> 64"
    using to_chars_text [OF assms(1)] by (auto split: if_splits)
  ultimately show ?thesis ..
qed

theorem float_text_round_trip_witness:
  "json_parse (\<lambda>x. float_value 0xBFB999999999999A) (to_chars 0xBFB999999999999A) =
     Inr (Number_float (float_value 0xBFB999999999999A))"
proof -
  have "finite_bits 0xBFB999999999999A" "rounds_to (\<lambda>x. float_value 0xBFB999999999999A) 0xBFB999999999999A"
    by (simp_all add: finite_bits_def magnitude_def rounds_to_def)
  from float_text_round_trip [OF this] show ?thesis by blast
qed

section \<open>Printing of strings\<close>

text \<open>C18. With the strict error handler, escaping returns exactly for the strings that are the UTF-8 of
  Unicode scalar values; it appends the escapes of these, which the grammar of strings reads back as
  the same bytes.\<close>

theorem escaping_strict:
  assumes "error_handler s = Strict"
  shows "dump_escaped str ea s = returns () s' \<longleftrightarrow>
    (\<exists>cps. (\<forall>cp \<in> set cps. scalar cp) \<and> str = utf8 cps \<and>
       s' = s\<lparr>written := written s @ escaped_text ea cps\<rparr> \<and> json_chars (escaped_text ea cps) str)"
proof
  assume d: "dump_escaped str ea s = returns () s'"
  with strict_exact [OF assms, of str ea] obtain cps where
    cps: "\<forall>cp \<in> set cps. scalar cp" "str = utf8 cps" by blast
  with dump_escaped_utf8 [OF cps(1), of ea s] escaped_text_chars [OF cps(1), of ea] d show
    "\<exists>cps. (\<forall>cp \<in> set cps. scalar cp) \<and> str = utf8 cps \<and>
       s' = s\<lparr>written := written s @ escaped_text ea cps\<rparr> \<and> json_chars (escaped_text ea cps) str" by auto
next
  assume "\<exists>cps. (\<forall>cp \<in> set cps. scalar cp) \<and> str = utf8 cps \<and>
       s' = s\<lparr>written := written s @ escaped_text ea cps\<rparr> \<and> json_chars (escaped_text ea cps) str"
  then show "dump_escaped str ea s = returns () s'" using dump_escaped_utf8 by auto
qed

theorem escaping_strict_witness:
  "dump_escaped (utf8 [0x61, 0x20AC]) True (serializer_ctor (CHR '' '') Strict) =
     returns () ((serializer_ctor (CHR '' '') Strict)\<lparr>written := escaped_text True [0x61, 0x20AC]\<rparr>)"
proof -
  have sc: "\<forall>cp \<in> set [0x61, 0x20AC]. scalar cp" by (simp add: scalar_def)
  have "error_handler (serializer_ctor (CHR '' '') Strict) = Strict"
    "written (serializer_ctor (CHR '' '') Strict) = []" by (simp_all add: serializer_ctor_def)
  with escaping_strict [of "serializer_ctor (CHR '' '') Strict" "utf8 [0x61, 0x20AC]" True]
    escaped_text_chars [OF sc] sc show ?thesis by fastforce
qed

section \<open>Printing of values\<close>

text \<open>C11. Printing a value and parsing the text returns the value, with the members of every object in
  the order of their names and the integers that are not negative without a sign. The text may be
  compact or have any indentation up to 1024 of white space, with or without escapes of everything
  beyond ASCII. The value may have any strings in UTF-8, any integers, and floating point numbers that
  are what their 64 bits stand for.\<close>

theorem dump_round_trip:
  assumes "dumpable fl repr v" "indent < 0 \<or> indent \<le> 1024 \<and> whitespace [ichar]"
  shows "\<exists>t. json_dump repr indent ichar ea h v = Inr t \<and> json_parse fl t = Inr (canonical v)"
  by (rule json_dump_parse [OF assms])

theorem dump_round_trip_witness:
  "\<exists>t. json_dump (\<lambda>x. 0) 4 (CHR '' '') False Strict
       (Object [(''b'', Array [Null, Number_integer (-1)]), (''a'', Number_float 0)]) = Inr t \<and>
     json_parse (\<lambda>x. x) t = Inr (Object [(''a'', Number_float 0), (''b'', Array [Null, Number_integer (-1)])])"
proof -
  have "utf8 [0x61] = [CHR 0x61]" "utf8 [0x62] = [CHR 0x62]"
    by (simp_all add: utf8_def codepoint_bytes_def char_of_eq_iff take_bit_eq_mod)
  moreover have "\<forall>cp \<in> set [0x61]. scalar cp" "\<forall>cp \<in> set [0x62]. scalar cp" by (simp_all add: scalar_def)
  ultimately have names: "utf8_string ''a''" "utf8_string ''b''" unfolding utf8_string_def by metis+
  have zero: "finite_bits 0" "rounds_to (\<lambda>x. x) 0" "float_value 0 = 0"
    by (simp_all add: finite_bits_def rounds_to_def float_value_def magnitude_def)
  let ?v = "Object [(''b'', Array [Null, Number_integer (-1)]), (''a'', Number_float 0)]"
  have "dumpable (\<lambda>x. x) (\<lambda>x. 0) ?v" using names zero by simp
  moreover have "whitespace '' ''" by (simp add: is_whitespace_def)
  moreover have "canonical ?v = Object [(''a'', Number_float 0), (''b'', Array [Null, Number_integer (-1)])]"
    by simp
  ultimately show ?thesis
    using dump_round_trip [of "\<lambda>x. x" "\<lambda>x. 0" ?v 4 "CHR '' ''" False Strict] by simp
qed

text \<open>C12. Whatever bytes were parsed, a value that came of them can be printed, compact or with an
  indentation of at most 1024 of a white-space character, and parsing what is printed returns it again
  in its canonical form, provided that the bits of every \<^verbatim>\<open>double\<close> that the rounding of \<^verbatim>\<open>strtod\<close>
  gives are finite, stand for it, and are what the rounding gives for the numbers around it.\<close>

theorem parse_dump_parse:
  assumes "represents fl repr" "json_parse fl i = Inr v" "indent < 0 \<or> indent \<le> 1024 \<and> whitespace [ichar]"
  shows "\<exists>t. json_dump repr indent ichar ea h v = Inr t \<and> json_parse fl t = Inr (canonical v)"
proof -
  have "well_typed fl v" using parse_any [of fl i] assms(2) by auto
  from json_dump_parse [OF well_typed_dumpable [OF assms(1) this] assms(3)] show ?thesis .
qed

text \<open>A rounding to three numbers, with the bits that stand for them.\<close>

definition demo_round :: "rat \<Rightarrow> rat" where
  "demo_round x = (if 1 / 2 \<le> x then 1 else if x \<le> -1 / 2 then -1 else 0)"

definition demo_bits :: "rat \<Rightarrow> 64 word" where
  "demo_bits x = (if x = 1 then 0x3FF0000000000000 else if x = -1 then 0xBFF0000000000000 else 0)"

lemma demo_represents: "represents demo_round demo_bits"
proof -
  have m: "magnitude 0x3FF0000000000000 = 0x3FF0000000000000" "magnitude 0xBFF0000000000000 = 0x3FF0000000000000"
    "magnitude 0 = 0" by (simp_all add: magnitude_def)
  have l: "1 / 2 \<le> lower_midpoint 0x3FF0000000000000" by code_simp
  have sign: "bit (0xBFF0000000000000 :: 64 word) 63" "\<not> bit (0x3FF0000000000000 :: 64 word) 63" by simp_all
  have v: "float_value 0x3FF0000000000000 = 1" "float_value 0xBFF0000000000000 = -1" "float_value 0 = 0"
    by code_simp+
  have "x \<in> {0, 1, -1}" if "rounded demo_round x" for x
    using that by (auto simp: rounded_def demo_round_def split: if_splits)
  moreover have "finite_bits (demo_bits x) \<and> rounds_to demo_round (demo_bits x) \<and> float_value (demo_bits x) = x"
    if "x \<in> {0, 1, -1}" for x
    using that l by (auto simp: demo_bits_def finite_bits_def rounds_to_def m v sign demo_round_def)
  ultimately show ?thesis unfolding represents_def by blast
qed

lemma demo_fraction: "json_parse demo_round ''[0.75,null]'' = Inr (Array [Number_float 1, Null])"
proof -
  have d: "decimal_value ''0.75'' = 3 / 4" by code_simp
  have "json_number demo_round (number_text False ''0'' ''.75'' []) (Number_float 1)"
  proof (rule json_number.number)
    show "whole_part ''0''" "exponent_part []" by (simp_all add: whole_part_def exponent_part_def)
    have "digits ''75''" by (simp add: digits_def is_digit_def)
    then show "fraction_part ''.75''" by (simp add: fraction_part_def)
    show "converted demo_round (number_token False ''.75'' []) (number_text False ''0'' ''.75'' []) = Some (Number_float 1)"
      by (simp add: number_token_def number_text_def converted_def strtod_def d demo_round_def)
  qed
  then have "json_value demo_round ''0.75'' (Number_float 1)"
    unfolding number_text_def by (simp add: json_value_json_elements_json_members.number)
  then have "json_value demo_round (array_text [] [] [''0.75'', ''null'']) (Array [Number_float 1, Null])"
    by (intro array_text_value) (simp_all add: json_value_json_elements_json_members.null)
  from parse_reads_value [OF this, of "[]" "[]" "[]"] show ?thesis
    by (simp add: may_follow_bom_def array_text_def)
qed
theorem parse_dump_parse_witness:
  "\<exists>t. json_dump demo_bits 2 (CHR '' '') False Strict (Array [Number_float 1, Null]) = Inr t \<and>
     json_parse demo_round t = Inr (Array [Number_float 1, Null])"
proof -
  have "whitespace '' ''" by (simp add: is_whitespace_def)
  then show ?thesis
    using parse_dump_parse [OF demo_represents demo_fraction, of 2 "CHR '' ''" False Strict] by simp
qed

text \<open>C13. Printing any value, whatever the bytes of its strings, with an indentation of at most 1024
  returns a text or throws the type error 316, this only with the strict error handler; no buffer is
  overrun. With an indentation above 1025 the first line of every object and array that is not
  empty reads past the end of the string for the indentation, because this is doubled only once.\<close>

theorem dump_indentation:
  "(indent \<le> 1024 \<longrightarrow> (\<exists>t. json_dump repr indent ichar ea h v = Inr t) \<or>
      h = Strict \<and> (\<exists>m. json_dump repr indent ichar ea h v = Inl (Json_type_error 316 m))) \<and>
   (1025 < indent \<and> indent < 2 ^ 31 \<and> (\<exists>ms vs. v = Object ms \<and> ms \<noteq> [] \<or> v = Array vs \<and> vs \<noteq> []) \<longrightarrow>
      json_dump repr indent ichar ea h v = Inl (Undefined Bad_index))"
  using json_dump_safe [of indent repr ichar ea h v] json_dump_too_wide [of indent v _ _ repr ichar ea h] by blast

theorem dump_indentation_witness:
  "json_dump (\<lambda>x. 0) 2000 (CHR '' '') False Strict (Array [Null]) = Inl (Undefined Bad_index) \<and>
   (\<exists>t. json_dump (\<lambda>x. 0) 1000 (CHR '' '') False Replace (Array [String [CHR 0xFF]]) = Inr t)"
  using dump_indentation [of 2000 "\<lambda>x. 0" "CHR '' ''" False Strict "Array [Null]"]
    dump_indentation [of 1000 "\<lambda>x. 0" "CHR '' ''" False Replace "Array [String [CHR 0xFF]]"] by simp

text \<open>
  Above 512 the string for the indentation is lengthened with blanks, whatever the character the
  caller asked for, and at 1025 the terminator of the string is written.
\<close>

theorem wide_indentation_texts:
  "json_dump repr 600 (CHR 0x09) False Strict (Array [Null]) =
     Inr ([CHR ''['', CHR 0x0A] @ replicate 512 (CHR 0x09) @ replicate 88 (CHR '' '') @ ''null'' @ [CHR 0x0A, CHR '']''])"
  "json_dump repr 1025 (CHR '' '') False Strict (Array [Null]) =
     Inr ([CHR ''['', CHR 0x0A] @ replicate 512 (CHR '' '') @ replicate 512 (CHR '' '') @ CHR 0x00 # ''null'' @ [CHR 0x0A, CHR '']''])"
  by (simp_all add: json_dump_def Let_def then_do_def write_indent_def grow_indent_def serializer_ctor_def
      write_characters_def)

end
