(* ===== verification/Hazards.thy ===== *)
theory Hazards
  imports CallCentreCorrect
begin

text \<open>
  Two orders of events in which the program goes wrong, from every state that allows them: a call
  that times out just before it is taken, with a shutdown in between, and a caller that dials again
  while the handler of the timer of the earlier call is queued.
\<close>

section \<open>Handlers that can run\<close>

lemma handler_of_waiting:
  assumes "queue_inv w q" "(n, p) \<in> set (incoming_calls q)"
  shows "\<exists>i < length (pending (timers q ! timer_of q (number w p))).
    pending (timers q ! timer_of q (number w p)) ! i = ((number w p, n), False)"
proof -
  have "live (timers q ! timer_of q (number w p)) = [(number w p, n)]"
    using queue_invD(4) [OF assms(1)] assms(2) by (auto simp: handlers_ok_def)
  then have "(number w p, n) \<in> set (live (timers q ! timer_of q (number w p)))" by simp
  then have "((number w p, n), False) \<in> set (pending (timers q ! timer_of q (number w p)))"
    by (auto simp: live_def)
  then show ?thesis by (simp add: in_set_conv_nth)
qed

lemma take_handler_at:
  assumes "k < length (timers q)" "i < length (pending (timers q ! k))"
  shows "\<exists>q'. take_handler k i q = Some (pending (timers q ! k) ! i, q')"
  using assms by (simp add: take_handler_def take_pending_def)

text \<open>A handler in force may run as soon as its wait has ended, and takes its call out.\<close>

lemma expiry_step:
  assumes inv: "machine_inv s" "phase s = Running" and c: "(n, p) \<in> set (incoming_calls (incoming (ops s)))"
    and now: "wait_ends s n \<le> now" "0 \<le> now"
  shows "\<exists>k i s'. permitted (Timer_handler k i Success now) s \<and>
    sys_step env (Timer_handler k i Success now) s = Some (returns () s') \<and> pc s' = pc s \<and>
    phase s' = Running \<and> incoming_calls (incoming (ops s')) = erase_node n (incoming_calls (incoming (ops s)))"
proof -
  let ?q = "incoming (ops s)" and ?w = "world s"
  note I = sys_invD [OF machine_invD(1) [OF inv(1)]]
  from running_queue [OF machine_invD(1) [OF inv(1)] inv(2)] have q: "queue_inv ?w ?q" ..
  let ?k = "timer_of ?q (number ?w p)"
  from handler_of_waiting [OF q c] obtain i where i: "i < length (pending (timers ?q ! ?k))"
    "pending (timers ?q ! ?k) ! i = ((number ?w p, n), False)" by blast
  from take_handler_at [OF node_facts(4) [OF q c] i(1)] i(2) obtain q' where
    t: "take_handler ?k i ?q = Some (((number ?w p, n), False), q')" by auto
  have tok: "\<And>c. c \<in> set (objects ?w) \<Longrightarrow> times_ok c" using I(1) by (simp add: world_ok_def)
  from OnCallReset_in_force [OF q t tok now(2) world_ok_info [OF I(1)], of "env_localtime env"] obtain r q2 where
    "OnCallReset (env_localtime env) now Success (number ?w p) n (?w, q') = returns () (timed_out (env_localtime env) now r ?w, q2)"
    "q2 = removed n (number ?w p) (timers q') ?q" by blast
  then have st: "timer_step env ?k i Success now s = Some (returns ()
      (s\<lparr>world := timed_out (env_localtime env) now r ?w, ops := (ops s)\<lparr>incoming := q2\<rparr>\<rparr>))"
    "incoming_calls q2 = erase_node n (incoming_calls ?q)"
    using t by (simp_all add: timer_step_def)
  have "permitted (Timer_handler ?k i Success now) s"
    using now i(2) by (simp add: wait_expired_def)
  with st inv(2) show ?thesis by (intro exI [of _ ?k] exI [of _ i]) auto
qed

section \<open>The null pointer of the shutdown\<close>

text \<open>
  The one waiting call times out, a signal stops the program, and the operators' thread, which has
  tested \<^verbatim>\<open>continue_loop_\<close> before, pops.
\<close>

definition null_events :: "nat \<Rightarrow> nat \<Rightarrow> time_point \<Rightarrow> event list" where
  "null_events k i now =
     [Timer_handler k i Success now, Signal, Main_thread, Main_thread, Main_thread, Operators_thread now]"

lemma null_pointer_run:
  assumes "machine_inv s" "phase s = Running" "pc s = In_AddCall"
    "incoming_calls (incoming (ops s)) = [(n, Some j)]" "wait_ends s n \<le> now" "0 \<le> now"
  shows "\<exists>k i s'. run_permitted env (null_events k i now) s \<and>
    sys_run env (null_events k i now) s = Some (raises (Undefined Null_deref) s')"
proof -
  from expiry_step [OF assms(1,2) _ assms(5,6), of "Some j" env] assms(4) obtain k i s1 where
    s1: "permitted (Timer_handler k i Success now) s"
      "sys_step env (Timer_handler k i Success now) s = Some (returns () s1)"
      "pc s1 = pc s" "phase s1 = Running" "incoming_calls (incoming (ops s1)) = []"
    by (auto simp: erase_node_def)
  let ?s = "s1\<lparr>phase := Awoken, ops := Stop_awake (Stop_push (Stop_flag (ops s1)))\<rparr>"
  have "incoming_calls (incoming (ops ?s)) = [(next_node (incoming (ops s1)), None)]"
    by (simp add: Stop_awake_def Stop_push_def Stop_flag_def awake_def s1(5))
  from AddCall_pop_cases(3) [OF pop_null_head [OF this]] obtain w' o' where
    "AddCall_pop (world ?s, ops ?s) = raises (Undefined Null_deref) (w', o')" by (metis prod.collapse)
  then have "operators_step now ?s = raises (Undefined Null_deref) (?s\<lparr>world := w', ops := o'\<rparr>)"
    using s1(3) assms(3) by (simp add: operators_step_def Run_step_def)
  then have "sys_run env [Operators_thread now] ?s =
      Some (raises (Undefined Null_deref) (thread_waits now ?s (?s\<lparr>world := w', ops := o'\<rparr>)))"
    using s1(3) assms(3) by simp
  then have "sys_run env (null_events k i now) s =
      Some (raises (Undefined Null_deref) (thread_waits now ?s (?s\<lparr>world := w', ops := o'\<rparr>)))"
    using s1(2,4) by (simp add: null_events_def main_step_def del: sys_step.simps(2,4))
  moreover have "run_permitted env (null_events k i now) s"
    using s1(1,2) assms(6) by (simp add: null_events_def del: permitted.simps(2) sys_step.simps(2)
        split: option.split prod.split sum.split)
  ultimately show ?thesis by blast
qed

section \<open>The stale iterator\<close>

text \<open>
  The operators' thread takes the first waiting call when its timer has expired, so that the handler
  is queued; the caller dials again; and the handler runs.
\<close>

definition stale_events ::
  "nat \<Rightarrow> nat \<Rightarrow> string \<Rightarrow> request \<Rightarrow> time_point \<Rightarrow> time_point \<Rightarrow> time_point \<Rightarrow> time_point \<Rightarrow> event list"
where
  "stale_events k i ip rq now now1 now2 now3 =
     [Operators_thread now, Request (Inr ip) rq now1 now2, Timer_handler k i Success now3]"

lemma stale_handler_fails:
  assumes inv: "machine_inv s" "phase s = Running"
    and k: "k < length (timers (incoming (ops s)))" "i < length (pending (timers (incoming (ops s)) ! k))"
    and p: "pending (timers (incoming (ops s)) ! k) ! i = ((x, n), True)"
    and x: "x \<in> set (callers (world s) (incoming (ops s)))"
  shows "\<exists>s'. sys_step env (Timer_handler k i Success now) s = Some (raises (Undefined Invalid_iterator) s')"
proof -
  let ?q = "incoming (ops s)"
  from running_queue [OF machine_invD(1) [OF inv(1)] inv(2)] have q: "strip ?q = ?q" "queue_inv (world s) ?q" by auto
  from take_handler_at [OF k] p obtain q' where t: "take_handler k i ?q = Some (((x, n), True), q')" by auto
  from take_handler_pending [OF t] have
    q': "incoming_calls q' = incoming_calls ?q" "map_cg_pn_to_pos q' = map_cg_pn_to_pos ?q"
    "((x, n), True) \<in> set (pending (timers ?q ! k))" by auto
  have "n \<notin> fst ` set (incoming_calls q')"
    using machine_invD(2) [OF inv(1)] q(1) q' k(1) unfolding queue_extra_def cancelled_gone_def
    by (metis nth_mem)
  moreover obtain m where "map_cg_pn_to_pos q' x = Some m"
    using x queue_invD(2) [OF q(2)] q'(2) unfolding keys_ok_def by auto
  ultimately have "fst (OnCallReset (env_localtime env) now Success x n (world s, q')) = Inl (Undefined Invalid_iterator)"
    by (rule OnCallReset_stale [rotated])
  with t inv(2) show ?thesis
    by (cases "OnCallReset (env_localtime env) now Success x n (world s, q')") (auto simp: timer_step_def)
qed

text \<open>The thread takes the first call: the wait is cancelled and its number is free.\<close>

lemma take_first_step:
  assumes inv: "machine_inv s" "phase s = Running" "pc s = In_AddCall"
    and c: "incoming_calls (incoming (ops s)) = (n, Some j) # rest" and now: "wait_ends s n \<le> now" "0 \<le> now"
  defines "x \<equiv> cg_pn (objects (world s) ! j)" and "q \<equiv> popped (world s) (incoming (ops s))"
  shows "\<exists>k i. sys_step env (Operators_thread now) s = Some (returns () (s\<lparr>ops := (ops s)\<lparr>incoming := q\<rparr>,
      pc := Take_operator (Some j), wait_cancelled := (wait_cancelled s)(n := now)\<rparr>)) \<and>
    k < length (timers q) \<and> i < length (pending (timers q ! k)) \<and> pending (timers q ! k) ! i = ((x, n), True) \<and>
    x \<notin> set (callers (world s) q) \<and> length (incoming_calls q) < capacity q \<and> n < next_node q \<and>
    queue_inv (world s) q"
proof -
  let ?q = "incoming (ops s)" and ?w = "world s"
  from running_queue [OF machine_invD(1) [OF inv(1)] inv(2)] have q: "queue_inv ?w ?q" ..
  have x: "x = number ?w (Some j)" by (simp add: x_def number_def)
  have m: "(n, Some j) \<in> set (incoming_calls ?q)" by (simp add: c)
  let ?k = "timer_of ?q x"
  note k = node_facts(4) [OF q m, folded x]
  from handler_of_waiting [OF q m] obtain i where i: "i < length (pending (timers ?q ! ?k))"
    "pending (timers ?q ! ?k) ! i = ((x, n), False)" by (auto simp: x)
  have r: "q = removed n x ((timers ?q)[?k := cancel (timers ?q ! ?k)]) ?q"
    by (simp add: q_def popped_def c x Let_def)
  note pc = pop_Cons [OF q c, folded q_def]
  have "operators_step now s = returns () (s\<lparr>ops := (ops s)\<lparr>incoming := q\<rparr>, pc := Take_operator (Some j)\<rparr>)"
    using AddCall_pop_cases(2) [OF pc(1)] by (simp add: operators_step_def Run_step_def inv(3))
  then have "sys_step env (Operators_thread now) s = Some (returns () (s\<lparr>ops := (ops s)\<lparr>incoming := q\<rparr>,
      pc := Take_operator (Some j), wait_cancelled := (wait_cancelled s)(n := now)\<rparr>))"
    by (simp add: inv(3) thread_waits_def c)
  moreover have "?k < length (timers q)" "i < length (pending (timers q ! ?k))"
    "pending (timers q ! ?k) ! i = ((x, n), True)"
    using k i by (simp_all add: r cancel_def mark_cancelled_def)
  moreover have "x \<notin> set (callers ?w q)"
    using callers_removed [OF q m, of "(timers ?q)[?k := cancel (timers ?q ! ?k)]"] by (simp add: r x)
  moreover have "length (incoming_calls q) < capacity q"
    using queue_bounded [OF q] pc(2) c by (simp add: q_def popped_fields)
  moreover have "n < next_node q"
    using queue_invD(1) [OF q] m by (auto simp: nodes_ok_def r)
  ultimately show ?thesis using pc(3) by blast
qed

lemma pushed_pending:
  assumes "i < length (pending (timers q ! k))" "pending (timers q ! k) ! i = (h, True)" "k < length (timers q)"
  shows "i < length (pending (timers (pushed p c q) ! k)) \<and> pending (timers (pushed p c q) ! k) ! i = (h, True)"
  using assms
  by (cases "k = hd (free_timers q)")
    (simp_all add: pushed_def Let_def async_wait_def expires_after_def mark_cancelled_def nth_append)

text \<open>The caller dials again and is accepted.\<close>

lemma redial_step:
  assumes inv: "machine_inv s" "phase s = Running" and rq: "req_method rq = Get"
    and v: "isValidPhoneNumber (target rq) [] = (True, x)" and d: "draws_fit env (rand s)"
    and x: "x \<notin> set (callers (world s) (incoming (ops s)))"
    and l: "length (incoming_calls (incoming (ops s))) < capacity (incoming (ops s))"
    and now: "0 \<le> now1" "0 \<le> now2"
  shows "\<exists>c s'. sys_step env (Request (Inr ip) rq now1 now2) s = Some (returns () s') \<and> phase s' = Running \<and>
    incoming (ops s') = pushed (Some (length (objects (world s)))) c (incoming (ops s)) \<and>
    x \<in> set (callers (world s') (incoming (ops s'))) \<and> wait_cancelled s' = wait_cancelled s \<and>
    (\<forall>n < next_node (incoming (ops s)). wait_ends s' n = wait_ends s n)"
proof -
  let ?q = "incoming (ops s)" and ?w = "world s"
  from running_queue [OF machine_invD(1) [OF inv(1)] inv(2)] have q: "queue_inv ?w ?q" ..
  from Call_ctor_ok [OF d] obtain c r n where
    c: "Call_ctor (env_fl env) (env_gamma env) (env_uniform env) x now1 (rand s, next_call_id ?w) = (Inr c, (r, n))"
    by blast
  have cx: "cg_pn c = x" by (rule Call_ctor_fields(3) [OF c])
  from HandleRequest_new_call [OF q sys_invD(1) [OF machine_invD(1) [OF inv(1)]] now rq v c, of "Inr ip"] x l cx
  obtain resp w' q' where h: "HandleRequest env (Inr ip) now1 now2 rq (rand s, ?w, ?q) = (Inr resp, (r, w', q'))"
    "taken c (?w, ?q) (w', q')" by auto
  let ?s = "s\<lparr>rand := r, world := w', ops := (ops s)\<lparr>incoming := q'\<rparr>\<rparr>"
  from h(2) have t: "q' = pushed (Some (length (objects ?w))) c ?q" "objects w' = objects ?w @ [c]"
    by (simp_all add: taken_def)
  then have "x \<in> set (callers w' q')" using cx callers_pushed [of w' "Some (length (objects ?w))" c ?q] by simp
  moreover have "sys_step env (Request (Inr ip) rq now1 now2) s = Some (returns () (arm_wait now2 s ?s))"
    using inv(2) h(1) by (simp add: request_step_def)
  moreover have "wait_cancelled (arm_wait now2 s ?s) = wait_cancelled s"
    "\<forall>n < next_node ?q. wait_ends (arm_wait now2 s ?s) n = wait_ends s n"
    by (simp_all add: arm_wait_def Let_def)
  ultimately show ?thesis using t(1) inv(2)
    by (intro exI [of _ c] exI [of _ "arm_wait now2 s ?s"]) simp
qed

lemma stale_run:
  assumes inv: "machine_inv s" "phase s = Running" "pc s = In_AddCall"
    and c: "incoming_calls (incoming (ops s)) = (n, Some j) # rest" and e: "wait_ends s n \<le> now" "0 \<le> now"
    and rq: "req_method rq = Get"
      "isValidPhoneNumber (target rq) [] = (True, cg_pn (objects (world s) ! j))" "draws_fit env (rand s)"
    and later: "0 \<le> now1" "0 \<le> now2" "0 \<le> now3"
  shows "\<exists>k i s'. run_permitted env (stale_events k i ip rq now now1 now2 now3) s \<and>
    sys_run env (stale_events k i ip rq now now1 now2 now3) s = Some (raises (Undefined Invalid_iterator) s')"
proof -
  let ?x = "cg_pn (objects (world s) ! j)" and ?q = "popped (world s) (incoming (ops s))"
  let ?s1 = "s\<lparr>ops := (ops s)\<lparr>incoming := ?q\<rparr>, pc := Take_operator (Some j),
    wait_cancelled := (wait_cancelled s)(n := now)\<rparr>"
  from take_first_step [OF inv c e, of env] obtain k i where
    s1: "sys_step env (Operators_thread now) s = Some (returns () ?s1)" "k < length (timers ?q)"
      "i < length (pending (timers ?q ! k))" "pending (timers ?q ! k) ! i = ((?x, n), True)"
      "?x \<notin> set (callers (world s) ?q)" "length (incoming_calls ?q) < capacity ?q" "n < next_node ?q" by blast
  have p1: "permitted (Operators_thread now) s" using e by simp
  note m1 = conjunct1 [OF sys_step_result [OF inv(1) p1 s1(1)]]
  from redial_step [OF m1 _ rq(1,2), of env now1 now2 ip] inv(2) rq(3) s1(5,6) later obtain d s2 where
    s2: "sys_step env (Request (Inr ip) rq now1 now2) ?s1 = Some (returns () s2)" "phase s2 = Running"
      "incoming (ops s2) = pushed (Some (length (objects (world s)))) d ?q"
      "?x \<in> set (callers (world s2) (incoming (ops s2)))" "wait_cancelled s2 = wait_cancelled ?s1"
      "\<forall>n < next_node ?q. wait_ends s2 n = wait_ends s n" by auto
  have p2: "permitted (Request (Inr ip) rq now1 now2) ?s1" using later by simp
  note m2 = conjunct1 [OF sys_step_result [OF m1 p2 s2(1)]]
  note pend = pushed_pending [OF s1(3,4,2), of "Some (length (objects (world s)))" d, folded s2(3)]
  have "k < length (timers (incoming (ops s2)))" using s1(2) by (simp add: s2(3))
  from stale_handler_fails [OF m2 s2(2) this _ _ s2(4), of i n env now3] pend obtain s3 where
    s3: "sys_step env (Timer_handler k i Success now3) s2 = Some (raises (Undefined Invalid_iterator) s3)" by blast
  have "permitted (Timer_handler k i Success now3) s2"
    using pend later(3) s2(5,6) s1(7) e(1) by (simp add: wait_expired_def)
  with p1 p2 s1(1) s2(1) s3 show ?thesis
    by (intro exI [of _ k] exI [of _ i] exI [of _ s3])
      (simp add: stale_events_def del: sys_step.simps permitted.simps)
qed

end
