(* ===== verification/Spec2Isabelle.thy ===== *)
theory Spec2Isabelle
  imports RequestProperties JsonProperties Hazards
begin

text \<open>
  This library models CallCentre, an HTTP service that queues telephone calls and hands them to
  operators, together with the JSON library it reads its configuration with.

  \<^bold>\<open>The program.\<close> \<^verbatim>\<open>src/main.cpp\<close> reads the configuration (\<^verbatim>\<open>ReadConfig.h\<close>), initialises the loggers
  (\<^verbatim>\<open>Log.cpp\<close>) and the random durations (\<^verbatim>\<open>RandGen.cpp\<close>), and starts the operators' thread
  (\<^verbatim>\<open>Operators.cpp\<close>), the listener (\<^verbatim>\<open>Listener.cpp\<close>) and a pool of threads that run the sessions
  (\<^verbatim>\<open>Session.cpp\<close>) and the timers. A session checks the telephone number of a request, creates a
  call (\<^verbatim>\<open>Call.cpp\<close>) and pushes it into the queue of incoming calls (\<^verbatim>\<open>IncomingCallsQueue.cpp\<close>),
  where a timer limits its stay. The operators' thread waits for a free operator
  (\<^verbatim>\<open>ThreadSafeQueue.h\<close>) and for a call, and connects the two for the duration of the call. Every
  call ends with a line in the file of the call detail records.

  \<^bold>\<open>How it is modelled.\<close> An object is a record, a method a function that returns a value or an error
  together with the object afterwards (type \<open>result\<close> of theory Prelude); exceptions and undefined
  behaviour are the values of type \<open>error\<close>, so that a theorem can say that neither happens. Shared
  pointers are indices into the list \<open>objects\<close> of theory Log. Identifiers, exponents and sizes that
  wrap around are words. What is not in the repository is an argument: the random draws of the
  standard library, the time zone, the outcome of socket calls (\<open>env\<close> of theory Session), the
  rounding \<open>fl\<close> of \<^verbatim>\<open>strtod\<close>, and the moment and the error code with which Asio runs a handler: theory
  Timers keeps the pending handlers and whether they were cancelled, the state of theory CallCentre when
  each wait ends and was cancelled, and \<open>delivers\<close> says what Asio documents. A handler runs without an
  error once the timer has expired, also when its wait was cancelled after that, because it was then
  queued already; the handler of a cancelled wait may also get \<^verbatim>\<open>operation_aborted\<close>.

  \<^bold>\<open>The theories of the service.\<close> Prelude, Waiting (the two contracts \<open>waitable\<close> and \<open>fifo\<close>, as
  locales, interpreted for both queues), Timers, Call, RandGen, Log, ThreadSafeQueue,
  IncomingCallsQueue, Operators, PhoneNumber, Session, Listener, ReadConfig and MainProgram define
  the state and one function for every method, under the method's name. CallCentre puts them
  together: \<open>sys_step\<close> is one atomic action of one thread and \<open>sys_run\<close> a run, where a request, a
  handler of a timer and each action of the operators' thread between two locks are one step;
  \<open>permitted\<close> says which events the clock and Asio allow, and \<open>reachable\<close> collects the states a run
  passes through as long as no step fails.
  QueueCorrect has the invariant of the queue and the abstract queue it implements,
  CallCentreCorrect the invariant \<open>machine_inv\<close> of the program, its preservation by every step that
  returns, and the ways a step can fail,
  Shutdown the end of the operators' thread, Hazards two orders of events that end in undefined
  behaviour, SessionCorrect the branches of a request and the protocol of a session, PhoneCorrect
  the equivalence of the regular expression, with a backtracking matcher, to a written-out syntax,
  MainCorrect the initial state, and Scenario a small configuration with runs of it that are
  evaluated. The properties are in QueueProperties, RequestProperties and here.

  \<^bold>\<open>The theories of the JSON library\<close> (\<^verbatim>\<open>libs/include/nlohmann/json.hpp\<close>). JsonValue has the values,
  exceptions, index operator and conversions; JsonLexer and JsonScanner the class \<^verbatim>\<open>lexer\<close>; JsonSax
  the handlers of events; JsonParser the class \<^verbatim>\<open>parser\<close> and \<^verbatim>\<open>json::parse\<close>. Their loops end because the
  input gets shorter (\<open>remaining\<close>). JsonTokens and JsonText state the grammar of RFC 8259, over bytes,
  with the value of every text; JsonStrings, JsonBuilder, JsonCorrect and JsonLayout prove that the
  parser reads it. JsonGrisu has the printing of a \<^verbatim>\<open>double\<close> (namespace \<^verbatim>\<open>dtoa_impl\<close>); JsonPowers,
  JsonScaling, JsonDigits, JsonGrisuCorrect and JsonFloatText prove that the printed number lies
  between the midpoints to the neighbours of the number, whatever the number. JsonDump has the
  class \<^verbatim>\<open>serializer\<close> and \<^verbatim>\<open>basic_json::dump\<close>; JsonEscape and JsonEscapeSafe have what the automaton
  that decodes UTF-8 does, and the escaping of strings. JsonIntegerText has the digits of integers,
  JsonDumpCorrect that what is printed is read back, JsonDumpSafe that printing any value is safe.
  JsonAnyInput has what the scanner returns on any bytes, JsonContract the contract between the loop of
  the parser and a handler of its events (locale \<open>sax_handler\<close>), and JsonTyped its interpretation for the
  builder of values and for the acceptor. The properties are in JsonProperties.

  \<^bold>\<open>What the properties show.\<close> Of the service: no call is lost and none is in two places, records are
  final, every operator is free or talking, the queue is bounded and first in, first out, a timeout
  removes exactly its call, a session serves one request, and a step fails in four cases only. Three
  properties say how the program goes wrong: a wake-up is lost, a handler erases through a stale
  iterator, and the shutdown dereferences a null pointer; the last two from every state of a kind. Of the
  JSON library: parsing is total and returns the value of every text of the grammar, the scanner of
  strings accepts exactly the well-formed ones, and what is printed is read back.

  \<^bold>\<open>Bounds.\<close> No function has fuel: every loop ends by a measure of its own. The queue holds between 1
  and 100000 calls, as the constructor requires; identifiers of calls have 32 bits.

  \<^bold>\<open>Not modelled.\<close> Of the JSON library the binary formats, iterators, JSON pointers and patches,
  user-defined conversions and the diagnostics of exceptions, none of which the program uses; the
  assertions inside Grisu2 and in the lexer, which a release build leaves out; the sign of a zero, since
  a \<^verbatim>\<open>double\<close> is the rational it denotes; spdlog and the copy of fmt inside it, vendored code of which the
  program uses three loggers, lists of lines here; the data races of \<^verbatim>\<open>RandGen\<close>,
  whose operations are atomic here; memory exhaustion.
\<close>

section \<open>The running program\<close>

text \<open>
  The states below are those \<open>main_program\<close> starts in and all that steps lead to which do not fail;
  handlers of timers run as Asio documents it, and \<open>no_step_fails\<close> says which steps can fail.
\<close>

lemma main_reachable:
  "main_program sur argv (r, world0) = returns (Runs x) st \<Longrightarrow> reachable env (machine x) s \<Longrightarrow> machine_inv s"
  using main_inv_start [OF _ world0_empty] reachable_inv by blast

lemma demo_program:
  "\<exists>x st. main_program demo_sur demo_argv (rand_gen0 0, world0) = returns (Runs x) st \<and> machine x = demo_start"
  using demo_main by fastforce

lemma demo_reachable:
  assumes "run_permitted demo_env es demo_start" "sys_run demo_env es demo_start = Some (returns () s)"
  shows "\<exists>x st. main_program demo_sur demo_argv (rand_gen0 0, world0) = returns (Runs x) st \<and>
    reachable demo_env (machine x) s"
  using demo_program run_reachable [OF reach_start assms] by metis

text \<open>C1. No call is lost and none is handled twice: in every state the program can reach by steps that do
  not fail, with handlers of timers run as Asio documents it, every
  call ever created is in exactly one of four places, the queue, the hands of the operators'
  thread, a conversation, or the file of the records.\<close>

theorem every_call_in_one_place:
  assumes "main_program sur argv (r, world0) = returns (Runs x) st" "reachable env (machine x) s"
  shows "mset (waiting (incoming (ops s))) + mset (in_hand (pc s)) + mset (talking (talks (ops s))) +
    mset (cdr_written (world s)) = mset [0..<length (objects (world s))]"
  using sys_invD(6) [OF machine_invD(1) [OF main_reachable [OF assms]]] by (simp add: conserved_def)

theorem every_call_in_one_place_witness:
  "\<exists>s. sys_run demo_env served_events demo_start = Some (returns () s) \<and>
     mset (waiting (incoming (ops s))) + mset (in_hand (pc s)) + mset (talking (talks (ops s))) +
     mset (cdr_written (world s)) = mset [0..<1]"
proof -
  from demo_served obtain s where s: "sys_run demo_env served_events demo_start = Some (returns () s)"
    "length (objects (world s)) = 1" "run_permitted demo_env served_events demo_start" by blast
  from demo_reachable [OF s(3,1)] obtain x st where
    "main_program demo_sur demo_argv (rand_gen0 0, world0) = returns (Runs x) st"
    "reachable demo_env (machine x) s" by blast
  from every_call_in_one_place [OF this] s(1,2) show ?thesis by auto
qed

text \<open>C6. The file of the records only grows, by lines that are the printed form of the calls that
  have ended, one for each, and a call that has its line is never changed again; this for every two
  states of which one leads to the other by steps that do not fail, with handlers of timers run as
  Asio documents it.\<close>

theorem records_are_final:
  assumes "main_program sur argv (r, world0) = returns (Runs x) st"
    "reachable env (machine x) s" "reachable env s s'"
  shows "(\<exists>more ls. cdr_written (world s') = cdr_written (world s) @ more \<and>
      cdr_lines (world s') = cdr_lines (world s) @ ls \<and>
      map (\<lambda>i. cdr_line (env_localtime env) (objects (world s') ! i)) more = map Inr ls) \<and>
    (\<forall>i \<in> set (cdr_written (world s)). objects (world s') ! i = objects (world s) ! i) \<and>
    distinct (cdr_written (world s'))"
proof -
  note i = main_reachable [OF assms(1,2)]
  have "distinct (cdr_written (world s'))"
    using conserved_distinct(1) [OF sys_invD(6) [OF machine_invD(1) [OF reachable_inv [OF assms(3) i]]]] by simp
  with reachable_records [OF assms(3) i] show ?thesis by (simp add: records_step_def)
qed

theorem records_are_final_witness:
  "\<exists>s ls. sys_run demo_env served_events demo_start = Some (returns () s) \<and>
     cdr_lines (world s) = '' '' # ls \<and> length ls = 1"
proof -
  from demo_program obtain x st where m: "main_program demo_sur demo_argv (rand_gen0 0, world0) =
      returns (Runs x) st" "machine x = demo_start" by blast
  from demo_served obtain s where s: "sys_run demo_env served_events demo_start = Some (returns () s)"
    "cdr_written (world s) = [0]" "run_permitted demo_env served_events demo_start" by blast
  have r0: "reachable demo_env (machine x) demo_start" by (simp add: m(2) reach_start)
  have w: "cdr_written (world demo_start) = []" "cdr_lines (world demo_start) = ['' '']"
    by (simp_all add: demo_start_def sys_init_def demo_world_def)
  from records_are_final [OF m(1) r0 run_reachable [OF reach_start s(3,1)]] s(2) w obtain ls where
    "cdr_lines (world s) = '' '' # ls" "length (map (Inr :: string \<Rightarrow> error + string) ls) = 1"
    by (metis append_Cons append_Nil length_map list.size(3,4) One_nat_def add_0)
  with s(1) show ?thesis by auto
qed

text \<open>C7. In every state the program can reach by steps that do not fail, with handlers of timers run as
  Asio documents it, every operator is either free, once in the queue of free operators and with no
  timer running, or in exactly one conversation, with the call that carries its number.\<close>

theorem operators_free_or_talking:
  assumes "main_program sur argv (r, world0) = returns (Runs x) st" "reachable env (machine x) s"
  shows "distinct (free_list s) \<and> set (free_list s) \<subseteq> int ` {..<length (talks (ops s))} \<and>
    (\<forall>k < length (talks (ops s)). int k \<in> set (free_list s) \<and> pending (talks (ops s) ! k) = [] \<or>
       int k \<notin> set (free_list s) \<and> (\<exists>i < length (objects (world s)).
         pending (talks (ops s) ! k) = [(Some i, False)] \<and> operator_id (objects (world s) ! i) = int k))"
  using sys_invD(3) [OF machine_invD(1) [OF main_reachable [OF assms]]] by (simp add: talks_inv_def)

theorem operators_free_or_talking_witness:
  "\<exists>s i. sys_run demo_env talking_events demo_start = Some (returns () s) \<and>
     pending (talks (ops s) ! 0) = [(Some i, False)] \<and> operator_id (objects (world s) ! i) = 0"
proof -
  from demo_talking obtain s where s: "sys_run demo_env talking_events demo_start = Some (returns () s)"
    "run_permitted demo_env talking_events demo_start" "deqQueue (free_operators (ops s)) = []"
    "phase s = Running" "length (talks (ops s)) = 1" by blast
  from demo_reachable [OF s(2,1)] obtain x st where
    "main_program demo_sur demo_argv (rand_gen0 0, world0) = returns (Runs x) st"
    "reachable demo_env (machine x) s" by blast
  note t = operators_free_or_talking [OF this]
  have "free_list s = []" using s(3,4) by (simp add: free_list_def late_def)
  with t s(5) obtain i where "pending (talks (ops s) ! 0) = [(Some i, False)]"
    "operator_id (objects (world s) ! i) = 0" by auto
  with s(1) show ?thesis by blast
qed

text \<open>C20. In every state the program can reach by steps that do not fail, with handlers of timers run as
  Asio documents it, the capacity of the queue is between 1 and 100000, no more calls wait than
  that and no number waits twice; and the list itself, in which \<^verbatim>\<open>awake\<close> puts a null pointer without
  looking at the capacity, is at most one longer, and not before \<^verbatim>\<open>Stop\<close> has called \<^verbatim>\<open>awake\<close>.\<close>

theorem queue_always_bounded:
  assumes "main_program sur argv (r, world0) = returns (Runs x) st" "reachable env (machine x) s"
  shows "1 \<le> capacity (incoming (ops s)) \<and> capacity (incoming (ops s)) \<le> 100000 \<and>
    length (incoming_calls (incoming (ops s))) \<le>
      capacity (incoming (ops s)) + (if phase s = Awoken \<or> phase s = Joined then 1 else 0) \<and>
    length (waiting (incoming (ops s))) \<le> capacity (incoming (ops s)) \<and>
    distinct (map (\<lambda>i. cg_pn (objects (world s) ! i)) (waiting (incoming (ops s))))"
proof -
  let ?q = "incoming (ops s)"
  note i = main_reachable [OF assms]
  from sys_invD(2) [OF machine_invD(1) [OF i]] have q: "queue_inv (world s) (strip ?q)" .
  have "map (\<lambda>i. cg_pn (objects (world s) ! i)) (waiting ?q) = callers (world s) (strip ?q)"
    by (simp add: waiting_def callers_def number_def case_prod_unfold)
  moreover have l: "length (waiting ?q) = length (incoming_calls (strip ?q))"
    by (simp only: waiting_def length_map)
  moreover have "nulls ?q \<le> (if phase s = Awoken \<or> phase s = Joined then 1 else 0)"
    using machine_invD(2) [OF i] sys_invD(5) [OF machine_invD(1) [OF i]] nulls_strip [of ?q]
    by (auto simp: queue_extra_def phase_inv_def)
  then have "length (incoming_calls ?q) \<le> length (waiting ?q) + (if phase s = Awoken \<or> phase s = Joined then 1 else 0)"
    unfolding length_strip [of ?q] l by simp
  moreover have "length (waiting ?q) \<le> capacity ?q" using queue_bounded [OF q] l by simp
  ultimately show ?thesis using queue_invD(2,5,6) [OF q] by (simp add: keys_ok_def)
qed

theorem queue_always_bounded_witness:
  "\<exists>s. sys_run demo_env missed_events demo_start = Some (returns () s) \<and> waiting (incoming (ops s)) = [0] \<and>
     1 \<le> capacity (incoming (ops s))"
proof -
  from demo_missed obtain s where s: "sys_run demo_env missed_events demo_start = Some (returns () s)"
    "run_permitted demo_env missed_events demo_start" "waiting (incoming (ops s)) = [0]" by blast
  from demo_reachable [OF s(2,1)] obtain x st where
    "main_program demo_sur demo_argv (rand_gen0 0, world0) = returns (Runs x) st"
    "reachable demo_env (machine x) s" by blast
  from queue_always_bounded [OF this] s(1,3) show ?thesis by auto
qed

text \<open>C8. A permitted step of any thread, in every state the program can reach by steps that do not fail,
  with handlers of timers run as Asio documents it, fails in four cases only: the address of the peer of a
  request cannot be read; one of the two random durations drawn for a call does not fit an \<^verbatim>\<open>int\<close>; the
  handler of a wait that was cancelled after it had ended finds its number in the queue again; or the
  operators' thread takes the null pointer \<^verbatim>\<open>awake\<close> put at the head of the queue. In particular no
  container is read out of its bounds, no empty queue is popped unnoticed, and no step of a
  conversation or of the shutdown fails.\<close>

theorem no_step_fails:
  assumes "main_program sur argv (r, world0) = returns (Runs x) st" "reachable env (machine x) s"
    "permitted e s" "sys_step env e s = Some (y, s')"
  shows "y = Inr () \<or>
    (\<exists>m rq now1 now2. e = Request (Inl m) rq now1 now2 \<and> y = Inl m) \<or>
    (\<exists>ip rq now1 now2. e = Request ip rq now1 now2 \<and> y = Inl (Undefined Bad_cast) \<and> \<not> draws_fit env (rand s)) \<or>
    (\<exists>k i now a n. e = Timer_handler k i Success now \<and> y = Inl (Undefined Invalid_iterator) \<and>
       pending (timers (incoming (ops s)) ! k) ! i = ((a, n), True) \<and> wait_ends s n \<le> wait_cancelled s n \<and>
       a \<in> set (callers (world s) (incoming (ops s)))) \<or>
    (\<exists>now. e = Operators_thread now \<and> y = Inl (Undefined Null_deref) \<and> phase s = Awoken \<and>
       pc s = In_AddCall \<and> null_at_head (incoming (ops s)))"
proof (cases y)
  case (Inl m)
  from sys_step_failures [OF main_reachable [OF assms(1,2)] assms(3) assms(4) [unfolded Inl]] consider
    "request_fails env e s m" | "handler_fails e s m" | "shutdown_fails e s m" by blast
  then show ?thesis
  proof cases
    case 2
    then obtain k i now a n where
      "e = Timer_handler k i Success now" "m = Undefined Invalid_iterator"
      "pending (timers (incoming (ops s)) ! k) ! i = ((a, n), True)" "a \<in> set (callers (world s) (incoming (ops s)))"
      by (auto simp: handler_fails_def stale_handler_def)
    with assms(3) Inl show ?thesis by (simp add: wait_expired_def)
  qed (auto simp: request_fails_def shutdown_fails_def Inl)
qed simp

theorem no_step_fails_witness:
  "\<exists>s'. sys_step demo_env (demo_request 5) demo_start = Some (returns () s')"
proof -
  obtain y s' where st: "sys_step demo_env (demo_request 5) demo_start = Some (y, s')"
    by (cases "sys_step demo_env (demo_request 5) demo_start")
      (auto simp: demo_request_def demo_start_def sys_init_def)
  from demo_program obtain x st where m: "main_program demo_sur demo_argv (rand_gen0 0, world0) =
      returns (Runs x) st" "machine x = demo_start" by blast
  have r: "reachable demo_env (machine x) demo_start" by (simp add: m(2) reach_start)
  have p: "permitted (demo_request 5) demo_start" by (simp add: demo_request_def)
  have d: "draws_fit demo_env (rand demo_start)" using demo_draws_fit by (simp add: demo_start_def sys_init_def)
  from no_step_fails [OF m(1) r p st] d have "y = Inr ()" by (auto simp: demo_request_def)
  with st show ?thesis by blast
qed

section \<open>Shutdown\<close>

text \<open>C19. In every state after \<^verbatim>\<open>Stop\<close> that the program can reach by steps that do not fail, with handlers
  of timers run as Asio documents it, the operators' thread returns within seven of its own steps or
  dereferences the null pointer of \<^verbatim>\<open>awake\<close>, unless it is blocked in a wait that nobody will notify.\<close>

theorem stop_ends_the_thread:
  assumes "main_program sur argv (r, world0) = returns (Runs x) st" "reachable env (machine x) s"
    "phase s = Awoken" "\<not> stuck s" "0 \<le> now"
  shows "\<exists>n \<le> 7. \<exists>y s'. thread_steps env n now s = Some (y, s') \<and>
    (y = Inr () \<and> pc s' = Stopped \<or> y = Inl (Undefined Null_deref))"
proof -
  note i = machine_invD(1) [OF main_reachable [OF assms(1,2)]]
  from thread_stops [OF i assms(3-5)] rank_le [of "pc s"] show ?thesis by (meson le_trans)
qed

theorem stop_ends_the_thread_witness:
  "\<exists>s n y s'. sys_run demo_env stop_events demo_start = Some (returns () s) \<and> n \<le> 7 \<and>
     thread_steps demo_env n 9 s = Some (y, s') \<and>
     (y = Inr () \<and> pc s' = Stopped \<or> y = Inl (Undefined Null_deref))"
proof -
  from demo_stop obtain s where s: "sys_run demo_env stop_events demo_start = Some (returns () s)"
    "run_permitted demo_env stop_events demo_start" "phase s = Awoken"
    "pc s = Wait_calls Asleep" "cv_blocking (incoming (ops s)) = 0" by blast
  from demo_reachable [OF s(2,1)] obtain x st where m:
    "main_program demo_sur demo_argv (rand_gen0 0, world0) = returns (Runs x) st"
    "reachable demo_env (machine x) s" by blast
  moreover have "\<not> stuck s" using s(4,5) by (simp add: stuck_def)
  ultimately show ?thesis using stop_ends_the_thread [OF m s(3)] s(1) by (metis zero_le_numeral)
qed

text \<open>C29. The shutdown can dereference a null pointer, from every state in which the operators' thread has
  passed the test of \<^verbatim>\<open>continue_loop_\<close> and is about to pop the only waiting call: when the wait of the
  call has ended, its handler takes it out, a signal stops the program, \<^verbatim>\<open>awake\<close> puts its null pointer
  into the empty queue, and \<^verbatim>\<open>pop\<close> takes it. Asio permits this order of events.\<close>

theorem shutdown_null_pointer:
  assumes "main_program sur argv (r, world0) = returns (Runs x) st" "reachable env (machine x) s"
    "phase s = Running" "pc s = In_AddCall" "incoming_calls (incoming (ops s)) = [(n, Some j)]"
    "wait_ends s n \<le> now" "0 \<le> now"
  shows "\<exists>k i s'. run_permitted env (null_events k i now) s \<and>
    sys_run env (null_events k i now) s = Some (raises (Undefined Null_deref) s')"
  by (rule null_pointer_run [OF main_reachable [OF assms(1,2)] assms(3-7)])

theorem shutdown_null_pointer_witness:
  "\<exists>s k i s'. sys_run demo_env ready_events demo_start = Some (returns () s) \<and>
     run_permitted demo_env (null_events k i 35000000002) s \<and>
     sys_run demo_env (null_events k i 35000000002) s = Some (raises (Undefined Null_deref) s')"
proof -
  from demo_ready obtain s where s: "sys_run demo_env ready_events demo_start = Some (returns () s)"
    "run_permitted demo_env ready_events demo_start" "phase s = Running" "pc s = In_AddCall"
    "incoming_calls (incoming (ops s)) = [(0, Some 0)]" "wait_ends s 0 = 35000000002" by blast
  from demo_reachable [OF s(2,1)] obtain x st where m:
    "main_program demo_sur demo_argv (rand_gen0 0, world0) = returns (Runs x) st"
    "reachable demo_env (machine x) s" by blast
  from shutdown_null_pointer [OF m s(3-5), of 35000000002] s(1,6) show ?thesis by auto
qed

text \<open>C30. The handler of a wait that had ended just before its call was taken erases through the iterator
  of that call: from every state in which the operators' thread is about to take the first call, and
  the wait of this call has ended, the thread takes it, the same number calls again and is accepted, and
  the queued handler, which Asio calls without an error, finds the number and uses the iterator of the
  call that is gone.\<close>

theorem stale_handler_invalid_iterator:
  assumes "main_program sur argv (r, world0) = returns (Runs x) st" "reachable env (machine x) s"
    "phase s = Running" "pc s = In_AddCall" "incoming_calls (incoming (ops s)) = (n, Some j) # rest"
    "wait_ends s n \<le> now" "0 \<le> now" "req_method rq = Get"
    "isValidPhoneNumber (target rq) [] = (True, cg_pn (objects (world s) ! j))" "draws_fit env (rand s)"
    "0 \<le> now1" "0 \<le> now2" "0 \<le> now3"
  shows "\<exists>k i s'. run_permitted env (stale_events k i ip rq now now1 now2 now3) s \<and>
    sys_run env (stale_events k i ip rq now now1 now2 now3) s = Some (raises (Undefined Invalid_iterator) s')"
  by (rule stale_run [OF main_reachable [OF assms(1,2)] assms(3-13)])

theorem stale_handler_invalid_iterator_witness:
  "\<exists>s k i rq s'. sys_run demo_env ready_events demo_start = Some (returns () s) \<and>
     run_permitted demo_env (stale_events k i ''::1'' rq 35000000002 35000000003 35000000004 35000000005) s \<and>
     sys_run demo_env (stale_events k i ''::1'' rq 35000000002 35000000003 35000000004 35000000005) s =
       Some (raises (Undefined Invalid_iterator) s')"
proof -
  from demo_ready obtain s where s: "sys_run demo_env ready_events demo_start = Some (returns () s)"
    "run_permitted demo_env ready_events demo_start" "phase s = Running" "pc s = In_AddCall"
    "incoming_calls (incoming (ops s)) = [(0, Some 0)]" "wait_ends s 0 = 35000000002"
    "cg_pn (objects (world s) ! 0) = ''78129885723''" "draws_fit demo_env (rand s)" by blast
  from demo_reachable [OF s(2,1)] obtain x st where m:
    "main_program demo_sur demo_argv (rand_gen0 0, world0) = returns (Runs x) st"
    "reachable demo_env (machine x) s" by blast
  let ?rq = "\<lparr>req_method = Get, target = ''/88129885723'', version = 11\<rparr>"
  from stale_handler_invalid_iterator [OF m s(3-5), of 35000000002 ?rq 35000000003 35000000004 35000000005 "''::1''"]
    s(1,6-8) demo_phone show ?thesis by auto
qed

text \<open>C31. A wake-up can be lost, because \<^verbatim>\<open>wait\<close> tests the queue before it takes the mutex of the
  condition variable. A call then waits beside a free operator, whose thread sleeps; and at the
  shutdown the thread sleeps for ever: no event but a spurious wake-up changes the state.\<close>

theorem wakeup_can_be_lost:
  "(\<exists>s. run_permitted demo_env missed_events demo_start \<and>
      sys_run demo_env missed_events demo_start = Some (returns () s) \<and>
      pc s = Wait_calls Asleep \<and> 0 < cv_blocking (incoming (ops s)) \<and>
      waiting (incoming (ops s)) = [0] \<and> deqQueue (free_operators (ops s)) = [0]) \<and>
   (\<exists>s. run_permitted demo_env deadlock_events demo_start \<and>
      sys_run demo_env deadlock_events demo_start = Some (returns () s) \<and> pc s = Wait_calls Asleep \<and>
      (\<forall>e y s'. e \<noteq> Spurious_wakeup \<longrightarrow> sys_step demo_env e s = Some (y, s') \<longrightarrow> s' = s))"
proof
  show "\<exists>s. run_permitted demo_env missed_events demo_start \<and>
      sys_run demo_env missed_events demo_start = Some (returns () s) \<and>
      pc s = Wait_calls Asleep \<and> 0 < cv_blocking (incoming (ops s)) \<and>
      waiting (incoming (ops s)) = [0] \<and> deqQueue (free_operators (ops s)) = [0]"
    using demo_missed by auto
  from demo_deadlock obtain s where s: "sys_run demo_env deadlock_events demo_start = Some (returns () s)"
    "run_permitted demo_env deadlock_events demo_start" "phase s = Awoken"
    "pc s = Wait_calls Asleep" "cv_blocking (incoming (ops s)) = 1" by blast
  with asleep_forever [OF s(3,4), of demo_env] show "\<exists>s. run_permitted demo_env deadlock_events demo_start \<and>
      sys_run demo_env deadlock_events demo_start = Some (returns () s) \<and> pc s = Wait_calls Asleep \<and>
      (\<forall>e y s'. e \<noteq> Spurious_wakeup \<longrightarrow> sys_step demo_env e s = Some (y, s') \<longrightarrow> s' = s)"
    by (intro exI [of _ s]) auto
qed

theorem wakeup_can_be_lost_witness:
  "\<exists>s. sys_run demo_env deadlock_events demo_start = Some (returns () s) \<and>
     (\<forall>y s'. sys_step demo_env Signal s = Some (y, s') \<longrightarrow> s' = s)"
  using wakeup_can_be_lost by blast

section \<open>Start\<close>

text \<open>C32. Reading the configuration looks up and converts the eight members in the order of
  \<^verbatim>\<open>ReadJson\<close>, and the first failure is the error; the nulls the index operator inserts on the
  way change nothing that is read later.\<close>

theorem config_members_in_order:
  "ebind (ReadConfig_ctor fl file) (\<lambda>c. Inr (settings c)) =
    ebind (json_parse fl (case file of Some text \<Rightarrow> text | None \<Rightarrow> '''')) (\<lambda>j.
    ebind (setting [''count_operators''] get_int j) (\<lambda>n.
    ebind (setting [''incoming_queue_size''] get_size j) (\<lambda>m.
    ebind (setting [''log'', ''server_level''] get_string j) (\<lambda>sl.
    ebind (setting [''log'', ''operators_level''] get_string j) (\<lambda>ol.
    ebind (setting [''rand_timeout_in_queue'', ''rand_uniform_min''] (get_double fl) j) (\<lambda>tmin.
    ebind (setting [''rand_timeout_in_queue'', ''rand_uniform_max''] (get_double fl) j) (\<lambda>tmax.
    ebind (setting [''rand_call_duration'', ''rand_gen_erl_shape''] (get_double fl) j) (\<lambda>shape.
    ebind (setting [''rand_call_duration'', ''rand_gen_erl_scale''] (get_double fl) j) (\<lambda>scale.
    Inr (n, m, sl, ol, tmin, tmax, shape, scale))))))))))"
  by (rule ReadConfig_settings)

text \<open>C33. The start of the program: with another number of arguments than three or four the program writes
  the usage message and exits with status 1, and nothing else has happened. A start that succeeds has
  converted the address, the port and the number of threads, and has read the file of the configuration,
  the fourth argument or \<^verbatim>\<open>config_call_centre.json\<close>; it runs handlers on one thread less than asked for,
  but at least one; and the queue and its capacity, the operators, the distributions of the durations and
  the levels of the loggers are those of the configuration, whose queue size lies between 1 and 100000.\<close>

theorem program_start:
  "(length argv \<notin> {4, 5} \<longrightarrow> main_program sur argv (r, w) = returns (Exit 1 usage) (r, w)) \<and>
   (\<forall>x st'. main_program sur argv (r, world0) = returns (Runs x) st' \<longrightarrow>
      (\<exists>address p t c. sur_address sur (argv ! 1) = Inr address \<and> stoi (argv ! 2) = Inr p \<and>
         stoi (argv ! 3) = Inr t \<and> ReadConfig_ctor (sur_fl sur)
           (sur_file sur (if length argv = 5 then argv ! 4 else ''config_call_centre.json'')) = Inr c \<and>
         io_threads x = nat (max 1 (t - 1)) \<and> 0 \<le> count_operators c \<and> 1 \<le> incoming_queue_size c \<and>
         incoming_queue_size c \<le> 100000 \<and> set_up c (machine x)))"
proof (intro conjI impI allI)
  fix x st' assume m: "main_program sur argv (r, world0) = returns (Runs x) st'"
  from main_inv_start [OF this world0_empty] obtain t where
    t: "stoi (argv ! 3) = Inr t" "io_threads x = Suc (nat (max 2 t - 2))" by blast
  moreover have "Suc (nat (max 2 t - 2)) = nat (max 1 (t - 1))" by simp
  ultimately show "\<exists>address p t c. sur_address sur (argv ! 1) = Inr address \<and> stoi (argv ! 2) = Inr p \<and>
         stoi (argv ! 3) = Inr t \<and> ReadConfig_ctor (sur_fl sur)
           (sur_file sur (if length argv = 5 then argv ! 4 else ''config_call_centre.json'')) = Inr c \<and>
         io_threads x = nat (max 1 (t - 1)) \<and> 0 \<le> count_operators c \<and> 1 \<le> incoming_queue_size c \<and>
         incoming_queue_size c \<le> 100000 \<and> set_up c (machine x)"
    using main_set_up [OF m] by auto
qed (simp add: main_program_def)

theorem program_start_witness:
  "main_program demo_sur [''CallCentre''] (rand_gen0 (0 :: nat), world0) =
     returns (Exit 1 usage) (rand_gen0 0, world0) \<and>
   (\<exists>x st c. main_program demo_sur demo_argv (rand_gen0 (0 :: nat), world0) = returns (Runs x) st \<and>
      io_threads x = 2 \<and> set_up c (machine x))"
proof
  show "main_program demo_sur [''CallCentre''] (rand_gen0 (0 :: nat), world0) =
     returns (Exit 1 usage) (rand_gen0 0, world0)"
    using program_start [of "[''CallCentre'']" demo_sur "rand_gen0 (0 :: nat)" world0] by simp
  from demo_main obtain a st where m: "main_program demo_sur demo_argv (rand_gen0 (0 :: nat), world0) =
      returns (Runs \<lparr>machine = demo_start, acceptor = a, io_threads = 2\<rparr>) st" by blast
  with program_start [of demo_argv demo_sur "rand_gen0 (0 :: nat)" world0] obtain c where
    "set_up c (machine \<lparr>machine = demo_start, acceptor = a, io_threads = 2\<rparr>)" by blast
  with m show "\<exists>x st c. main_program demo_sur demo_argv (rand_gen0 (0 :: nat), world0) = returns (Runs x) st \<and>
      io_threads x = 2 \<and> set_up c (machine x)" by fastforce
qed

end
